(* ===== verification/Prelude.thy ===== *)
theory Prelude
  imports Main "HOL-Library.Sublist" "HOL-Library.Char_ord" "HOL-Library.List_Lexorder"
begin

text \<open>
  Shared vocabulary of the development: Go strings and byte slices as lists of bytes, the
  functions of Go's \<^verbatim>\<open>strings\<close> package on bytes that the repository calls, the collections of
  simplification rules, and the two generic interfaces several components provide: a codec
  with its round trip and a normaliser that is idempotent.
\<close>

named_theorems go_simps \<open>unfoldings of the models of Go library calls\<close>
named_theorems byte_pres \<open>which bytes survive a string operation\<close>

section \<open>Byte strings\<close>

text \<open>A Go \<^verbatim>\<open>string\<close> or \<^verbatim>\<open>[]byte\<close> is a sequence of bytes; the type \<open>char\<close> has 256 values.\<close>

type_synonym bytes = string

abbreviation byte :: "char \<Rightarrow> nat" where
  "byte c \<equiv> of_char c"

abbreviation LF :: char where
  "LF \<equiv> CHR 0x0A"

abbreviation CR :: char where
  "CR \<equiv> CHR 0x0D"

abbreviation TAB :: char where
  "TAB \<equiv> CHR 0x09"

abbreviation CRLF :: bytes where
  "CRLF \<equiv> [CHR 0x0D, CHR 0x0A]"

abbreviation SLASH :: char where
  "SLASH \<equiv> CHR ''/''"

abbreviation BACKSLASH :: char where
  "BACKSLASH \<equiv> CHR 0x5C"

abbreviation DQUOTE :: char where
  "DQUOTE \<equiv> CHR 0x22"

subsection \<open>Package strings, on bytes\<close>

definition strings_HasPrefix :: "bytes \<Rightarrow> bytes \<Rightarrow> bool" where
  "strings_HasPrefix s p \<longleftrightarrow> prefix p s"

definition strings_HasSuffix :: "bytes \<Rightarrow> bytes \<Rightarrow> bool" where
  "strings_HasSuffix s p \<longleftrightarrow> suffix p s"

definition strings_Contains :: "bytes \<Rightarrow> bytes \<Rightarrow> bool" where
  "strings_Contains s p \<longleftrightarrow> sublist p s"

definition strings_ContainsAny :: "bytes \<Rightarrow> bytes \<Rightarrow> bool" where
  "strings_ContainsAny s cs \<longleftrightarrow> list_ex (\<lambda>c. c \<in> set cs) s"

text \<open>\<^verbatim>\<open>Index\<close>: the first position at which the pattern occurs, \<open>None\<close> for Go's \<open>-1\<close>.\<close>

fun strings_Index :: "bytes \<Rightarrow> bytes \<Rightarrow> nat option" where
  "strings_Index [] p = (if p = [] then Some 0 else None)"
| "strings_Index (c # s) p =
     (if prefix p (c # s) then Some 0 else map_option Suc (strings_Index s p))"

text \<open>\<^verbatim>\<open>LastIndex\<close> of a one-byte pattern.\<close>

fun strings_LastIndexByte :: "bytes \<Rightarrow> char \<Rightarrow> nat option" where
  "strings_LastIndexByte [] c = None"
| "strings_LastIndexByte (x # s) c =
     (case strings_LastIndexByte s c of
        Some i \<Rightarrow> Some (Suc i)
      | None \<Rightarrow> if x = c then Some 0 else None)"

text \<open>\<^verbatim>\<open>Cut\<close> and \<^verbatim>\<open>Split\<close> around a one-byte separator.\<close>

definition strings_Cut :: "bytes \<Rightarrow> char \<Rightarrow> (bytes \<times> bytes) option" where
  "strings_Cut s c =
     (if c \<in> set s then Some (takeWhile (\<lambda>x. x \<noteq> c) s, tl (dropWhile (\<lambda>x. x \<noteq> c) s)) else None)"

fun strings_Split :: "bytes \<Rightarrow> char \<Rightarrow> bytes list" where
  "strings_Split [] c = [[]]"
| "strings_Split (x # s) c =
     (if x = c then [] # strings_Split s c
      else case strings_Split s c of
             [] \<Rightarrow> [[x]]
           | w # ws \<Rightarrow> (x # w) # ws)"

fun strings_Join :: "bytes list \<Rightarrow> bytes \<Rightarrow> bytes" where
  "strings_Join [] sep = []"
| "strings_Join [w] sep = w"
| "strings_Join (w # v # ws) sep = w @ sep @ strings_Join (v # ws) sep"

text \<open>\<^verbatim>\<open>TrimLeft(s, cutset)\<close>.\<close>

definition strings_TrimLeft :: "bytes \<Rightarrow> bytes \<Rightarrow> bytes" where
  "strings_TrimLeft s cs = dropWhile (\<lambda>c. c \<in> set cs) s"

lemmas [go_simps] =
  strings_HasPrefix_def strings_HasSuffix_def strings_Contains_def strings_ContainsAny_def
  strings_TrimLeft_def

lemma strings_ContainsAny_iff [go_simps]:
  "strings_ContainsAny s cs \<longleftrightarrow> set s \<inter> set cs \<noteq> {}"
  by (auto simp: strings_ContainsAny_def list_ex_iff)

text \<open>A word is not found across a space it does not contain.\<close>

lemma sublist_space_sep:
  assumes "CHR '' '' \<notin> set m" and "m \<noteq> []"
  shows "sublist m (a @ CHR '' '' # b) \<longleftrightarrow> sublist m a \<or> sublist m (CHR '' '' # b)"
proof
  assume "sublist m (a @ CHR '' '' # b)"
  then show "sublist m a \<or> sublist m (CHR '' '' # b)"
    unfolding sublist_append
  proof (elim disjE exE conjE)
    fix x y
    assume m: "m = x @ y" "suffix x a" "prefix y (CHR '' '' # b)"
    with assms(1) have "y = []" by (cases y) auto
    with m show ?thesis by auto
  qed auto
qed (auto simp: sublist_append)

lemma strings_Contains_single [simp]:
  "strings_Contains s [c] \<longleftrightarrow> c \<in> set s"
  unfolding strings_Contains_def
proof
  assume "sublist [c] s"
  then show "c \<in> set s" by (auto dest: set_mono_sublist)
next
  assume "c \<in> set s"
  then obtain xs ys where "s = xs @ [c] @ ys" by (auto simp: in_set_conv_decomp)
  then show "sublist [c] s" by (auto simp: sublist_def)
qed

lemma strings_Index_None_iff: "strings_Index s p = None \<longleftrightarrow> \<not> sublist p s"
  by (induction s) (auto simp: sublist_Cons_right)

lemma strings_Index_SomeD:
  "strings_Index s p = Some i \<Longrightarrow> i + length p \<le> length s \<and> take (length p) (drop i s) = p"
proof (induction s arbitrary: i)
  case Nil
  then show ?case by (simp split: if_splits)
next
  case (Cons c s)
  show ?case
  proof (cases "prefix p (c # s)")
    case True
    then have "length p \<le> length (c # s)" by (rule prefix_length_le)
    moreover from True have "take (length p) (c # s) = p" by (auto simp: prefix_def)
    ultimately show ?thesis using True Cons.prems by simp
  next
    case False
    with Cons.prems obtain j where "i = Suc j" and "strings_Index s p = Some j" by auto
    with Cons.IH [of j] show ?thesis by simp
  qed
qed

lemma strings_LastIndexByte_None_iff [simp]:
  "strings_LastIndexByte s c = None \<longleftrightarrow> c \<notin> set s"
  by (induction s) (auto split: option.splits)

lemma strings_LastIndexByte_SomeD:
  "strings_LastIndexByte s c = Some i \<Longrightarrow> i < length s \<and> s ! i = c \<and> c \<notin> set (drop (Suc i) s)"
  by (induction s arbitrary: i) (auto split: option.splits if_splits)

lemma strings_LastIndexByte_append:
  "c \<notin> set t \<Longrightarrow> strings_LastIndexByte (s @ c # t) c = Some (length s)"
  by (induction s) (auto split: option.splits)

lemma append_last_sep_unique:
  assumes "a @ (c :: char) # x = b @ c # y" and "c \<notin> set x" and "c \<notin> set y"
  shows "a = b \<and> x = y"
proof -
  have "length a = length b"
    using strings_LastIndexByte_append [OF assms(2), of a] strings_LastIndexByte_append [OF assms(3), of b]
      assms(1) by simp
  with assms(1) show ?thesis by simp
qed

lemma strings_Cut_append:
  "c \<notin> set s \<Longrightarrow> strings_Cut (s @ c # t) c = Some (s, t)"
  by (auto simp: strings_Cut_def takeWhile_append dropWhile_append)

lemma strings_Cut_SomeD:
  "strings_Cut s c = Some (a, b) \<Longrightarrow> s = a @ c # b \<and> c \<notin> set a"
proof -
  assume "strings_Cut s c = Some (a, b)"
  then have c: "c \<in> set s" and a: "a = takeWhile (\<lambda>x. x \<noteq> c) s"
    and b: "b = tl (dropWhile (\<lambda>x. x \<noteq> c) s)"
    by (auto simp: strings_Cut_def split: if_splits)
  from c have ne: "dropWhile (\<lambda>x. x \<noteq> c) s \<noteq> []" by (simp add: dropWhile_eq_Nil_conv)
  then have "hd (dropWhile (\<lambda>x. x \<noteq> c) s) = c" by (metis (mono_tags) hd_dropWhile)
  with ne b have "dropWhile (\<lambda>x. x \<noteq> c) s = c # b" by (metis list.collapse)
  with a have "s = a @ c # b" by (metis takeWhile_dropWhile_id)
  moreover have "c \<notin> set a" using a by (auto dest: set_takeWhileD)
  ultimately show ?thesis by simp
qed

lemma strings_Split_ne [simp]: "strings_Split s c \<noteq> []"
  by (cases s) (auto split: list.splits)

lemma strings_Join_Split [simp]: "strings_Join (strings_Split s c) [c] = s"
proof (induction s)
  case Nil
  then show ?case by simp
next
  case (Cons x s)
  show ?case
  proof (cases "strings_Split s c")
    case Nil
    then show ?thesis by simp
  next
    case (Cons w ws)
    with Cons.IH show ?thesis by (cases ws) auto
  qed
qed

lemma strings_Split_no_sep: "w \<in> set (strings_Split s c) \<Longrightarrow> c \<notin> set w"
  by (induction s arbitrary: w) (auto split: if_splits list.splits)

lemma strings_Split_absent: "c \<notin> set s \<Longrightarrow> strings_Split s c = [s]"
  by (induction s) auto

lemma strings_Split_append: "c \<notin> set w \<Longrightarrow> strings_Split (w @ c # s) c = w # strings_Split s c"
  by (induction w) auto

lemma strings_Split_Join:
  "ws \<noteq> [] \<Longrightarrow> \<forall>w \<in> set ws. c \<notin> set w \<Longrightarrow> strings_Split (strings_Join ws [c]) c = ws"
proof (induction ws rule: induct_list012)
  case 1
  then show ?case by simp
next
  case (2 w)
  then show ?case by (simp add: strings_Split_absent)
next
  case (3 w v ws)
  then show ?case by (simp add: strings_Split_append)
qed

lemma set_strings_Join [byte_pres]:
  "set (strings_Join ws sep) \<subseteq> (\<Union>w \<in> set ws. set w) \<union> set sep"
  by (induction ws rule: induct_list012) auto

section \<open>Generic interfaces\<close>

text \<open>
  A codec: what is encoded is decoded again on the values it is meant for. The base-10
  integers, the UTF-8 runes and the base64 cookie values of the program are such codecs.
\<close>

locale codec =
  fixes enc :: "'a \<Rightarrow> 'b" and dec :: "'b \<Rightarrow> 'a option" and dom_ok :: "'a \<Rightarrow> bool"
  assumes dec_enc: "dom_ok x \<Longrightarrow> dec (enc x) = Some x"
begin

lemma enc_inj: "dom_ok x \<Longrightarrow> dom_ok y \<Longrightarrow> enc x = enc y \<Longrightarrow> x = y"
  by (metis dec_enc option.inject)

lemma enc_inj_on: "inj_on enc {x. dom_ok x}"
  by (rule inj_onI) (auto intro: enc_inj)

lemma dec_of_enc_unique: "dom_ok x \<Longrightarrow> dec (enc x) = Some y \<longleftrightarrow> y = x"
  by (auto simp: dec_enc)

end

text \<open>
  A normaliser: applying it twice is applying it once. Its fixed points are exactly its
  results, so a value read back after normalisation compares equal to what was stored.
\<close>

locale normaliser =
  fixes nf :: "'a \<Rightarrow> 'a"
  assumes nf_idem: "nf (nf x) = nf x"
begin

lemma fixed_iff_range: "nf x = x \<longleftrightarrow> x \<in> range nf"
  by (metis nf_idem rangeE rangeI)

lemma nf_eq_trans: "nf x = nf y \<Longrightarrow> nf (nf x) = nf y"
  by (simp add: nf_idem)

lemma nf_funpow: "(nf ^^ Suc n) x = nf x"
  by (induction n) (simp_all add: nf_idem)

end

end
