(* ===== verification/Utf8.thy ===== *)
theory Utf8
  imports Prelude
begin

text \<open>
  Go's UTF-8 decoding and the functions of \<^verbatim>\<open>strings\<close> and \<^verbatim>\<open>unicode\<close> that work on runes:
  \<^verbatim>\<open>utf8.DecodeRuneInString\<close>, \<^verbatim>\<open>utf8.EncodeRune\<close>, the \<^verbatim>\<open>range\<close> loop over a string,
  \<^verbatim>\<open>strings.ToLower\<close>, \<^verbatim>\<open>strings.TrimSpace\<close> and \<^verbatim>\<open>strings.Fields\<close>. The case tables of Unicode
  are generated data and a parameter (record \<open>utab\<close>); the ASCII part is written out.
\<close>

type_synonym rune = nat

definition RuneError :: rune where
  "RuneError = 0xFFFD"

section \<open>Encoding and decoding one rune\<close>

definition cont :: "char \<Rightarrow> bool" where
  "cont c \<longleftrightarrow> 0x80 \<le> byte c \<and> byte c \<le> 0xBF"

definition surrogate :: "rune \<Rightarrow> bool" where
  "surrogate r \<longleftrightarrow> 0xD800 \<le> r \<and> r \<le> 0xDFFF"

definition utf8_ValidRune :: "rune \<Rightarrow> bool" where
  "utf8_ValidRune r \<longleftrightarrow> r \<le> 0x10FFFF \<and> \<not> surrogate r"

definition enc2 :: "rune \<Rightarrow> bytes" where
  "enc2 r = [char_of (0xC0 + r div 64), char_of (0x80 + r mod 64)]"

definition enc3 :: "rune \<Rightarrow> bytes" where
  "enc3 r = [char_of (0xE0 + r div 4096), char_of (0x80 + r div 64 mod 64), char_of (0x80 + r mod 64)]"

definition enc4 :: "rune \<Rightarrow> bytes" where
  "enc4 r = [char_of (0xF0 + r div 262144), char_of (0x80 + r div 4096 mod 64),
             char_of (0x80 + r div 64 mod 64), char_of (0x80 + r mod 64)]"

text \<open>\<^verbatim>\<open>strings.Builder.WriteRune\<close> / \<^verbatim>\<open>utf8.AppendRune\<close>: an invalid rune is written as U+FFFD.\<close>

definition encode_rune :: "rune \<Rightarrow> bytes" where
  "encode_rune r =
     (if r < 0x80 then [char_of r]
      else if r < 0x800 then enc2 r
      else if \<not> utf8_ValidRune r then enc3 RuneError
      else if r < 0x10000 then enc3 r
      else enc4 r)"

text \<open>
  \<^verbatim>\<open>utf8.DecodeRuneInString\<close>: the rune and its width in bytes. The second byte's range depends
  on the first (no overlong forms, no surrogates, nothing above U+10FFFF); anything else is
  \<open>RuneError\<close> of width 1. The empty string decodes to \<open>(RuneError, 0)\<close>.
\<close>

definition second_ok :: "nat \<Rightarrow> char \<Rightarrow> bool" where
  "second_ok b c \<longleftrightarrow>
     (if b = 0xE0 then 0xA0 \<le> byte c \<and> byte c \<le> 0xBF
      else if b = 0xED then 0x80 \<le> byte c \<and> byte c \<le> 0x9F
      else if b = 0xF0 then 0x90 \<le> byte c \<and> byte c \<le> 0xBF
      else if b = 0xF4 then 0x80 \<le> byte c \<and> byte c \<le> 0x8F
      else cont c)"

definition decode2 :: "char \<Rightarrow> bytes \<Rightarrow> (rune \<times> nat) option" where
  "decode2 c t =
     (case t of
        c1 # _ \<Rightarrow> if cont c1 then Some ((byte c - 0xC0) * 64 + (byte c1 - 0x80), 2) else None
      | [] \<Rightarrow> None)"

definition decode3 :: "char \<Rightarrow> bytes \<Rightarrow> (rune \<times> nat) option" where
  "decode3 c t =
     (case t of
        c1 # c2 # _ \<Rightarrow>
          if second_ok (byte c) c1 \<and> cont c2
          then Some ((byte c - 0xE0) * 4096 + (byte c1 - 0x80) * 64 + (byte c2 - 0x80), 3) else None
      | _ \<Rightarrow> None)"

definition decode4 :: "char \<Rightarrow> bytes \<Rightarrow> (rune \<times> nat) option" where
  "decode4 c t =
     (case t of
        c1 # c2 # c3 # _ \<Rightarrow>
          if second_ok (byte c) c1 \<and> cont c2 \<and> cont c3
          then Some ((byte c - 0xF0) * 262144 + (byte c1 - 0x80) * 4096
                       + (byte c2 - 0x80) * 64 + (byte c3 - 0x80), 4) else None
      | _ \<Rightarrow> None)"

definition decode_multi :: "char \<Rightarrow> bytes \<Rightarrow> (rune \<times> nat) option" where
  "decode_multi c t =
     (if 0xC2 \<le> byte c \<and> byte c \<le> 0xDF then decode2 c t
      else if 0xE0 \<le> byte c \<and> byte c \<le> 0xEF then decode3 c t
      else if 0xF0 \<le> byte c \<and> byte c \<le> 0xF4 then decode4 c t
      else None)"

fun decode_rune :: "bytes \<Rightarrow> rune \<times> nat" where
  "decode_rune [] = (RuneError, 0)"
| "decode_rune (c # t) =
     (if byte c < 0x80 then (byte c, 1)
      else case decode_multi c t of Some p \<Rightarrow> p | None \<Rightarrow> (RuneError, 1))"

lemmas decode_defs = decode_multi_def decode2_def decode3_def decode4_def

lemma decode_multi_width:
  "decode_multi c t = Some (r, w) \<Longrightarrow> 2 \<le> w \<and> w \<le> Suc (length t)"
  by (auto simp: decode_defs split: if_splits list.splits)

lemma decode_rune_width:
  "decode_rune (c # t) = (r, w) \<Longrightarrow> 1 \<le> w \<and> w \<le> length (c # t)"
  by (auto split: if_splits option.splits dest!: decode_multi_width)

lemma decode_multi_nonascii: "decode_multi c t = Some (r, w) \<Longrightarrow> 0x80 \<le> r"
  by (auto simp: decode_defs second_ok_def cont_def split: if_splits list.splits)

lemma decode_rune_ascii: "byte c < 0x80 \<Longrightarrow> decode_rune (c # t) = (byte c, 1)"
  by simp

lemma decode_rune_nonascii:
  "0x80 \<le> byte c \<Longrightarrow> 0x80 \<le> fst (decode_rune (c # t))"
  by (auto simp: RuneError_def split: option.splits dest!: decode_multi_nonascii)

subsection \<open>Every valid rune is decoded from its encoding\<close>

lemma decode_enc2:
  assumes "0x80 \<le> r" and "r < 0x800"
  shows "decode_rune (enc2 r @ t) = (r, 2)"
proof -
  have "2 \<le> r div 64" and "r div 64 < 32" using assms by auto
  moreover have "r div 64 * 64 + r mod 64 = r" by simp
  moreover have "r mod 64 < 64" by simp
  ultimately show ?thesis
    by (simp add: enc2_def decode_multi_def decode2_def cont_def)
qed

lemma decode_enc3:
  assumes "0x800 \<le> r" and "r < 0x10000" and "\<not> surrogate r"
  shows "decode_rune (enc3 r @ t) = (r, 3)"
proof -
  define a where "a = r div 4096"
  define b where "b = r div 64 mod 64"
  define c where "c = r mod 64"
  have "a = r div 64 div 64" by (simp add: a_def flip: div_mult2_eq)
  then have r: "a * 4096 + b * 64 + c = r"
    using div_mult_mod_eq [of r 64] div_mult_mod_eq [of "r div 64" 64]
    unfolding b_def c_def by linarith
  have lt: "a < 16" "b < 64" "c < 64" using assms(2) unfolding a_def b_def c_def by auto
  have lo: "a = 0 \<Longrightarrow> 32 \<le> b" and hi: "a = 13 \<Longrightarrow> b < 32"
    using r lt assms by (auto simp: surrogate_def)
  have "second_ok (0xE0 + a) (char_of (0x80 + b))"
    using lo hi lt by (auto simp: second_ok_def cont_def)
  with r lt show ?thesis
    by (simp add: enc3_def decode_multi_def decode3_def cont_def flip: a_def b_def c_def)
qed

lemma decode_enc4:
  assumes "0x10000 \<le> r" and "r \<le> 0x10FFFF"
  shows "decode_rune (enc4 r @ t) = (r, 4)"
proof -
  define a where "a = r div 262144"
  define b where "b = r div 4096 mod 64"
  define c where "c = r div 64 mod 64"
  define d where "d = r mod 64"
  have "a = r div 64 div 64 div 64" by (simp add: a_def flip: div_mult2_eq)
  moreover have "b = r div 64 div 64 mod 64" by (simp add: b_def flip: div_mult2_eq)
  ultimately have r: "a * 262144 + b * 4096 + c * 64 + d = r"
    using div_mult_mod_eq [of r 64] div_mult_mod_eq [of "r div 64" 64]
      div_mult_mod_eq [of "r div 64 div 64" 64]
    unfolding c_def d_def by linarith
  have lt: "a \<le> 4" "b < 64" "c < 64" "d < 64"
    using assms(2) unfolding a_def b_def c_def d_def by auto
  have lo: "a = 0 \<Longrightarrow> 16 \<le> b" and hi: "a = 4 \<Longrightarrow> b < 16"
    using r lt assms by auto
  have "second_ok (0xF0 + a) (char_of (0x80 + b))"
    using lo hi lt by (auto simp: second_ok_def cont_def)
  with r lt show ?thesis
    by (simp add: enc4_def decode_multi_def decode4_def cont_def flip: a_def b_def c_def d_def)
qed

lemma encode_rune_length: "1 \<le> length (encode_rune r) \<and> length (encode_rune r) \<le> 4"
  by (simp add: encode_rune_def enc2_def enc3_def enc4_def)

lemma decode_encode_rune:
  assumes "utf8_ValidRune r"
  shows "decode_rune (encode_rune r @ t) = (r, length (encode_rune r))"
proof -
  consider "r < 0x80" | "0x80 \<le> r" "r < 0x800" | "0x800 \<le> r" "r < 0x10000" | "0x10000 \<le> r"
    by linarith
  then show ?thesis
  proof cases
    case 1
    then show ?thesis by (simp add: encode_rune_def)
  next
    case 2
    with decode_enc2 [of r t] show ?thesis by (simp add: encode_rune_def enc2_def)
  next
    case 3
    with assms decode_enc3 [of r t] show ?thesis
      by (simp add: encode_rune_def utf8_ValidRune_def enc3_def)
  next
    case 4
    with assms decode_enc4 [of r t] show ?thesis
      by (simp add: encode_rune_def utf8_ValidRune_def enc4_def)
  qed
qed

subsection \<open>Decoding depends only on the bytes it consumes\<close>

lemma decode_multi_valid: "decode_multi c t = Some (r, w) \<Longrightarrow> utf8_ValidRune r"
  by (auto simp: decode_defs second_ok_def cont_def utf8_ValidRune_def surrogate_def
      split: if_splits list.splits)

lemma decode_rune_valid: "decode_rune s = (r, w) \<Longrightarrow> utf8_ValidRune r"
  by (cases s) (auto simp: RuneError_def utf8_ValidRune_def surrogate_def
      split: if_splits option.splits dest: decode_multi_valid)

text \<open>An ASCII byte is never part of a multi-byte sequence.\<close>

lemma decode_multi_ascii_cut:
  assumes "byte a < 0x80"
  shows "decode_multi c (t @ a # b) = decode_multi c t"
proof -
  have na: "\<not> cont a" and ns: "\<And>x. \<not> second_ok x a"
    using assms by (auto simp: cont_def second_ok_def)
  consider "t = []" | c1 where "t = [c1]" | c1 c2 where "t = [c1, c2]" | c1 c2 c3 t' where "t = c1 # c2 # c3 # t'"
    by (metis list.exhaust)
  then show ?thesis
    by cases (use na ns in \<open>auto simp: decode_defs split: list.splits\<close>)
qed

lemma decode_rune_ascii_cut:
  "s \<noteq> [] \<Longrightarrow> byte a < 0x80 \<Longrightarrow> decode_rune (s @ a # b) = decode_rune s"
  by (cases s) (simp_all add: decode_multi_ascii_cut)

text \<open>Cutting the string behind the decoded rune does not change the rune.\<close>

lemma decode_multi_take:
  assumes "decode_multi c (t @ u) = Some (r, w)" and "w \<le> Suc (length t)"
  shows "decode_multi c t = Some (r, w)"
proof -
  consider "t = []" | c1 where "t = [c1]" | c1 c2 where "t = [c1, c2]" | c1 c2 c3 t' where "t = c1 # c2 # c3 # t'"
    by (metis list.exhaust)
  then show ?thesis
    by cases (use assms in \<open>auto simp: decode_defs split: if_splits list.splits\<close>)
qed

lemma decode_multi_prefix_None: "decode_multi c (t @ u) = None \<Longrightarrow> decode_multi c t = None"
proof -
  assume N: "decode_multi c (t @ u) = None"
  consider "t = []" | c1 where "t = [c1]" | c1 c2 where "t = [c1, c2]" | c1 c2 c3 t' where "t = c1 # c2 # c3 # t'"
    by (metis list.exhaust)
  then show ?thesis
    by cases (use N in \<open>auto simp: decode_defs split: if_splits\<close>)
qed

lemma decode_rune_take:
  "decode_rune (s @ u) = (r, w) \<Longrightarrow> s \<noteq> [] \<Longrightarrow> w \<le> length s \<Longrightarrow> decode_rune s = (r, w)"
  by (cases s) (auto split: if_splits option.splits
      dest: decode_multi_prefix_None decode_multi_take)

section \<open>The range loop\<close>

text \<open>
  \<^verbatim>\<open>for _, r := range s\<close>: the runes of a string in order, each with the bytes it was decoded
  from.
\<close>

function runes :: "bytes \<Rightarrow> (rune \<times> bytes) list" where
  "runes [] = []"
| "runes (c # t) =
     (case decode_rune (c # t) of
        (r, w) \<Rightarrow> (r, take w (c # t)) # runes (drop w (c # t)))"
  by pat_completeness auto
termination
  by (relation "measure length") (auto dest!: decode_rune_width [OF sym] simp del: decode_rune.simps)

lemma runes_Cons:
  "decode_rune (c # t) = (r, w) \<Longrightarrow> runes (c # t) = (r, take w (c # t)) # runes (drop w (c # t))"
  by (simp del: decode_rune.simps)

declare runes.simps(2) [simp del]

lemma runes_step:
  "s \<noteq> [] \<Longrightarrow> decode_rune s = (r, w) \<Longrightarrow> runes s = (r, take w s) # runes (drop w s)"
  by (cases s) (simp_all add: runes_Cons del: decode_rune.simps)

lemma runes_eq_Nil_iff [simp]: "runes s = [] \<longleftrightarrow> s = []"
  by (cases s) (auto simp: runes.simps split: prod.splits)

lemma runes_induct [case_names Nil step]:
  assumes "P []"
    and "\<And>s r w. s \<noteq> [] \<Longrightarrow> decode_rune s = (r, w) \<Longrightarrow> 1 \<le> w \<Longrightarrow> w \<le> length s \<Longrightarrow>
           P (drop w s) \<Longrightarrow> P s"
  shows "P s"
proof (induction s rule: length_induct)
  case (1 s)
  show ?case
  proof (cases s)
    case Nil
    then show ?thesis using assms(1) by simp
  next
    case (Cons c t)
    obtain r w where d: "decode_rune s = (r, w)" by fastforce
    with Cons have w: "1 \<le> w" "w \<le> length s" using decode_rune_width by (blast)+
    have "P (drop w s)" using w Cons by (intro 1 [rule_format]) simp
    with assms(2) Cons d w show ?thesis by simp
  qed
qed

lemma concat_runes [simp]: "concat (map snd (runes s)) = s"
  by (induction s rule: runes_induct) (simp_all add: runes_step)

lemma runes_ascii_head: "byte c < 0x80 \<Longrightarrow> runes (c # t) = (byte c, [c]) # runes t"
  by (simp add: runes_Cons)

lemma runes_valid: "(r, ch) \<in> set (runes s) \<Longrightarrow> utf8_ValidRune r"
  by (induction s rule: runes_induct) (auto simp: runes_step dest: decode_rune_valid)

lemma runes_fst_valid: "p \<in> set (runes s) \<Longrightarrow> utf8_ValidRune (fst p)"
  by (cases p) (auto intro: runes_valid)

text \<open>An ASCII rune stands for its own byte; any other rune for bytes outside ASCII.\<close>

lemma decode_rune_chunk:
  assumes "s \<noteq> []" and "decode_rune s = (r, w)"
  shows "(\<exists>c. byte c < 0x80 \<and> r = byte c \<and> take w s = [c])
       \<or> (0x80 \<le> r \<and> (\<forall>c \<in> set (take w s). 0x80 \<le> byte c))"
proof (cases s)
  case Nil
  with assms show ?thesis by simp
next
  case (Cons c t)
  show ?thesis
  proof (cases "byte c < 0x80")
    case True
    with Cons assms show ?thesis by auto
  next
    case False
    then have "0x80 \<le> r" using decode_rune_nonascii [of c t] assms Cons by simp
    moreover have "\<forall>x \<in> set (take w s). 0x80 \<le> byte x"
    proof (rule ccontr)
      assume "\<not> ?thesis"
      then obtain x where x: "x \<in> set (take w s)" "byte x < 0x80" by auto
      then obtain p q where pq: "take w s = p @ x # q" by (auto simp: in_set_conv_decomp)
      with False Cons x have "p \<noteq> []" by (cases w; cases p) auto
      have "s = p @ x # (q @ drop w s)" using pq by (metis append.assoc append_Cons append_take_drop_id)
      then have "decode_rune s = decode_rune p"
        using decode_rune_ascii_cut [OF \<open>p \<noteq> []\<close> x(2)] by metis
      then have "w \<le> length p" using assms \<open>p \<noteq> []\<close> decode_rune_width
        by (metis list.exhaust)
      then have "length (take w s) \<le> length p" by simp
      then show False using pq by simp
    qed
    ultimately show ?thesis by simp
  qed
qed

lemma runes_chunk:
  "(r, ch) \<in> set (runes s) \<Longrightarrow>
     (\<exists>c. byte c < 0x80 \<and> r = byte c \<and> ch = [c]) \<or> (0x80 \<le> r \<and> (\<forall>c \<in> set ch. 0x80 \<le> byte c))"
  by (induction s rule: runes_induct) (auto simp: runes_step dest: decode_rune_chunk)

lemma ascii_byte_rune_iff:
  assumes "byte c < 0x80"
  shows "c \<in> set s \<longleftrightarrow> byte c \<in> fst ` set (runes s)"
proof
  assume "c \<in> set s"
  then have "c \<in> set (concat (map snd (runes s)))" by simp
  then obtain r ch where rc: "(r, ch) \<in> set (runes s)" "c \<in> set ch"
    by (auto simp del: concat_runes)
  with assms runes_chunk [OF rc(1)] have "r = byte c" by fastforce
  with rc show "byte c \<in> fst ` set (runes s)" by force
next
  assume "byte c \<in> fst ` set (runes s)"
  then obtain ch where rc: "(byte c, ch) \<in> set (runes s)" by auto
  with assms runes_chunk [OF rc] have "ch = [c]" by fastforce
  with rc have "c \<in> set (concat (map snd (runes s)))"
    by (force simp del: concat_runes)
  then show "c \<in> set s" by simp
qed

lemma runes_append_ascii:
  "byte a < 0x80 \<Longrightarrow> runes (s @ a # b) = runes s @ runes (a # b)"
proof (induction s rule: runes_induct)
  case Nil
  then show ?case by simp
next
  case (step s r w)
  then have "decode_rune (s @ a # b) = (r, w)" by (simp add: decode_rune_ascii_cut)
  with step show ?case by (simp add: runes_step)
qed

lemma runes_ascii: "\<forall>c \<in> set s. byte c < 0x80 \<Longrightarrow> runes s = map (\<lambda>c. (byte c, [c])) s"
  by (induction s) (simp_all add: runes_ascii_head)

lemma runes_encode: "utf8_ValidRune r \<Longrightarrow> runes (encode_rune r @ t) = (r, encode_rune r) # runes t"
  using encode_rune_length [of r]
  by (subst runes_step [OF _ decode_encode_rune]) auto

lemma runes_encode_all:
  "\<forall>r \<in> set rs. utf8_ValidRune r \<Longrightarrow>
     runes (concat (map encode_rune rs)) = map (\<lambda>r. (r, encode_rune r)) rs"
  by (induction rs) (simp_all add: runes_encode)

text \<open>The rune list of any contiguous part that starts and ends at rune borders.\<close>

lemma runes_suffix: "runes s = xs @ ys \<Longrightarrow> runes (concat (map snd ys)) = ys"
proof (induction xs arbitrary: s)
  case Nil
  then show ?case using concat_runes [of s] by simp
next
  case (Cons x xs)
  then have ne: "s \<noteq> []" by auto
  obtain r w where "decode_rune s = (r, w)" by fastforce
  with ne Cons.prems have "runes (drop w s) = xs @ ys" by (simp add: runes_step)
  then show ?case by (rule Cons.IH)
qed

lemma runes_prefix: "runes s = xs @ ys \<Longrightarrow> runes (concat (map snd xs)) = xs"
proof (induction xs arbitrary: s)
  case Nil
  then show ?case by simp
next
  case (Cons x xs)
  then have ne: "s \<noteq> []" by auto
  obtain r w where d: "decode_rune s = (r, w)" by fastforce
  with ne Cons.prems have x: "x = (r, take w s)" and tail: "runes (drop w s) = xs @ ys"
    by (simp_all add: runes_step)
  have w: "1 \<le> w" "w \<le> length s" using d ne decode_rune_width by (metis list.exhaust)+
  define p where "p = take w s @ concat (map snd xs)"
  have "drop w s = concat (map snd xs) @ concat (map snd ys)"
    using arg_cong [OF tail, of "\<lambda>z. concat (map snd z)"] by simp
  then have "s = p @ concat (map snd ys)"
    unfolding p_def by (metis append.assoc append_take_drop_id)
  then have dp: "decode_rune (p @ concat (map snd ys)) = (r, w)" using d by metis
  have pne: "p \<noteq> []" and wp: "w \<le> length p" using w ne by (auto simp: p_def)
  from dp pne wp have "decode_rune p = (r, w)" by (rule decode_rune_take)
  moreover note pne
  moreover have "take w p = take w s" "drop w p = concat (map snd xs)" using w by (simp_all add: p_def)
  ultimately have "runes p = x # runes (concat (map snd xs))" using x by (simp add: runes_step)
  with Cons.IH [OF tail] show ?case by (simp add: p_def x)
qed

end
