(* ===== verification/GoStrings.thy ===== *)
theory GoStrings
  imports Utf8
begin

text \<open>
  The functions of Go's \<^verbatim>\<open>strings\<close> and \<^verbatim>\<open>unicode\<close> packages that work rune by rune:
  \<^verbatim>\<open>strings.Map\<close>, \<^verbatim>\<open>strings.ToLower\<close>, \<^verbatim>\<open>strings.TrimSpace\<close>, \<^verbatim>\<open>strings.Fields\<close>. The Unicode case
  tables are the record \<open>utab\<close>, used for runes outside ASCII only; \<open>utab_ok\<close> collects what the
  program relies on of those tables.
\<close>

record utab =
  lower_of :: "rune \<Rightarrow> rune"
  upper_of :: "rune \<Rightarrow> rune"
  print_of :: "rune \<Rightarrow> bool"

definition unicode_IsSpace :: "rune \<Rightarrow> bool" where
  "unicode_IsSpace r \<longleftrightarrow>
     (9 \<le> r \<and> r \<le> 13) \<or> r = 0x20 \<or> r = 0x85 \<or> r = 0xA0 \<or> r = 0x1680
     \<or> (0x2000 \<le> r \<and> r \<le> 0x200A) \<or> r = 0x2028 \<or> r = 0x2029 \<or> r = 0x202F \<or> r = 0x205F
     \<or> r = 0x3000"

definition ascii_lower :: "char \<Rightarrow> char" where
  "ascii_lower c = (if 65 \<le> byte c \<and> byte c \<le> 90 then char_of (byte c + 32) else c)"

definition unicode_ToLower :: "utab \<Rightarrow> rune \<Rightarrow> rune" where
  "unicode_ToLower T r =
     (if r < 0x80 then (if 65 \<le> r \<and> r \<le> 90 then r + 32 else r) else lower_of T r)"

definition unicode_ToUpper :: "utab \<Rightarrow> rune \<Rightarrow> rune" where
  "unicode_ToUpper T r =
     (if r < 0x80 then (if 97 \<le> r \<and> r \<le> 122 then r - 32 else r) else upper_of T r)"

text \<open>
  What is relied on of the lower-case table outside ASCII: it maps runes to runes, a lower-cased
  rune is a fixed point, white space stays white space and nothing else becomes it, and the only
  ASCII values it takes are lower-case letters (U+0130 and U+212A are the two such runes).
\<close>

definition utab_ok :: "utab \<Rightarrow> bool" where
  "utab_ok T \<longleftrightarrow>
     (\<forall>r \<ge> 0x80. utf8_ValidRune r \<longrightarrow>
        utf8_ValidRune (lower_of T r)
        \<and> unicode_ToLower T (lower_of T r) = lower_of T r
        \<and> (unicode_IsSpace (lower_of T r) \<longleftrightarrow> unicode_IsSpace r)
        \<and> (0x80 \<le> lower_of T r \<or> 97 \<le> lower_of T r \<and> lower_of T r \<le> 122))"

lemma utab_okD:
  assumes "utab_ok T" and "0x80 \<le> r" and "utf8_ValidRune r"
  shows "utf8_ValidRune (lower_of T r)"
    and "unicode_ToLower T (lower_of T r) = lower_of T r"
    and "unicode_IsSpace (lower_of T r) \<longleftrightarrow> unicode_IsSpace r"
    and "0x80 \<le> lower_of T r \<or> 97 \<le> lower_of T r \<and> lower_of T r \<le> 122"
  using assms by (simp_all add: utab_ok_def)

text \<open>A table that leaves every rune outside ASCII alone (used in concrete instances).\<close>

definition ascii_utab :: utab where
  "ascii_utab = \<lparr>lower_of = id, upper_of = id, print_of = (\<lambda>_. True)\<rparr>"

lemma utab_ok_ascii_utab [simp]: "utab_ok ascii_utab"
  by (simp add: utab_ok_def ascii_utab_def unicode_ToLower_def)

section \<open>strings.Map and strings.ToLower\<close>

definition strings_Map :: "(rune \<Rightarrow> rune) \<Rightarrow> bytes \<Rightarrow> bytes" where
  "strings_Map f s = concat (map (encode_rune \<circ> f \<circ> fst) (runes s))"

definition is_ascii :: "bytes \<Rightarrow> bool" where
  "is_ascii s \<longleftrightarrow> list_all (\<lambda>c. byte c < 0x80) s"

definition strings_ToLower :: "utab \<Rightarrow> bytes \<Rightarrow> bytes" where
  "strings_ToLower T s =
     (if is_ascii s then map ascii_lower s else strings_Map (unicode_ToLower T) s)"

lemma encode_ascii_lower: "byte c < 0x80 \<Longrightarrow> encode_rune (unicode_ToLower T (byte c)) = [ascii_lower c]"
  by (auto simp: unicode_ToLower_def ascii_lower_def encode_rune_def)

text \<open>The ASCII fast path computes what the general path would.\<close>

lemma strings_ToLower_eq_Map: "strings_ToLower T s = strings_Map (unicode_ToLower T) s"
proof (cases "is_ascii s")
  case True
  then have a: "\<forall>c \<in> set s. byte c < 0x80" by (simp add: is_ascii_def list_all_iff)
  have "concat (map (\<lambda>c. encode_rune (unicode_ToLower T (byte c))) s) = map ascii_lower s"
    using a by (induction s) (simp_all add: encode_ascii_lower)
  with True a show ?thesis
    by (simp add: strings_ToLower_def strings_Map_def runes_ascii o_def)
next
  case False
  then show ?thesis by (simp add: strings_ToLower_def)
qed

lemma strings_ToLower_ascii: "is_ascii s \<Longrightarrow> strings_ToLower T s = map ascii_lower s"
  by (simp add: strings_ToLower_def)

lemma strings_ToLower_Nil [simp]: "strings_ToLower T [] = []"
  by (simp add: strings_ToLower_def is_ascii_def)

lemma strings_Map_eq_Nil_iff [simp]: "strings_Map f s = [] \<longleftrightarrow> s = []"
proof -
  have "encode_rune r \<noteq> []" for r using encode_rune_length [of r] by auto
  then show ?thesis by (cases "runes s") (auto simp: strings_Map_def)
qed

lemma strings_ToLower_eq_Nil_iff [simp]: "strings_ToLower T s = [] \<longleftrightarrow> s = []"
  by (simp add: strings_ToLower_eq_Map)

lemma unicode_ToLower_valid:
  "utab_ok T \<Longrightarrow> utf8_ValidRune r \<Longrightarrow> utf8_ValidRune (unicode_ToLower T r)"
  using utab_okD(1) [of T r]
  by (auto simp: unicode_ToLower_def utf8_ValidRune_def surrogate_def)

lemma unicode_ToLower_idem:
  "utab_ok T \<Longrightarrow> utf8_ValidRune r \<Longrightarrow> unicode_ToLower T (unicode_ToLower T r) = unicode_ToLower T r"
  using utab_okD(2) [of T r] by (cases "r < 0x80") (auto simp: unicode_ToLower_def)

lemma unicode_IsSpace_ToLower:
  "utab_ok T \<Longrightarrow> utf8_ValidRune r \<Longrightarrow> unicode_IsSpace (unicode_ToLower T r) = unicode_IsSpace r"
  using utab_okD(3) [of T r] by (cases "r < 0x80") (auto simp: unicode_ToLower_def unicode_IsSpace_def)

lemma runes_ToLower:
  assumes "utab_ok T"
  shows "runes (strings_ToLower T s) =
           map (\<lambda>r. (r, encode_rune r)) (map (unicode_ToLower T \<circ> fst) (runes s))"
proof -
  have "concat (map (encode_rune \<circ> unicode_ToLower T \<circ> fst) (runes s))
          = concat (map encode_rune (map (unicode_ToLower T \<circ> fst) (runes s)))"
    by (simp add: o_assoc)
  moreover have "\<forall>r \<in> set (map (unicode_ToLower T \<circ> fst) (runes s)). utf8_ValidRune r"
    using assms by (auto intro: unicode_ToLower_valid dest: runes_fst_valid)
  ultimately show ?thesis
    unfolding strings_ToLower_eq_Map strings_Map_def by (simp only: runes_encode_all)
qed

lemma strings_ToLower_idem:
  assumes "utab_ok T"
  shows "strings_ToLower T (strings_ToLower T s) = strings_ToLower T s"
proof -
  have "unicode_ToLower T (unicode_ToLower T (fst p)) = unicode_ToLower T (fst p)"
    if "p \<in> set (runes s)" for p
    using that unicode_ToLower_idem [OF assms] runes_fst_valid by blast
  then have "map (encode_rune \<circ> unicode_ToLower T \<circ> fst) (runes (strings_ToLower T s))
          = map (encode_rune \<circ> unicode_ToLower T \<circ> fst) (runes s)"
    unfolding runes_ToLower [OF assms] by simp
  then show ?thesis by (simp add: strings_ToLower_eq_Map strings_Map_def)
qed

text \<open>Bytes of ASCII that are no letters are neither lost nor made by lower-casing.\<close>

definition caseless :: "char \<Rightarrow> bool" where
  "caseless c \<longleftrightarrow> byte c < 0x80 \<and> \<not> (65 \<le> byte c \<and> byte c \<le> 90) \<and> \<not> (97 \<le> byte c \<and> byte c \<le> 122)"

lemma unicode_ToLower_caseless:
  "utab_ok T \<Longrightarrow> utf8_ValidRune r \<Longrightarrow> caseless c \<Longrightarrow> unicode_ToLower T r = byte c \<longleftrightarrow> r = byte c"
  using utab_okD(4) [of T r] by (cases "r < 0x80") (auto simp: unicode_ToLower_def caseless_def)

lemma ToLower_caseless [byte_pres]:
  assumes "utab_ok T" and "caseless c"
  shows "c \<in> set (strings_ToLower T s) \<longleftrightarrow> c \<in> set s"
proof -
  have "c \<in> set (strings_ToLower T s) \<longleftrightarrow> byte c \<in> fst ` set (runes (strings_ToLower T s))"
    using assms(2) by (intro ascii_byte_rune_iff) (simp add: caseless_def)
  also have "\<dots> \<longleftrightarrow> (\<exists>p \<in> set (runes s). unicode_ToLower T (fst p) = byte c)"
    unfolding runes_ToLower [OF assms(1)] by (simp add: image_image image_iff eq_commute)
  also have "\<dots> \<longleftrightarrow> (\<exists>p \<in> set (runes s). fst p = byte c)"
    using unicode_ToLower_caseless [OF assms(1) _ assms(2)] runes_fst_valid by blast
  also have "\<dots> \<longleftrightarrow> byte c \<in> fst ` set (runes s)" by force
  also have "\<dots> \<longleftrightarrow> c \<in> set s"
    using assms(2) by (intro ascii_byte_rune_iff [symmetric]) (simp add: caseless_def)
  finally show ?thesis .
qed

section \<open>strings.TrimSpace\<close>

definition trim_by :: "('a \<Rightarrow> bool) \<Rightarrow> 'a list \<Rightarrow> 'a list" where
  "trim_by p xs = rev (dropWhile p (rev (dropWhile p xs)))"

definition strings_TrimSpace :: "bytes \<Rightarrow> bytes" where
  "strings_TrimSpace s = concat (map snd (trim_by (unicode_IsSpace \<circ> fst) (runes s)))"

lemma trim_by_decomp:
  obtains a b where "xs = a @ trim_by p xs @ b" and "\<forall>x \<in> set a \<union> set b. p x"
proof -
  let ?y = "dropWhile p xs"
  have "xs = takeWhile p xs @ ?y" by simp
  moreover have "?y = trim_by p xs @ rev (takeWhile p (rev ?y))"
    unfolding trim_by_def by (metis rev_append rev_rev_ident takeWhile_dropWhile_id)
  ultimately have "xs = takeWhile p xs @ trim_by p xs @ rev (takeWhile p (rev ?y))" by metis
  moreover have "\<forall>x \<in> set (takeWhile p xs) \<union> set (rev (takeWhile p (rev ?y))). p x"
    by (auto dest: set_takeWhileD)
  ultimately show ?thesis by (rule that)
qed

lemma trim_by_ends:
  "trim_by p xs \<noteq> [] \<Longrightarrow> \<not> p (hd (trim_by p xs)) \<and> \<not> p (last (trim_by p xs))"
proof -
  let ?y = "dropWhile p xs"
  assume ne: "trim_by p xs \<noteq> []"
  then have r: "dropWhile p (rev ?y) \<noteq> []" by (simp add: trim_by_def)
  then have "\<not> p (hd (dropWhile p (rev ?y)))" by (rule hd_dropWhile)
  then have l: "\<not> p (last (trim_by p xs))" using r by (simp add: trim_by_def last_rev)
  have yne: "?y \<noteq> []" using r by (metis dropWhile.simps(1) rev.simps(1))
  have "hd (trim_by p xs) = hd ?y"
    unfolding trim_by_def using r
    by (metis hd_append2 rev_append rev_is_Nil_conv rev_rev_ident takeWhile_dropWhile_id)
  then show ?thesis using l hd_dropWhile [OF yne] by simp
qed

lemma trim_by_id: "xs = [] \<or> \<not> p (hd xs) \<and> \<not> p (last xs) \<Longrightarrow> trim_by p xs = xs"
proof (cases xs)
  case Nil
  then show ?thesis by (simp add: trim_by_def)
next
  case (Cons x ys)
  assume "xs = [] \<or> \<not> p (hd xs) \<and> \<not> p (last xs)"
  with Cons have "\<not> p x" and "\<not> p (hd (rev xs))" by (simp_all add: hd_rev del: rev.simps)
  moreover have "rev xs \<noteq> []" using Cons by simp
  ultimately have "dropWhile p (rev xs) = rev xs" by (metis dropWhile_eq_self_iff)
  with Cons \<open>\<not> p x\<close> show ?thesis by (simp add: trim_by_def)
qed

lemma trim_by_idem: "trim_by p (trim_by p xs) = trim_by p xs"
  by (rule trim_by_id) (use trim_by_ends in blast)

lemma trim_by_map: "trim_by p (map f xs) = map f (trim_by (p \<circ> f) xs)"
  by (simp add: trim_by_def dropWhile_map rev_map)

lemma trim_by_cong: "(\<And>x. x \<in> set xs \<Longrightarrow> p x = q x) \<Longrightarrow> trim_by p xs = trim_by q xs"
proof -
  assume pq: "\<And>x. x \<in> set xs \<Longrightarrow> p x = q x"
  then have "dropWhile p xs = dropWhile q xs" by (intro dropWhile_cong) auto
  moreover have "dropWhile p (rev (dropWhile q xs)) = dropWhile q (rev (dropWhile q xs))"
    using pq by (intro dropWhile_cong) (auto dest: set_dropWhileD)
  ultimately show ?thesis by (simp add: trim_by_def)
qed

lemma runes_TrimSpace: "runes (strings_TrimSpace s) = trim_by (unicode_IsSpace \<circ> fst) (runes s)"
proof -
  obtain a b where "runes s = a @ trim_by (unicode_IsSpace \<circ> fst) (runes s) @ b"
    by (rule trim_by_decomp)
  then have "runes (concat (map snd (trim_by (unicode_IsSpace \<circ> fst) (runes s) @ b)))
               = trim_by (unicode_IsSpace \<circ> fst) (runes s) @ b"
    by (rule runes_suffix)
  then show ?thesis unfolding strings_TrimSpace_def by (rule runes_prefix)
qed

lemma strings_TrimSpace_idem: "strings_TrimSpace (strings_TrimSpace s) = strings_TrimSpace s"
  unfolding strings_TrimSpace_def [of "strings_TrimSpace s"] runes_TrimSpace trim_by_idem
  by (simp add: strings_TrimSpace_def)

interpretation trim_space: normaliser strings_TrimSpace
  by unfold_locales (rule strings_TrimSpace_idem)

lemma strings_TrimSpace_subset [byte_pres]: "set (strings_TrimSpace s) \<subseteq> set s"
proof -
  obtain a b where "runes s = a @ trim_by (unicode_IsSpace \<circ> fst) (runes s) @ b"
    by (rule trim_by_decomp)
  then have "concat (map snd (runes s)) = concat (map snd a) @ strings_TrimSpace s @ concat (map snd b)"
    unfolding strings_TrimSpace_def by (metis concat_append map_append)
  then have "set s = set (concat (map snd a) @ strings_TrimSpace s @ concat (map snd b))"
    by (simp only: concat_runes)
  then show ?thesis by (simp only: set_append) blast
qed

text \<open>Trimming keeps every ASCII character that is not white space.\<close>

lemma TrimSpace_ascii:
  assumes "byte c < 0x80" and "\<not> unicode_IsSpace (byte c)"
  shows "c \<in> set (strings_TrimSpace s) \<longleftrightarrow> c \<in> set s"
proof -
  obtain a b where ab: "runes s = a @ trim_by (unicode_IsSpace \<circ> fst) (runes s) @ b"
    and sp: "\<forall>x \<in> set a \<union> set b. (unicode_IsSpace \<circ> fst) x" by (rule trim_by_decomp)
  have "byte c \<in> fst ` set (runes s) \<longleftrightarrow> byte c \<in> fst ` set (trim_by (unicode_IsSpace \<circ> fst) (runes s))"
    using sp assms(2) by (subst ab) force
  then show ?thesis using ascii_byte_rune_iff [OF assms(1)] by (simp add: runes_TrimSpace)
qed

lemma TrimSpace_nonspace [byte_pres]:
  assumes "byte c < 0x80" and "\<not> unicode_IsSpace (byte c)"
  shows "c \<in> set (strings_TrimSpace s) \<longleftrightarrow> c \<in> set s"
proof
  assume "c \<in> set (strings_TrimSpace s)"
  then show "c \<in> set s" using strings_TrimSpace_subset by blast
next
  assume "c \<in> set s"
  then obtain p where p: "p \<in> set (runes s)" "fst p = byte c"
    using ascii_byte_rune_iff [OF assms(1)] by force
  obtain a b where ab: "runes s = a @ trim_by (unicode_IsSpace \<circ> fst) (runes s) @ b"
    "\<forall>x \<in> set a \<union> set b. (unicode_IsSpace \<circ> fst) x"
    by (rule trim_by_decomp)
  have "p \<notin> set a \<union> set b" using ab(2) p(2) assms(2) by (metis comp_apply)
  moreover have "p \<in> set a \<union> set (trim_by (unicode_IsSpace \<circ> fst) (runes s)) \<union> set b"
    using p(1) ab(1) by (metis Un_iff set_append)
  ultimately have "p \<in> set (runes (strings_TrimSpace s))" by (simp add: runes_TrimSpace)
  then show "c \<in> set (strings_TrimSpace s)"
    using p(2) ascii_byte_rune_iff [OF assms(1)] by force
qed

text \<open>Trimming and lower-casing commute.\<close>

lemma TrimSpace_ToLower:
  assumes "utab_ok T"
  shows "strings_TrimSpace (strings_ToLower T s) = strings_ToLower T (strings_TrimSpace s)"
proof -
  let ?low = "\<lambda>p. (unicode_ToLower T (fst p), encode_rune (unicode_ToLower T (fst p)))"
  have "trim_by (unicode_IsSpace \<circ> fst) (map ?low (runes s))
          = map ?low (trim_by ((unicode_IsSpace \<circ> fst) \<circ> ?low) (runes s))"
    by (rule trim_by_map)
  also have "trim_by ((unicode_IsSpace \<circ> fst) \<circ> ?low) (runes s)
               = trim_by (unicode_IsSpace \<circ> fst) (runes s)"
    using unicode_IsSpace_ToLower [OF assms] by (intro trim_by_cong) (auto dest: runes_fst_valid)
  finally have eq: "trim_by (unicode_IsSpace \<circ> fst) (runes (strings_ToLower T s))
      = map ?low (trim_by (unicode_IsSpace \<circ> fst) (runes s))"
    by (simp add: runes_ToLower [OF assms] o_def)
  have "strings_TrimSpace (strings_ToLower T s)
          = concat (map snd (map ?low (trim_by (unicode_IsSpace \<circ> fst) (runes s))))"
    unfolding strings_TrimSpace_def [of "strings_ToLower T s"] eq ..
  also have "\<dots> = strings_ToLower T (strings_TrimSpace s)"
    unfolding strings_ToLower_eq_Map strings_Map_def runes_TrimSpace by (simp add: o_def)
  finally show ?thesis .
qed

text \<open>Evaluation of the functions above on a literal.\<close>

lemmas rune_eval =
  strings_TrimSpace_def runes.simps decode_multi_def decode2_def decode3_def decode4_def
  trim_by_def unicode_IsSpace_def strings_ToLower_def is_ascii_def ascii_lower_def char_of_def bit_0

end
