(* ===== verification/Strconv.thy ===== *)
theory Strconv
  imports GoStrings
begin

text \<open>
  Conversions of Go's \<^verbatim>\<open>strconv\<close>, \<^verbatim>\<open>fmt\<close> and \<^verbatim>\<open>encoding/hex\<close>: decimal integers as \<^verbatim>\<open>%d\<close>,
  \<^verbatim>\<open>strconv.FormatInt\<close>, \<^verbatim>\<open>strconv.ParseInt(s, 10, 64)\<close> and \<^verbatim>\<open>strconv.Atoi\<close> (64-bit \<^verbatim>\<open>int\<close>)
  handle them, quoted strings as \<^verbatim>\<open>%q\<close> writes them, and hexadecimal digits.
\<close>

section \<open>Decimal integers\<close>

definition digit_char :: "nat \<Rightarrow> char" where
  "digit_char d = char_of (48 + d)"

fun dec_digits :: "nat \<Rightarrow> bytes" where
  "dec_digits n = (if n < 10 then [digit_char n] else dec_digits (n div 10) @ [digit_char (n mod 10)])"

declare dec_digits.simps [simp del]

definition strconv_FormatInt :: "int \<Rightarrow> bytes" where
  "strconv_FormatInt i = (if i < 0 then CHR ''-'' # dec_digits (nat (- i)) else dec_digits (nat i))"

text \<open>The same in base 36, \<^verbatim>\<open>strconv.FormatInt(i, 36)\<close>.\<close>

definition digit36 :: "nat \<Rightarrow> char" where
  "digit36 d = (if d < 10 then char_of (48 + d) else char_of (87 + d))"

fun digits36 :: "nat \<Rightarrow> bytes" where
  "digits36 n = (if n < 36 then [digit36 n] else digits36 (n div 36) @ [digit36 (n mod 36)])"

declare digits36.simps [simp del]

definition strconv_FormatInt36 :: "int \<Rightarrow> bytes" where
  "strconv_FormatInt36 i = (if i < 0 then CHR ''-'' # digits36 (nat (- i)) else digits36 (nat i))"

lemma digit36_inj: "digit36 a = digit36 b \<Longrightarrow> a < 36 \<Longrightarrow> b < 36 \<Longrightarrow> a = b"
proof -
  assume "digit36 a = digit36 b" and "a < 36" and "b < 36"
  then have "of_char (digit36 a) = (of_char (digit36 b) :: nat)" and "a < 36" "b < 36" by simp_all
  then show ?thesis by (auto simp: digit36_def split: if_splits)
qed

lemma digits36_inj: "digits36 m = digits36 n \<Longrightarrow> m = n"
proof (induction m arbitrary: n rule: less_induct)
  case (less m)
  have ne: "digits36 k \<noteq> []" "[] \<noteq> digits36 k" for k by (subst digits36.simps, simp)+
  consider "m < 36" "n < 36" | "m < 36" "\<not> n < 36" | "\<not> m < 36" "n < 36" | "\<not> m < 36" "\<not> n < 36" by blast
  then show ?case
  proof cases
    case 4
    then have "digits36 (m div 36) @ [digit36 (m mod 36)] = digits36 (n div 36) @ [digit36 (n mod 36)]"
      using less.prems digits36.simps [of m] digits36.simps [of n] by simp
    then have d: "digits36 (m div 36) = digits36 (n div 36)" and "digit36 (m mod 36) = digit36 (n mod 36)" by simp_all
    then have "m mod 36 = n mod 36" using digit36_inj by simp
    moreover have "m div 36 = n div 36" by (rule less.IH [OF _ d]) (use 4 in simp)
    ultimately show ?thesis by (metis div_mult_mod_eq)
  qed (use less.prems ne digit36_inj digits36.simps [of m] digits36.simps [of n] in auto)
qed

lemma digits36_no_sign: "CHR ''-'' \<notin> set (digits36 n)"
proof (induction n rule: digits36.induct)
  case (1 n)
  have "CHR ''-'' \<noteq> digit36 d" if "d < 36" for d
  proof
    assume "CHR ''-'' = digit36 d"
    then have "of_char (CHR ''-'') = (of_char (digit36 d) :: nat)" by simp
    then show False using that by (auto simp: digit36_def split: if_splits)
  qed
  with 1 show ?case by (subst digits36.simps) auto
qed

lemma FormatInt36_inj: "strconv_FormatInt36 i = strconv_FormatInt36 j \<Longrightarrow> i = j"
proof -
  assume e: "strconv_FormatInt36 i = strconv_FormatInt36 j"
  have s: "CHR ''-'' # x \<noteq> digits36 n" for x n using digits36_no_sign [of n] by (metis list.set_intros(1))
  from e s s [symmetric] show ?thesis
    by (auto simp: strconv_FormatInt36_def split: if_splits dest!: digits36_inj)
qed

datatype num_error = ErrSyntax | ErrRange

definition is_digit :: "char \<Rightarrow> bool" where
  "is_digit c \<longleftrightarrow> 48 \<le> byte c \<and> byte c \<le> 57"

fun dec_value :: "nat \<Rightarrow> bytes \<Rightarrow> nat option" where
  "dec_value acc [] = Some acc"
| "dec_value acc (c # s) = (if is_digit c then dec_value (acc * 10 + (byte c - 48)) s else None)"

definition split_sign :: "bytes \<Rightarrow> bool \<times> bytes" where
  "split_sign s =
     (case s of
        c # t \<Rightarrow> if c = CHR ''-'' then (True, t) else if c = CHR ''+'' then (False, t) else (False, s)
      | [] \<Rightarrow> (False, []))"

text \<open>
  The returned value comes with the error, as in Go: zero on a syntax error, the nearest
  representable integer on a range error. Several callers ignore the error and use the value.
\<close>

definition strconv_ParseInt :: "bytes \<Rightarrow> int \<times> num_error option" where
  "strconv_ParseInt s =
     (case split_sign s of (neg, ds) \<Rightarrow>
       if ds = [] then (0, Some ErrSyntax)
       else case dec_value 0 ds of
              None \<Rightarrow> (0, Some ErrSyntax)
            | Some n \<Rightarrow>
                if \<not> neg \<and> 2 ^ 63 \<le> n then (2 ^ 63 - 1, Some ErrRange)
                else if neg \<and> 2 ^ 63 < n then (- (2 ^ 63), Some ErrRange)
                else (if neg then - int n else int n, None))"

abbreviation strconv_Atoi :: "bytes \<Rightarrow> int \<times> num_error option" where
  "strconv_Atoi \<equiv> strconv_ParseInt"

definition int64_ok :: "int \<Rightarrow> bool" where
  "int64_ok i \<longleftrightarrow> - (2 ^ 63) \<le> i \<and> i < 2 ^ 63"

lemma digit_char_props: "d < 10 \<Longrightarrow> is_digit (digit_char d) \<and> byte (digit_char d) = 48 + d"
  by (simp add: is_digit_def digit_char_def)

lemma dec_value_append:
  "dec_value acc (s @ t) = (case dec_value acc s of None \<Rightarrow> None | Some n \<Rightarrow> dec_value n t)"
  by (induction s arbitrary: acc) auto

lemma dec_value_digits: "dec_value 0 (dec_digits n) = Some n"
proof (induction n rule: dec_digits.induct)
  case (1 n)
  show ?case
  proof (cases "n < 10")
    case True
    then show ?thesis using digit_char_props [of n] by (simp add: dec_digits.simps [of n])
  next
    case False
    with "1.IH" have "dec_value 0 (dec_digits (n div 10)) = Some (n div 10)" by simp
    with False show ?thesis
      using digit_char_props [of "n mod 10"]
      by (simp add: dec_digits.simps [of n] dec_value_append)
  qed
qed

lemma dec_digits_is_digit: "c \<in> set (dec_digits n) \<Longrightarrow> is_digit c"
proof (induction n rule: dec_digits.induct)
  case (1 n)
  then show ?case
    using digit_char_props [of n] digit_char_props [of "n mod 10"]
    by (subst (asm) (2) dec_digits.simps) (auto split: if_splits)
qed

lemma dec_digits_ne [simp]: "dec_digits n \<noteq> []"
  by (subst dec_digits.simps) simp

lemma split_sign_digits: "ds \<noteq> [] \<Longrightarrow> \<forall>c \<in> set ds. is_digit c \<Longrightarrow> split_sign ds = (False, ds)"
  by (cases ds) (auto simp: split_sign_def is_digit_def)

lemma ParseInt_FormatInt: "int64_ok i \<Longrightarrow> strconv_ParseInt (strconv_FormatInt i) = (i, None)"
proof -
  assume r: "int64_ok i"
  have "split_sign (strconv_FormatInt i) = (i < 0, dec_digits (nat \<bar>i\<bar>))"
    using split_sign_digits [of "dec_digits (nat i)"] dec_digits_is_digit
    by (auto simp: strconv_FormatInt_def split_sign_def)
  then show ?thesis
    using r by (auto simp: strconv_ParseInt_def dec_value_digits int64_ok_def)
qed

lemma ParseInt_range: "int64_ok (fst (strconv_ParseInt s))"
  by (auto simp: strconv_ParseInt_def int64_ok_def split: prod.splits option.splits)

definition ParseInt_opt :: "bytes \<Rightarrow> int option" where
  "ParseInt_opt s = (case strconv_ParseInt s of (i, None) \<Rightarrow> Some i | _ \<Rightarrow> None)"

interpretation decimal: codec strconv_FormatInt ParseInt_opt int64_ok
  by unfold_locales (simp add: ParseInt_opt_def ParseInt_FormatInt)

lemma FormatInt_no_sep:
  "\<not> is_digit c \<Longrightarrow> c \<noteq> CHR ''-'' \<Longrightarrow> c \<notin> set (strconv_FormatInt i)"
  by (auto simp: strconv_FormatInt_def dest: dec_digits_is_digit)

section \<open>Hexadecimal digits\<close>

definition hex_char :: "nat \<Rightarrow> char" where
  "hex_char d = (if d < 10 then char_of (48 + d) else char_of (87 + d))"

definition hex2 :: "nat \<Rightarrow> bytes" where
  "hex2 n = [hex_char (n div 16 mod 16), hex_char (n mod 16)]"

definition hex_EncodeToString :: "bytes \<Rightarrow> bytes" where
  "hex_EncodeToString bs = concat (map (\<lambda>c. hex2 (byte c)) bs)"

definition is_hex :: "char \<Rightarrow> bool" where
  "is_hex c \<longleftrightarrow> 48 \<le> byte c \<and> byte c \<le> 57 \<or> 97 \<le> byte c \<and> byte c \<le> 102"

lemma hex_char_is_hex: "d < 16 \<Longrightarrow> is_hex (hex_char d)"
  by (auto simp: hex_char_def is_hex_def)

lemma hex2_is_hex: "c \<in> set (hex2 n) \<Longrightarrow> is_hex c"
  by (auto simp: hex2_def hex_char_is_hex)

lemma hex_EncodeToString_is_hex: "c \<in> set (hex_EncodeToString bs) \<Longrightarrow> is_hex c"
  by (auto simp: hex_EncodeToString_def dest: hex2_is_hex)

section \<open>Quoted strings\<close>

definition strconv_IsPrint :: "utab \<Rightarrow> rune \<Rightarrow> bool" where
  "strconv_IsPrint T r =
     (if r \<le> 0xFF then (0x20 \<le> r \<and> r < 0x7F) \<or> (0xA1 \<le> r \<and> r \<noteq> 0xAD) else print_of T r)"

definition quote_escape :: "rune \<Rightarrow> bytes" where
  "quote_escape r =
     (if r = 7 then [BACKSLASH, CHR ''a''] else if r = 8 then [BACKSLASH, CHR ''b'']
      else if r = 12 then [BACKSLASH, CHR ''f''] else if r = 10 then [BACKSLASH, CHR ''n'']
      else if r = 13 then [BACKSLASH, CHR ''r''] else if r = 9 then [BACKSLASH, CHR ''t'']
      else if r = 11 then [BACKSLASH, CHR ''v'']
      else if r < 0x20 \<or> r = 0x7F then [BACKSLASH, CHR ''x''] @ hex2 r
      else let r' = (if utf8_ValidRune r then r else RuneError)
           in if r' < 0x10000 then [BACKSLASH, CHR ''u''] @ hex2 (r' div 256) @ hex2 (r' mod 256)
              else [BACKSLASH, CHR ''U''] @ hex2 0 @ hex2 (r' div 65536) @ hex2 (r' div 256 mod 256)
                     @ hex2 (r' mod 256))"

definition quote_rune :: "utab \<Rightarrow> rune \<times> bytes \<Rightarrow> bytes" where
  "quote_rune T p =
     (case p of (r, ch) \<Rightarrow>
       if r = RuneError \<and> length ch = 1 then [BACKSLASH, CHR ''x''] @ hex2 (byte (hd ch))
       else if r = 0x22 \<or> r = 0x5C then [BACKSLASH, char_of r]
       else if strconv_IsPrint T r then encode_rune r
       else quote_escape r)"

definition strconv_Quote :: "utab \<Rightarrow> bytes \<Rightarrow> bytes" where
  "strconv_Quote T s = [DQUOTE] @ concat (map (quote_rune T) (runes s)) @ [DQUOTE]"

text \<open>A quoted string holds no control character: it can never end a header line.\<close>

definition is_control :: "char \<Rightarrow> bool" where
  "is_control c \<longleftrightarrow> byte c < 0x20 \<or> byte c = 0x7F"

lemma hex2_no_control: "c \<in> set (hex2 n) \<Longrightarrow> \<not> is_control c"
  by (auto dest!: hex2_is_hex simp: is_hex_def is_control_def)

lemma quote_escape_no_control: "c \<in> set (quote_escape r) \<Longrightarrow> \<not> is_control c"
  by (auto simp: quote_escape_def Let_def is_control_def split: if_splits dest!: hex2_no_control)

lemma encode_rune_nonascii: "0x80 \<le> r \<Longrightarrow> c \<in> set (encode_rune r) \<Longrightarrow> 0x80 \<le> byte c"
  by (auto simp: encode_rune_def enc2_def enc3_def enc4_def RuneError_def utf8_ValidRune_def
      split: if_splits)

lemma encode_print_no_control:
  "strconv_IsPrint T r \<Longrightarrow> c \<in> set (encode_rune r) \<Longrightarrow> \<not> is_control c"
proof (cases "r < 0x80")
  case True
  assume "strconv_IsPrint T r" and "c \<in> set (encode_rune r)"
  with True show ?thesis by (auto simp: strconv_IsPrint_def encode_rune_def is_control_def)
next
  case False
  assume "c \<in> set (encode_rune r)"
  with False show ?thesis using encode_rune_nonascii [of r c] by (auto simp: is_control_def)
qed

lemma quote_rune_no_control: "c \<in> set (quote_rune T p) \<Longrightarrow> \<not> is_control c"
  by (auto simp: quote_rune_def is_control_def split: prod.splits if_splits
      dest: hex2_no_control quote_escape_no_control encode_print_no_control)

lemma strconv_Quote_no_control: "c \<in> set (strconv_Quote T s) \<Longrightarrow> \<not> is_control c"
  by (auto simp: strconv_Quote_def dest: quote_rune_no_control) (simp_all add: is_control_def)

end
