(* ===== verification/NetMail.thy ===== *)
theory NetMail
  imports Strconv
begin

text \<open>
  Go's \<^verbatim>\<open>net/mail.ReadMessage\<close> as far as headers go: lines (\<^verbatim>\<open>bufio.ReadLine\<close>), continued lines
  (\<^verbatim>\<open>textproto.Reader.ReadContinuedLine\<close>), the header loop of \<^verbatim>\<open>net/mail\<close> with its errors, header
  keys (\<^verbatim>\<open>textproto.CanonicalMIMEHeaderKey\<close>) and \<^verbatim>\<open>Header.Get\<close>. A header is the list of its
  fields in the order of the message; Go keeps the values of one key in that order too, so the
  first value of a key is the same in both.
\<close>

section \<open>Lines\<close>

definition is_blank :: "char \<Rightarrow> bool" where
  "is_blank c \<longleftrightarrow> c = CHR '' '' \<or> c = TAB"

definition starts_blank :: "bytes \<Rightarrow> bool" where
  "starts_blank s \<longleftrightarrow> (case s of c # _ \<Rightarrow> is_blank c | [] \<Rightarrow> False)"

text \<open>One line without its LF or CRLF, and what follows; \<open>None\<close> at the end of the input.\<close>

definition drop_CR :: "bytes \<Rightarrow> bytes" where
  "drop_CR l = (if l \<noteq> [] \<and> last l = CR then butlast l else l)"

definition read_line :: "bytes \<Rightarrow> (bytes \<times> bytes) option" where
  "read_line s =
     (if s = [] then None
      else case strings_Cut s LF of
             Some (l, rest) \<Rightarrow> Some (drop_CR l, rest)
           | None \<Rightarrow> Some (s, []))"

definition trim_blank :: "bytes \<Rightarrow> bytes" where
  "trim_blank l = trim_by is_blank l"

lemma read_line_shorter: "read_line s = Some (l, rest) \<Longrightarrow> length rest < length s"
  by (auto simp: read_line_def split: if_splits option.splits dest!: strings_Cut_SomeD)

text \<open>
  Continuation lines: while the rest starts with a blank, skip the blanks, add one space and the
  next line, trimmed. Reaching the end of the input there ends the loop without an error.
\<close>

function continue_line :: "bytes \<Rightarrow> bytes \<Rightarrow> bytes \<times> bytes" where
  "continue_line buf rest =
     (if \<not> starts_blank rest then (buf, rest)
      else let rest' = dropWhile is_blank rest
           in case read_line rest' of
                None \<Rightarrow> (buf @ '' '', rest')
              | Some (l, rest'') \<Rightarrow> continue_line (buf @ '' '' @ trim_blank l) rest'')"
  by pat_completeness auto
termination
proof (relation "measure (\<lambda>(_, rest). length rest)", goal_cases)
  case (2 buf rest rest' p l rest'')
  then have "length rest'' < length rest'" by (auto dest: read_line_shorter)
  also have "length rest' \<le> length rest" using 2 by (simp add: length_dropWhile_le)
  finally show ?case by simp
qed simp

declare continue_line.simps [simp del]

definition read_continued_line :: "bytes \<Rightarrow> (bytes \<times> bytes) option" where
  "read_continued_line s =
     (case read_line s of
        None \<Rightarrow> None
      | Some (l, rest) \<Rightarrow> if l = [] then Some ([], rest) else Some (continue_line (trim_blank l) rest))"

lemma continue_line_length: "length (snd (continue_line buf rest)) \<le> length rest"
proof (induction buf rest rule: continue_line.induct)
  case (1 buf rest)
  show ?case
  proof (cases "starts_blank rest")
    case False
    then show ?thesis by (simp add: continue_line.simps)
  next
    case True
    let ?r = "dropWhile is_blank rest"
    have le: "length ?r \<le> length rest" by (rule length_dropWhile_le)
    show ?thesis
    proof (cases "read_line ?r")
      case None
      with True le show ?thesis by (subst continue_line.simps) simp
    next
      case (Some p)
      obtain l r where p: "p = (l, r)" by fastforce
      have "length (snd (continue_line (buf @ '' '' @ trim_blank l) r)) \<le> length r"
        using 1 True Some p by simp
      also have "\<dots> < length ?r" using Some p by (auto dest: read_line_shorter)
      finally show ?thesis using True Some p le by (subst continue_line.simps) simp
    qed
  qed
qed

lemma read_continued_line_shorter:
  assumes "read_continued_line s = Some (kv, rest)"
  shows "length rest < length s"
proof -
  obtain l r where l: "read_line s = Some (l, r)"
    using assms by (auto simp: read_continued_line_def split: option.splits)
  then have "length r < length s" by (rule read_line_shorter)
  moreover have "length rest \<le> length r"
    using assms l continue_line_length [of "trim_blank l" r]
    by (auto simp: read_continued_line_def split: if_splits)
  ultimately show ?thesis by simp
qed

lemma continue_line_plain: "\<not> starts_blank rest \<Longrightarrow> continue_line buf rest = (buf, rest)"
  by (simp add: continue_line.simps)

lemma continue_line_next:
  assumes "is_blank b" and "\<not> starts_blank l" and "l \<noteq> []" and "LF \<notin> set l"
  shows "continue_line buf (b # l @ LF # rest)
           = continue_line (buf @ '' '' @ trim_blank (drop_CR l)) rest"
proof -
  have dw: "dropWhile is_blank (b # l @ LF # rest) = l @ LF # rest"
    using assms(1-3) by (cases l) (auto simp: starts_blank_def)
  have rl: "read_line (l @ LF # rest) = Some (drop_CR l, rest)"
    using assms(4) by (simp add: read_line_def strings_Cut_append)
  show ?thesis
    by (subst continue_line.simps) (simp add: starts_blank_def assms(1) dw rl del: dropWhile.simps)
qed

section \<open>Header keys\<close>

definition token_special :: bytes where
  "token_special = ''!#$%&'' @ [CHR 0x27] @ ''*+-.^_'' @ [CHR 0x60] @ ''|~''"

definition is_token_char :: "char \<Rightarrow> bool" where
  "is_token_char c \<longleftrightarrow>
     48 \<le> byte c \<and> byte c \<le> 57 \<or> 65 \<le> byte c \<and> byte c \<le> 90 \<or> 97 \<le> byte c \<and> byte c \<le> 122
     \<or> c \<in> set token_special"

definition ascii_upper :: "char \<Rightarrow> char" where
  "ascii_upper c = (if 97 \<le> byte c \<and> byte c \<le> 122 then char_of (byte c - 32) else c)"

fun canon_key :: "bool \<Rightarrow> bytes \<Rightarrow> bytes" where
  "canon_key up [] = []"
| "canon_key up (c # s) =
     (if up then ascii_upper c else ascii_lower c) # canon_key (c = CHR ''-'') s"

definition CanonicalMIMEHeaderKey :: "bytes \<Rightarrow> bytes" where
  "CanonicalMIMEHeaderKey k = (if list_all is_token_char k then canon_key True k else k)"

section \<open>ReadMessage\<close>

type_synonym header = "(bytes \<times> bytes) list"

datatype header_error = EOF | Malformed

text \<open>The header loop, over the input that remains.\<close>

function header_loop :: "bytes \<Rightarrow> header \<times> header_error option \<times> bytes" where
  "header_loop s =
     (case read_continued_line s of
        None \<Rightarrow> ([], Some EOF, [])
      | Some (kv, rest) \<Rightarrow>
          if kv = [] then ([], None, rest)
          else case strings_Cut kv CHR '':'' of
                 None \<Rightarrow> ([], Some Malformed, rest)
               | Some (k, v) \<Rightarrow>
                   let key = CanonicalMIMEHeaderKey k;
                       fld = (if key = [] then [] else [(key, strings_TrimLeft v [CHR '' '', TAB])])
                   in case header_loop rest of (h, e, r) \<Rightarrow> (fld @ h, e, r))"
  by pat_completeness auto
termination
  by (relation "measure length") (auto dest: read_continued_line_shorter)

declare header_loop.simps [simp del]

definition readHeader :: "bytes \<Rightarrow> header \<times> header_error option \<times> bytes" where
  "readHeader s = (if starts_blank s then ([], Some Malformed, []) else header_loop s)"

text \<open>
  \<^verbatim>\<open>ReadMessage\<close>: an error of the header loop is fatal, except for the end of the input after at
  least one field. The result is the header and the body.
\<close>

definition mail_ReadMessage :: "bytes \<Rightarrow> (header \<times> bytes) option" where
  "mail_ReadMessage s =
     (case readHeader s of (h, e, rest) \<Rightarrow>
        (case e of
           None \<Rightarrow> Some (h, rest)
         | Some EOF \<Rightarrow> if h = [] then None else Some (h, rest)
         | Some Malformed \<Rightarrow> None))"

fun first_value :: "header \<Rightarrow> bytes \<Rightarrow> bytes" where
  "first_value [] k = []"
| "first_value ((k', v) # h) k = (if k' = k then v else first_value h k)"

definition Header_Get :: "header \<Rightarrow> bytes \<Rightarrow> bytes" where
  "Header_Get h k = first_value h (CanonicalMIMEHeaderKey k)"

section \<open>Fields written in front of a message\<close>

text \<open>
  What the reader makes of a field that a program has put in front of a message: the key and
  the value it wrote, with each folded line break read as one space.
\<close>

definition line_ok :: "bytes \<Rightarrow> bool" where
  "line_ok l \<longleftrightarrow> LF \<notin> set l \<and> CR \<notin> set l"

lemma line_ok_append [simp]: "line_ok (a @ b) \<longleftrightarrow> line_ok a \<and> line_ok b"
  by (auto simp: line_ok_def)

lemma line_ok_Nil [simp]: "line_ok []"
  by (simp add: line_ok_def)

lemma line_ok_Cons [simp]: "line_ok (c # l) \<longleftrightarrow> c \<noteq> LF \<and> c \<noteq> CR \<and> line_ok l"
  by (auto simp: line_ok_def)

lemma drop_CR_line [simp]: "line_ok l \<Longrightarrow> drop_CR (l @ [CR]) = l"
  by (simp add: drop_CR_def)

lemma drop_CR_line_ok [simp]: "line_ok l \<Longrightarrow> drop_CR l = l"
  by (auto simp: drop_CR_def line_ok_def dest: last_in_set)

lemma read_line_CRLF: "line_ok l \<Longrightarrow> read_line (l @ CRLF @ rest) = Some (l, rest)"
  using strings_Cut_append [of LF "l @ [CR]" rest] by (simp add: read_line_def line_ok_def drop_CR_def)

lemma read_line_LF: "line_ok l \<Longrightarrow> read_line (l @ LF # rest) = Some (l, rest)"
  by (simp add: read_line_def strings_Cut_append) (simp add: line_ok_def strings_Cut_append)

lemma trim_blank_keep: "l \<noteq> [] \<Longrightarrow> \<not> is_blank (hd l) \<Longrightarrow> \<not> is_blank (last l) \<Longrightarrow> trim_blank l = l"
  by (simp add: trim_blank_def trim_by_id)

lemma header_loop_field:
  assumes "read_continued_line s = Some (k @ '':'' @ v, rest)"
    and "CHR '':'' \<notin> set k" and "CanonicalMIMEHeaderKey k \<noteq> []"
  shows "header_loop s =
           (case header_loop rest of (h, e, r) \<Rightarrow>
              ((CanonicalMIMEHeaderKey k, strings_TrimLeft v [CHR '' '', TAB]) # h, e, r))"
  using assms by (subst header_loop.simps) (simp add: strings_Cut_append Let_def)

lemma header_loop_bad_line:
  assumes "read_continued_line s = Some (kv, rest)" and "kv \<noteq> []" and "CHR '':'' \<notin> set kv"
  shows "header_loop s = ([], Some Malformed, rest)"
  using assms by (subst header_loop.simps) (simp add: strings_Cut_def)

subsection \<open>Folded fields\<close>

text \<open>
  A field folded over several lines: the first line, then for every further line a bare LF, a
  tab and the line, and CRLF at the end.
\<close>

fun fold_tail :: "bytes list \<Rightarrow> bytes \<Rightarrow> bytes" where
  "fold_tail [] rest = CRLF @ rest"
| "fold_tail (x # xs) rest = [LF, TAB] @ x @ fold_tail xs rest"

fun fold_rest :: "bytes list \<Rightarrow> bytes \<Rightarrow> bytes" where
  "fold_rest [] rest = rest"
| "fold_rest (x # xs) rest = TAB # x @ fold_tail xs rest"

definition fold_line_ok :: "bytes \<Rightarrow> bool" where
  "fold_line_ok l \<longleftrightarrow> line_ok l \<and> l \<noteq> [] \<and> \<not> starts_blank l"

lemma read_line_fold: "fold_line_ok l \<Longrightarrow> read_line (l @ fold_tail xs rest) = Some (l, fold_rest xs rest)"
  using read_line_CRLF [of l rest] read_line_LF [of l "TAB # hd xs @ fold_tail (tl xs) rest"]
  by (cases xs) (simp_all add: fold_line_ok_def)

lemma starts_blank_append: "l \<noteq> [] \<Longrightarrow> starts_blank (l @ t) = starts_blank l"
  by (cases l) (simp_all add: starts_blank_def)

lemma continue_line_fold:
  assumes "\<not> starts_blank rest"
  shows "\<forall>x \<in> set xs. fold_line_ok x \<Longrightarrow>
    continue_line buf (fold_rest xs rest) = (buf @ concat (map (\<lambda>x. '' '' @ trim_blank x) xs), rest)"
proof (induction xs arbitrary: buf)
  case Nil
  with assms show ?case by (simp add: continue_line_plain)
next
  case (Cons x xs)
  then have x: "fold_line_ok x" by simp
  have "dropWhile is_blank (x @ fold_tail xs rest) = x @ fold_tail xs rest"
    using x by (cases x) (auto simp: fold_line_ok_def starts_blank_def)
  then have "continue_line buf (fold_rest (x # xs) rest)
      = continue_line (buf @ '' '' @ trim_blank x) (fold_rest xs rest)"
    using read_line_fold [OF x, of xs rest]
    by (subst continue_line.simps) (simp add: starts_blank_def is_blank_def)
  also have "\<dots> = ((buf @ '' '' @ trim_blank x) @ concat (map (\<lambda>x. '' '' @ trim_blank x) xs), rest)"
    using Cons by simp
  finally show ?case by simp
qed

lemma read_folded_field:
  assumes "fold_line_ok l" and "\<forall>x \<in> set xs. fold_line_ok x" and "\<not> starts_blank rest"
  shows "read_continued_line (l @ fold_tail xs rest)
           = Some (trim_blank l @ concat (map (\<lambda>x. '' '' @ trim_blank x) xs), rest)"
  using assms read_line_fold [OF assms(1)] continue_line_fold [OF assms(3,2)]
  by (simp add: read_continued_line_def fold_line_ok_def)

lemma header_loop_folded:
  assumes "fold_line_ok (k @ '': '' @ v)" and "\<forall>x \<in> set xs. fold_line_ok x" and "\<not> starts_blank rest"
    and "CHR '':'' \<notin> set k" and "k \<noteq> []" and "CanonicalMIMEHeaderKey k = k"
    and "v \<noteq> []" and "\<not> starts_blank v" and "\<not> is_blank (last v)"
  shows "header_loop (k @ '': '' @ v @ fold_tail xs rest) =
           (case header_loop rest of (h, e, r) \<Rightarrow>
              ((k, v @ concat (map (\<lambda>x. '' '' @ trim_blank x) xs)) # h, e, r))"
proof -
  let ?more = "concat (map (\<lambda>x. '' '' @ trim_blank x) xs)"
  have hd_k: "\<not> is_blank (hd (k @ '': '' @ v))"
    using assms(1,5) by (cases k) (auto simp: fold_line_ok_def starts_blank_def)
  have "trim_blank (k @ '': '' @ v) = k @ '': '' @ v"
    using assms(5,7,9) hd_k by (intro trim_blank_keep) auto
  then have rc: "read_continued_line ((k @ '': '' @ v) @ fold_tail xs rest)
      = Some (k @ '':'' @ ('' '' @ v @ ?more), rest)"
    using read_folded_field [OF assms(1-3)] by simp
  have tl: "strings_TrimLeft ('' '' @ v @ ?more) [CHR '' '', TAB] = v @ ?more"
    using assms(7,8) by (cases v) (auto simp: strings_TrimLeft_def starts_blank_def is_blank_def)
  show ?thesis
    using header_loop_field [OF rc assms(4)] assms(5,6) tl by simp
qed

text \<open>
  What follows a complete line is folded into it as long as it starts with a blank: the text that is
  added does not depend on the line, and is empty or starts with a space.
\<close>

lemma continue_line_append:
  "continue_line (a @ buf) rest = (a @ fst (continue_line buf rest), snd (continue_line buf rest))"
proof (induction buf rest rule: continue_line.induct)
  case (1 buf rest)
  show ?case
  proof (cases "starts_blank rest")
    case True
    show ?thesis
    proof (cases "read_line (dropWhile is_blank rest)")
      case None
      with True have "continue_line b rest = (b @ '' '', dropWhile is_blank rest)" for b
        by (subst continue_line.simps) simp
      then show ?thesis by simp
    next
      case (Some p)
      obtain l r where p: "p = (l, r)" by fastforce
      with True Some have e: "continue_line b rest = continue_line (b @ '' '' @ trim_blank l) r" for b
        by (subst continue_line.simps) simp
      have "continue_line (a @ buf @ '' '' @ trim_blank l) r
          = (a @ fst (continue_line (buf @ '' '' @ trim_blank l) r), snd (continue_line (buf @ '' '' @ trim_blank l) r))"
        using 1 [OF _ refl Some] p True by simp
      then show ?thesis by (simp only: e append_assoc)
    qed
  qed (simp add: continue_line_plain)
qed

definition folded :: "bytes \<Rightarrow> bytes" where
  "folded rest = fst (continue_line [] rest)"

definition unfolded :: "bytes \<Rightarrow> bytes" where
  "unfolded rest = snd (continue_line [] rest)"

lemma continue_line_folded: "continue_line buf rest = (buf @ folded rest, unfolded rest)"
  using continue_line_append [of buf "[]" rest] by (simp add: folded_def unfolded_def)

lemma folded_plain [simp]: "\<not> starts_blank rest \<Longrightarrow> folded rest = [] \<and> unfolded rest = rest"
  by (simp add: folded_def unfolded_def continue_line_plain)

lemma folded_space: "folded rest = [] \<or> (\<exists>y. folded rest = CHR '' '' # y)"
proof (cases "starts_blank rest")
  case True
  then show ?thesis
    unfolding folded_def
    by (subst continue_line.simps) (auto simp: continue_line_folded Let_def split: option.split)
qed simp

lemma header_loop_line:
  assumes "line_ok (k @ '': '' @ v)" and "CHR '':'' \<notin> set k" and "k \<noteq> []" and "\<not> is_blank (hd k)" and "CanonicalMIMEHeaderKey k = k"
    and "v \<noteq> []" and "\<not> starts_blank v" and "\<not> is_blank (last v)"
  shows "header_loop (k @ '': '' @ v @ CRLF @ rest) =
           (case header_loop (unfolded rest) of (h, e, r) \<Rightarrow> ((k, v @ folded rest) # h, e, r))"
proof -
  have "trim_blank (k @ '': '' @ v) = k @ '': '' @ v"
    using assms(3,4,6,8) by (intro trim_blank_keep) auto
  then have rc: "read_continued_line ((k @ '': '' @ v) @ CRLF @ rest) = Some (k @ '':'' @ ('' '' @ v @ folded rest), unfolded rest)"
    using read_line_CRLF [OF assms(1), of rest] by (simp add: read_continued_line_def continue_line_folded)
  have "strings_TrimLeft ('' '' @ v @ folded rest) [CHR '' '', TAB] = v @ folded rest"
    using assms(6,7) by (cases v) (auto simp: strings_TrimLeft_def starts_blank_def is_blank_def)
  then show ?thesis using header_loop_field [OF rc assms(2)] assms(3,5) by simp
qed

end
