(* ===== verification/Mailauth.thy ===== *)
theory Mailauth
  imports NetMail
begin

text \<open>
  Package \<^verbatim>\<open>internal/mailauth\<close> (auth.go): the SPF, DKIM and DMARC checks of one message, the
  policy that maps their results to a delivery action, and the two header values that record
  them. The SPF, DKIM, DMARC and public-suffix libraries and the RFC 5322 address parser are
  parameters (record \<open>auth_env\<close>).
\<close>

section \<open>Statuses, actions, policies\<close>

type_synonym status = bytes
type_synonym action = bytes

definition StatusPass :: status where
  "StatusPass = ''pass''"

definition StatusFail :: status where
  "StatusFail = ''fail''"

definition StatusSoftfail :: status where
  "StatusSoftfail = ''softfail''"

definition StatusNone :: status where
  "StatusNone = ''none''"

definition ActionReject :: action where
  "ActionReject = ''reject''"

definition ActionSpam :: action where
  "ActionSpam = ''spam''"

definition ActionInbox :: action where
  "ActionInbox = ''inbox''"

lemmas status_defs = StatusPass_def StatusFail_def StatusSoftfail_def StatusNone_def
lemmas action_defs = ActionReject_def ActionSpam_def ActionInbox_def

definition Action_Valid :: "action \<Rightarrow> bool" where
  "Action_Valid a \<longleftrightarrow> a = ActionReject \<or> a = ActionSpam \<or> a = ActionInbox"

record policy =
  SPFFail :: action
  SPFSoftfail :: action
  DKIMFail :: action
  DMARCFail :: action
  Default :: action

record results =
  SPF :: status
  SPFDetail :: bytes
  SPFDomain :: bytes
  DKIM :: status
  DKIMDetail :: bytes
  DKIMDomain :: bytes
  DMARC :: status
  DMARCDetail :: bytes
  DMARCPolicy :: bytes
  FromDomain :: bytes

section \<open>The libraries the checks call\<close>

text \<open>
  \<^verbatim>\<open>spf.CheckHost\<close> gives a result or an error; \<^verbatim>\<open>dkim.Verify\<close> the verifications it computed and
  possibly an error, one of which (too many signatures) still comes with results; \<^verbatim>\<open>dmarc.Lookup\<close>
  a record, nothing, or an error; \<^verbatim>\<open>publicsuffix.EffectiveTLDPlusOne\<close> a domain or an error.
\<close>

datatype spf_result =
  SpfNone | SpfNeutral | SpfPass | SpfFail | SpfSoftfail | SpfTemperror | SpfPermerror

datatype dkim_error = ErrTooManySignatures | DkimError bytes

record verification =
  ver_Domain :: bytes
  ver_Err :: "bytes option"

record dmarc_record =
  rec_Policy :: bytes
  rec_SPFAlignment :: bytes
  rec_DKIMAlignment :: bytes

definition AlignmentStrict :: bytes where
  "AlignmentStrict = ''s''"

record auth_env =
  env_utab :: utab
  spf_CheckHost :: "bytes \<Rightarrow> bytes \<Rightarrow> bytes \<Rightarrow> bytes + spf_result"
  spf_String :: "spf_result \<Rightarrow> bytes"
  dkim_Verify :: "bytes \<Rightarrow> verification list \<times> dkim_error option"
  dmarc_Lookup :: "bytes \<Rightarrow> bytes + dmarc_record option"
  EffectiveTLDPlusOne :: "bytes \<Rightarrow> bytes option"
  parse_address_list :: "bytes \<Rightarrow> (bytes \<times> bytes) list option"

section \<open>The checks\<close>

text \<open>Each check returns the status, a detail and a domain (or the published policy).\<close>

definition checkSPF :: "auth_env \<Rightarrow> bytes option \<Rightarrow> bytes \<Rightarrow> status \<times> bytes \<times> bytes" where
  "checkSPF E ip mailFrom =
     (case ip of
        None \<Rightarrow> (StatusNone, ''no client IP'', [])
      | Some addr \<Rightarrow>
          let sender = strings_TrimSpace mailFrom in
          if sender = [] then (StatusNone, ''empty envelope sender (bounce)'', [])
          else case strings_LastIndexByte sender CHR ''@'' of
                 None \<Rightarrow> (StatusNone, ''malformed envelope sender'', [])
               | Some at \<Rightarrow>
                   if at = length sender - 1 then (StatusNone, ''malformed envelope sender'', [])
                   else let domain = strings_ToLower (env_utab E) (drop (at + 1) sender) in
                        case spf_CheckHost E addr domain sender of
                          Inl err \<Rightarrow> (StatusNone, ''error: '' @ err, domain)
                        | Inr res \<Rightarrow>
                            (case res of
                               SpfPass \<Rightarrow> (StatusPass, [], domain)
                             | SpfFail \<Rightarrow> (StatusFail, spf_String E res, domain)
                             | SpfSoftfail \<Rightarrow> (StatusSoftfail, spf_String E res, domain)
                             | _ \<Rightarrow> (StatusNone, spf_String E res, domain)))"

text \<open>The loop over the verifications, with the first error seen so far.\<close>

fun dkim_scan :: "bytes option \<Rightarrow> verification list \<Rightarrow> status \<times> bytes \<times> bytes" where
  "dkim_scan firstErr [] =
     (StatusFail, ''invalid signature: '' @ (case firstErr of Some e \<Rightarrow> e | None \<Rightarrow> ''<nil>''), [])"
| "dkim_scan firstErr (v # vers) =
     (case ver_Err v of
        None \<Rightarrow> (StatusPass, [], ver_Domain v)
      | Some e \<Rightarrow> dkim_scan (case firstErr of None \<Rightarrow> Some e | Some f \<Rightarrow> Some f) vers)"

definition checkDKIM :: "auth_env \<Rightarrow> bytes \<Rightarrow> status \<times> bytes \<times> bytes" where
  "checkDKIM E raw =
     (case dkim_Verify E raw of (vers, err) \<Rightarrow>
        (case err of
           Some (DkimError e) \<Rightarrow> (StatusNone, ''error: '' @ e, [])
         | _ \<Rightarrow> if vers = [] then (StatusNone, ''no signature'', []) else dkim_scan None vers))"

text \<open>\<^verbatim>\<open>Header.AddressList\<close>: an absent or empty field is an error.\<close>

definition Header_AddressList :: "auth_env \<Rightarrow> header \<Rightarrow> bytes \<Rightarrow> (bytes \<times> bytes) list option" where
  "Header_AddressList E h k =
     (let v = Header_Get h k in if v = [] then None else parse_address_list E v)"

definition fromDomain :: "auth_env \<Rightarrow> bytes \<Rightarrow> bytes" where
  "fromDomain E raw =
     (case mail_ReadMessage raw of
        None \<Rightarrow> []
      | Some (h, _) \<Rightarrow>
          (case Header_AddressList E h ''From'' of
             None \<Rightarrow> []
           | Some [] \<Rightarrow> []
           | Some ((_, addr) # _) \<Rightarrow>
               (case strings_LastIndexByte addr CHR ''@'' of
                  None \<Rightarrow> []
                | Some at \<Rightarrow> strings_ToLower (env_utab E) (drop (at + 1) addr))))"

definition aligned :: "auth_env \<Rightarrow> bytes \<Rightarrow> bytes \<Rightarrow> bytes \<Rightarrow> bool" where
  "aligned E a b mode =
     (if a = [] \<or> b = [] then False
      else let a' = strings_ToLower (env_utab E) a; b' = strings_ToLower (env_utab E) b in
           if mode = AlignmentStrict then a' = b'
           else if a' = b' then True
           else case (EffectiveTLDPlusOne E a', EffectiveTLDPlusOne E b') of
                  (Some oa, Some ob) \<Rightarrow> oa = ob
                | _ \<Rightarrow> False)"

definition checkDMARC :: "auth_env \<Rightarrow> bytes \<Rightarrow> results \<Rightarrow> status \<times> bytes \<times> bytes" where
  "checkDMARC E from r =
     (if from = [] then (StatusNone, ''no From domain'', [])
      else case dmarc_Lookup E from of
             Inl err \<Rightarrow> (StatusNone, ''lookup error: '' @ err, [])
           | Inr None \<Rightarrow> (StatusNone, ''no DMARC record'', [])
           | Inr (Some rc) \<Rightarrow>
               let pol = rec_Policy rc;
                   spfOK = SPF r = StatusPass \<and> aligned E (SPFDomain r) from (rec_SPFAlignment rc);
                   dkimOK = DKIM r = StatusPass \<and> aligned E (DKIMDomain r) from (rec_DKIMAlignment rc)
               in if spfOK \<or> dkimOK then (StatusPass, [], pol)
                  else (StatusFail, ''no aligned SPF or DKIM pass'', pol))"

definition zero_results :: results where
  "zero_results = \<lparr>SPF = [], SPFDetail = [], SPFDomain = [], DKIM = [], DKIMDetail = [], DKIMDomain = [],
     DMARC = [], DMARCDetail = [], DMARCPolicy = [], FromDomain = []\<rparr>"

definition Check :: "auth_env \<Rightarrow> bytes option \<Rightarrow> bytes \<Rightarrow> bytes \<Rightarrow> results" where
  "Check E clientIP mailFrom raw =
     (let r = zero_results;
          r = (case checkSPF E clientIP mailFrom of (s, d, dn) \<Rightarrow>
                 r\<lparr>SPF := s, SPFDetail := d, SPFDomain := dn\<rparr>);
          r = (case checkDKIM E raw of (s, d, dn) \<Rightarrow>
                 r\<lparr>DKIM := s, DKIMDetail := d, DKIMDomain := dn\<rparr>);
          r = r\<lparr>FromDomain := fromDomain E raw\<rparr>
      in case checkDMARC E (FromDomain r) r of (s, d, pol) \<Rightarrow>
           r\<lparr>DMARC := s, DMARCDetail := d, DMARCPolicy := pol\<rparr>)"

section \<open>The decision and the recorded headers\<close>

definition Decide :: "policy \<Rightarrow> results \<Rightarrow> action" where
  "Decide p r =
     (if DMARC r = StatusFail then DMARCFail p
      else if SPF r = StatusFail then SPFFail p
      else if SPF r = StatusSoftfail then SPFSoftfail p
      else if DKIM r = StatusFail then DKIMFail p
      else Default p)"

definition opt_field :: "bytes \<Rightarrow> bytes \<Rightarrow> bytes \<Rightarrow> bytes" where
  "opt_field v name shown = (if v \<noteq> [] then name @ shown else [])"

definition AuthResultsHeader :: "utab \<Rightarrow> results \<Rightarrow> bytes \<Rightarrow> bytes" where
  "AuthResultsHeader T r authservID =
     authservID
     @ '';'' @ [LF, TAB] @ ''spf='' @ SPF r
     @ opt_field (SPFDetail r) '' reason='' (strconv_Quote T (SPFDetail r))
     @ opt_field (SPFDomain r) '' smtp.mailfrom='' (SPFDomain r)
     @ '';'' @ [LF, TAB] @ ''dkim='' @ DKIM r
     @ opt_field (DKIMDetail r) '' reason='' (strconv_Quote T (DKIMDetail r))
     @ opt_field (DKIMDomain r) '' header.d='' (DKIMDomain r)
     @ '';'' @ [LF, TAB] @ ''dmarc='' @ DMARC r
     @ opt_field (DMARCDetail r) '' reason='' (strconv_Quote T (DMARCDetail r))
     @ opt_field (DMARCPolicy r) '' policy.published='' (DMARCPolicy r)
     @ opt_field (FromDomain r) '' header.from='' (FromDomain r)"

definition SpamStatusHeader :: "results \<Rightarrow> action \<Rightarrow> bytes" where
  "SpamStatusHeader r a =
     ''action='' @ a @ '' spf='' @ SPF r @ '' dkim='' @ DKIM r @ '' dmarc='' @ DMARC r"

section \<open>What the checks return\<close>

text \<open>The statuses each check may report.\<close>

definition spf_statuses :: "status set" where
  "spf_statuses = {StatusPass, StatusFail, StatusSoftfail, StatusNone}"

definition plain_statuses :: "status set" where
  "plain_statuses = {StatusPass, StatusFail, StatusNone}"

definition results_wf :: "results \<Rightarrow> bool" where
  "results_wf r \<longleftrightarrow> SPF r \<in> spf_statuses \<and> DKIM r \<in> plain_statuses \<and> DMARC r \<in> plain_statuses"

lemma status_distinct [simp]:
  "StatusPass \<noteq> StatusFail" "StatusPass \<noteq> StatusSoftfail" "StatusPass \<noteq> StatusNone"
  "StatusFail \<noteq> StatusSoftfail" "StatusFail \<noteq> StatusNone" "StatusSoftfail \<noteq> StatusNone"
  "StatusFail \<noteq> StatusPass" "StatusSoftfail \<noteq> StatusPass" "StatusNone \<noteq> StatusPass"
  "StatusSoftfail \<noteq> StatusFail" "StatusNone \<noteq> StatusFail" "StatusNone \<noteq> StatusSoftfail"
  by (simp_all add: status_defs)

lemma action_distinct [simp]:
  "ActionReject \<noteq> ActionSpam" "ActionReject \<noteq> ActionInbox" "ActionSpam \<noteq> ActionInbox"
  "ActionSpam \<noteq> ActionReject" "ActionInbox \<noteq> ActionReject" "ActionInbox \<noteq> ActionSpam"
  by (simp_all add: action_defs)

lemma checkSPF_status: "fst (checkSPF E ip m) \<in> spf_statuses"
  by (simp add: checkSPF_def spf_statuses_def Let_def
      split: option.splits if_splits sum.splits spf_result.splits)

lemma dkim_scan_status: "fst (dkim_scan e vers) \<in> plain_statuses"
  by (induction e vers rule: dkim_scan.induct) (simp_all add: plain_statuses_def split: option.splits)

lemma checkDKIM_status: "fst (checkDKIM E raw) \<in> plain_statuses"
  using dkim_scan_status
  by (auto simp: checkDKIM_def plain_statuses_def split: prod.splits option.splits dkim_error.splits)

lemma checkDMARC_status: "fst (checkDMARC E d r) \<in> plain_statuses"
  by (auto simp: checkDMARC_def plain_statuses_def Let_def split: sum.splits option.splits)

text \<open>The fields of the result of \<open>Check\<close> in terms of the three checks.\<close>

lemma Check_sel:
  "SPF (Check E ip m raw) = fst (checkSPF E ip m)"
  "SPFDetail (Check E ip m raw) = fst (snd (checkSPF E ip m))"
  "SPFDomain (Check E ip m raw) = snd (snd (checkSPF E ip m))"
  "DKIM (Check E ip m raw) = fst (checkDKIM E raw)"
  "DKIMDetail (Check E ip m raw) = fst (snd (checkDKIM E raw))"
  "DKIMDomain (Check E ip m raw) = snd (snd (checkDKIM E raw))"
  "FromDomain (Check E ip m raw) = fromDomain E raw"
  by (simp_all add: Check_def Let_def split: prod.splits)

lemma checkDMARC_cong:
  "SPF r = SPF r' \<Longrightarrow> SPFDomain r = SPFDomain r' \<Longrightarrow> DKIM r = DKIM r' \<Longrightarrow> DKIMDomain r = DKIMDomain r' \<Longrightarrow>
     checkDMARC E d r = checkDMARC E d r'"
  by (simp add: checkDMARC_def split: sum.split option.split)

lemma Check_DMARC:
  "(DMARC (Check E ip m raw), DMARCDetail (Check E ip m raw), DMARCPolicy (Check E ip m raw))
     = checkDMARC E (fromDomain E raw) (Check E ip m raw)"
proof -
  obtain s d dn where c1: "checkSPF E ip m = (s, d, dn)" by (metis prod_cases3)
  obtain s' d' dn' where c2: "checkDKIM E raw = (s', d', dn')" by (metis prod_cases3)
  let ?r = "zero_results\<lparr>SPF := s, SPFDetail := d, SPFDomain := dn, DKIM := s', DKIMDetail := d',
      DKIMDomain := dn', FromDomain := fromDomain E raw\<rparr>"
  have "checkDMARC E (fromDomain E raw) (Check E ip m raw) = checkDMARC E (fromDomain E raw) ?r"
    by (rule checkDMARC_cong) (simp_all add: Check_sel c1 c2)
  then show ?thesis by (simp add: Check_def Let_def c1 c2 split: prod.splits)
qed

lemma Check_DMARC_status: "DMARC (Check E ip m raw) = fst (checkDMARC E (fromDomain E raw) (Check E ip m raw))"
  using Check_DMARC [of E ip m raw] by (metis fst_conv)

lemma Check_results_wf: "results_wf (Check E ip m raw)"
  by (simp add: results_wf_def Check_sel Check_DMARC_status checkSPF_status checkDKIM_status checkDMARC_status)

lemma dkim_scan_found:
  "find (\<lambda>v. ver_Err v = None) vers = Some v \<Longrightarrow> dkim_scan e vers = (StatusPass, [], ver_Domain v)"
  by (induction e vers rule: dkim_scan.induct) (auto split: option.splits if_splits)

lemma dkim_scan_none:
  "find (\<lambda>v. ver_Err v = None) vers = None \<Longrightarrow> fst (dkim_scan e vers) = StatusFail"
  by (induction e vers rule: dkim_scan.induct) (auto split: option.splits if_splits)

text \<open>
  The signatures that verify, in the order of the message; none when the verification itself failed.
\<close>

definition verifying :: "auth_env \<Rightarrow> bytes \<Rightarrow> verification list" where
  "verifying E raw =
     (case dkim_Verify E raw of
        (vers, Some (DkimError e)) \<Rightarrow> []
      | (vers, _) \<Rightarrow> filter (\<lambda>v. ver_Err v = None) vers)"

lemma dkim_scan_filter:
  "case filter (\<lambda>v. ver_Err v = None) vers of
     [] \<Rightarrow> fst (dkim_scan e vers) = StatusFail
   | v # vs \<Rightarrow> dkim_scan e vers = (StatusPass, [], ver_Domain v)"
  by (induction e vers rule: dkim_scan.induct) (auto split: option.splits list.splits)

lemma checkDKIM_verifying:
  "case verifying E raw of
     [] \<Rightarrow> fst (checkDKIM E raw) \<noteq> StatusPass
   | v # vs \<Rightarrow> checkDKIM E raw = (StatusPass, [], ver_Domain v)"
proof (cases "dkim_Verify E raw")
  case (Pair vers err)
  then show ?thesis using dkim_scan_filter [where vers = vers and e = None]
    by (auto simp: verifying_def checkDKIM_def split: option.splits dkim_error.splits list.splits)
qed

section \<open>Alignment\<close>

lemma aligned_sym: "aligned E a b mode = aligned E b a mode"
  by (auto simp: aligned_def Let_def split: option.splits)

lemma aligned_strict_imp: "aligned E a b AlignmentStrict \<Longrightarrow> aligned E a b mode"
  by (auto simp: aligned_def Let_def split: if_splits)

lemma aligned_refl: "a \<noteq> [] \<Longrightarrow> aligned E a a mode"
  by (simp add: aligned_def Let_def)

section \<open>The recorded headers\<close>

text \<open>What the program puts into a header unquoted must be free of line breaks.\<close>

definition header_safe :: "results \<Rightarrow> bool" where
  "header_safe r \<longleftrightarrow>
     line_ok (SPFDomain r) \<and> line_ok (DKIMDomain r) \<and> line_ok (DMARCPolicy r) \<and> line_ok (FromDomain r)"

lemma line_ok_Quote [simp]: "line_ok (strconv_Quote T s)"
  using strconv_Quote_no_control [of _ T s] by (fastforce simp: line_ok_def is_control_def)

lemma line_ok_opt_field [simp]: "line_ok name \<Longrightarrow> line_ok shown \<Longrightarrow> line_ok (opt_field v name shown)"
  by (simp add: opt_field_def)

definition spf_line :: "utab \<Rightarrow> results \<Rightarrow> bytes" where
  "spf_line T r = ''spf='' @ SPF r
     @ opt_field (SPFDetail r) '' reason='' (strconv_Quote T (SPFDetail r))
     @ opt_field (SPFDomain r) '' smtp.mailfrom='' (SPFDomain r) @ '';''"

definition dkim_line :: "utab \<Rightarrow> results \<Rightarrow> bytes" where
  "dkim_line T r = ''dkim='' @ DKIM r
     @ opt_field (DKIMDetail r) '' reason='' (strconv_Quote T (DKIMDetail r))
     @ opt_field (DKIMDomain r) '' header.d='' (DKIMDomain r) @ '';''"

definition dmarc_line :: "utab \<Rightarrow> results \<Rightarrow> bytes" where
  "dmarc_line T r = ''dmarc='' @ DMARC r
     @ opt_field (DMARCDetail r) '' reason='' (strconv_Quote T (DMARCDetail r))
     @ opt_field (DMARCPolicy r) '' policy.published='' (DMARCPolicy r)
     @ opt_field (FromDomain r) '' header.from='' (FromDomain r)"

lemma AuthResultsHeader_folded:
  "AuthResultsHeader T r d @ CRLF @ rest
     = (d @ '';'') @ fold_tail [spf_line T r, dkim_line T r, dmarc_line T r] rest"
  by (simp add: AuthResultsHeader_def spf_line_def dkim_line_def dmarc_line_def)

lemma line_ok_status: "s \<in> spf_statuses \<union> plain_statuses \<Longrightarrow> line_ok s"
  by (auto simp: spf_statuses_def plain_statuses_def status_defs line_ok_def)

lemma auth_lines_ok:
  assumes "results_wf r" and "header_safe r"
  shows "\<forall>l \<in> set [spf_line T r, dkim_line T r, dmarc_line T r]. fold_line_ok l"
proof -
  have "line_ok (SPF r)" "line_ok (DKIM r)" "line_ok (DMARC r)"
    using assms(1) by (auto simp: results_wf_def intro: line_ok_status)
  with assms(2) have "line_ok (spf_line T r)" "line_ok (dkim_line T r)" "line_ok (dmarc_line T r)"
    unfolding spf_line_def dkim_line_def dmarc_line_def header_safe_def
    by simp_all
  then show ?thesis
    by (simp add: fold_line_ok_def) (simp add: spf_line_def dkim_line_def dmarc_line_def starts_blank_def is_blank_def)
qed

lemma Decide_Valid:
  "Action_Valid (SPFFail p) \<Longrightarrow> Action_Valid (SPFSoftfail p) \<Longrightarrow> Action_Valid (DKIMFail p) \<Longrightarrow>
   Action_Valid (DMARCFail p) \<Longrightarrow> Action_Valid (Default p) \<Longrightarrow> Action_Valid (Decide p r)"
  by (simp add: Decide_def)

text \<open>The summary says \<open>action=spam\<close> exactly for the action spam.\<close>

lemma sublist_not_start: "(c :: char) \<noteq> d \<Longrightarrow> sublist (c # p) (d # s) \<longleftrightarrow> sublist (c # p) s"
  by (auto simp: sublist_Cons_right)

lemma status_no_marker:
  assumes "st \<in> spf_statuses \<union> plain_statuses"
  shows "sublist ''action=spam'' (st @ CHR '' '' # s) \<longleftrightarrow> sublist ''action=spam'' s"
    and "\<not> sublist ''action=spam'' st"
  using assms
  by (auto simp: spf_statuses_def plain_statuses_def status_defs sublist_Cons_right)

lemma SpamStatusHeader_marks_spam:
  assumes "results_wf r" and "Action_Valid a"
  shows "strings_Contains (SpamStatusHeader r a) ''action=spam'' \<longleftrightarrow> a = ActionSpam"
proof -
  have st: "SPF r \<in> spf_statuses \<union> plain_statuses" "DKIM r \<in> spf_statuses \<union> plain_statuses"
    "DMARC r \<in> spf_statuses \<union> plain_statuses"
    using assms(1) by (auto simp: results_wf_def)
  let ?tail = "CHR '' '' # ''spf='' @ SPF r @ CHR '' '' # ''dkim='' @ DKIM r @ CHR '' '' # ''dmarc='' @ DMARC r"
  have "\<not> sublist ''action=spam'' ?tail"
    using status_no_marker(1) [OF st(1)] status_no_marker(1) [OF st(2)] status_no_marker(2) [OF st(3)]
    by (simp add: sublist_Cons_right)
  moreover have "SpamStatusHeader r a = ''action='' @ a @ ?tail" by (simp add: SpamStatusHeader_def)
  ultimately show ?thesis
    using assms(2) unfolding strings_Contains_def Action_Valid_def
    by (elim disjE) (simp_all add: action_defs sublist_Cons_right)
qed

section \<open>Properties\<close>

text \<open>
  C23. DMARC's verdict. A message passes DMARC exactly when its From domain publishes a record and
  SPF passed with a domain aligned with it, or the first DKIM signature that verifies has an aligned
  domain, each in the mode the record asks for; it fails exactly when there is a record and neither
  holds. In every other case the status is none. Later signatures that verify do not count: when the
  first one is not aligned and SPF is not either, the message fails although a second, aligned
  signature verifies.
\<close>

theorem dmarc_verdict:
  fixes E ip m raw
  defines "r \<equiv> Check E ip m raw" and "d \<equiv> fromDomain E raw"
  shows "(DMARC r = StatusPass \<longleftrightarrow> d \<noteq> [] \<and> (\<exists>rc. dmarc_Lookup E d = Inr (Some rc) \<and>
            (SPF r = StatusPass \<and> aligned E (SPFDomain r) d (rec_SPFAlignment rc)
             \<or> (\<exists>v vs. verifying E raw = v # vs \<and> aligned E (ver_Domain v) d (rec_DKIMAlignment rc)))))
       \<and> (DMARC r = StatusFail \<longleftrightarrow> d \<noteq> [] \<and> (\<exists>rc. dmarc_Lookup E d = Inr (Some rc) \<and>
            \<not> (SPF r = StatusPass \<and> aligned E (SPFDomain r) d (rec_SPFAlignment rc))
            \<and> (\<forall>v vs. verifying E raw = v # vs \<longrightarrow> \<not> aligned E (ver_Domain v) d (rec_DKIMAlignment rc))))
       \<and> DMARC r \<in> {StatusPass, StatusFail, StatusNone}"
proof -
  have "DKIM r = StatusPass \<and> aligned E (DKIMDomain r) d a \<longleftrightarrow>
      (\<exists>v vs. verifying E raw = v # vs \<and> aligned E (ver_Domain v) d a)" for a
    using checkDKIM_verifying [of E raw] by (auto simp: r_def Check_sel split: list.splits)
  moreover have "DMARC r = fst (checkDMARC E d r)" unfolding r_def d_def by (rule Check_DMARC_status)
  ultimately show ?thesis by (auto simp: checkDMARC_def Let_def split: sum.splits option.splits)
qed

text \<open>
  Errors never penalise the sender. When the SPF lookup, the DKIM verification and the DMARC
  lookup all end in an error, every status is none and the message gets the policy's default
  action.
\<close>

lemma lookup_errors_do_not_penalise:
  assumes "\<And>ip d s. spf_CheckHost E ip d s = Inl (spf_err ip d s)"
    and "dkim_Verify E raw = (vers, Some (DkimError e))"
    and "\<And>d. dmarc_Lookup E d = Inl (dmarc_err d)"
  shows "Decide p (Check E ip m raw) = Default p \<and> SPF (Check E ip m raw) = StatusNone
       \<and> DKIM (Check E ip m raw) = StatusNone \<and> DMARC (Check E ip m raw) = StatusNone"
proof -
  have "fst (checkSPF E ip m) = StatusNone"
    by (simp add: checkSPF_def Let_def assms(1) split: option.splits)
  moreover have "fst (checkDKIM E raw) = StatusNone" by (simp add: checkDKIM_def assms(2))
  moreover have "fst (checkDMARC E d r) = StatusNone" for d r
    by (simp add: checkDMARC_def assms(3))
  ultimately show ?thesis by (simp add: Decide_def Check_sel Check_DMARC_status)
qed

text \<open>An environment in which every lookup fails, and one in which all succeed.\<close>

definition failing_env :: auth_env where
  "failing_env = \<lparr>env_utab = ascii_utab, spf_CheckHost = (\<lambda>_ _ _. Inl ''timeout''), spf_String = (\<lambda>_. ''fail''),
     dkim_Verify = (\<lambda>_. ([], Some (DkimError ''bad body''))), dmarc_Lookup = (\<lambda>_. Inl ''timeout''),
     EffectiveTLDPlusOne = (\<lambda>_. None), parse_address_list = (\<lambda>_. None)\<rparr>"

definition sample_policy :: policy where
  "sample_policy = \<lparr>SPFFail = ActionReject, SPFSoftfail = ActionSpam, DKIMFail = ActionInbox,
     DMARCFail = ActionReject, Default = ActionInbox\<rparr>"

text \<open>
  A message of a domain that asks for strict alignment, with the signature of a mailing list in front of
  its own. Both verify.
\<close>

definition two_signatures :: auth_env where
  "two_signatures = \<lparr>env_utab = ascii_utab, spf_CheckHost = (\<lambda>_ _ _. Inl ''timeout''), spf_String = (\<lambda>_. ''fail''),
     dkim_Verify = (\<lambda>_. ([\<lparr>ver_Domain = ''lists.org'', ver_Err = None\<rparr>, \<lparr>ver_Domain = ''a.com'', ver_Err = None\<rparr>], None)),
     dmarc_Lookup = (\<lambda>_. Inr (Some \<lparr>rec_Policy = ''reject'', rec_SPFAlignment = AlignmentStrict, rec_DKIMAlignment = AlignmentStrict\<rparr>)),
     EffectiveTLDPlusOne = (\<lambda>_. None), parse_address_list = (\<lambda>_. Some [([], ''me@a.com'')])\<rparr>"

lemma two_signatures_from: "fromDomain two_signatures (''From'' @ '': '' @ ''me'' @ CRLF @ CRLF) = ''a.com''"
proof -
  have key: "CanonicalMIMEHeaderKey ''From'' = ''From''"
    by (simp add: CanonicalMIMEHeaderKey_def is_token_char_def token_special_def ascii_upper_def ascii_lower_def char_of_def bit_0)
  have "read_continued_line CRLF = Some ([], [])"
    using read_line_CRLF [of "[]" "[]"] by (simp add: read_continued_line_def)
  then have "header_loop CRLF = ([], None, [])" by (subst header_loop.simps) simp
  then have "header_loop (''From'' @ '': '' @ ''me'' @ CRLF @ CRLF) = ([(''From'', ''me'')], None, [])"
    using header_loop_line [of "''From''" "''me''" CRLF] key by (simp add: line_ok_def starts_blank_def is_blank_def)
  then have "mail_ReadMessage (''From'' @ '': '' @ ''me'' @ CRLF @ CRLF) = Some ([(''From'', ''me'')], [])"
    by (simp add: mail_ReadMessage_def readHeader_def starts_blank_def is_blank_def)
  then show ?thesis
    by (simp add: fromDomain_def Header_AddressList_def Header_Get_def key two_signatures_def rune_eval)
qed

theorem dmarc_verdict_witness:
  "DMARC (Check two_signatures None [] (''From'' @ '': '' @ ''me'' @ CRLF @ CRLF)) = StatusFail
   \<and> (\<exists>v \<in> set (verifying two_signatures (''From'' @ '': '' @ ''me'' @ CRLF @ CRLF)). aligned two_signatures (ver_Domain v) ''a.com'' AlignmentStrict)"
proof
  let ?raw = "''From'' @ '': '' @ ''me'' @ CRLF @ CRLF"
  have low: "strings_ToLower ascii_utab ''a.com'' = ''a.com''" "strings_ToLower ascii_utab ''lists.org'' = ''lists.org''"
    by (simp_all add: rune_eval)
  have v: "verifying two_signatures ?raw = [\<lparr>ver_Domain = ''lists.org'', ver_Err = None\<rparr>, \<lparr>ver_Domain = ''a.com'', ver_Err = None\<rparr>]"
    by (simp add: verifying_def two_signatures_def)
  have u: "env_utab two_signatures = ascii_utab" by (simp add: two_signatures_def)
  have al: "\<not> aligned two_signatures ''lists.org'' ''a.com'' AlignmentStrict" "aligned two_signatures ''a.com'' ''a.com'' AlignmentStrict"
    by (simp_all add: aligned_def Let_def low u)
  have spf: "SPF (Check two_signatures None [] ?raw) = StatusNone" by (simp add: Check_sel checkSPF_def)
  have l: "dmarc_Lookup two_signatures d = Inr (Some \<lparr>rec_Policy = ''reject'', rec_SPFAlignment = AlignmentStrict, rec_DKIMAlignment = AlignmentStrict\<rparr>)" for d
    by (simp add: two_signatures_def)
  show "DMARC (Check two_signatures None [] ?raw) = StatusFail"
    using dmarc_verdict [of two_signatures None "[]" ?raw] unfolding two_signatures_from l spf v using al by simp
  show "\<exists>v \<in> set (verifying two_signatures ?raw). aligned two_signatures (ver_Domain v) ''a.com'' AlignmentStrict"
    unfolding v using al(2) by simp
qed

text \<open>
  C36. DKIM's verdict. The check passes with domain \<open>dn\<close> exactly when the verifier did not stop
  with an error other than too many signatures and the first signature that verified is one of
  \<open>dn\<close>. It fails exactly when there are signatures, no such error, and none verified.
\<close>

theorem dkim_verdict:
  "(checkDKIM E raw = (StatusPass, [], dn) \<longleftrightarrow>
      (\<forall>e. snd (dkim_Verify E raw) \<noteq> Some (DkimError e))
      \<and> (\<exists>v. find (\<lambda>v. ver_Err v = None) (fst (dkim_Verify E raw)) = Some v \<and> ver_Domain v = dn))
   \<and> (fst (checkDKIM E raw) = StatusFail \<longleftrightarrow>
      (\<forall>e. snd (dkim_Verify E raw) \<noteq> Some (DkimError e)) \<and> fst (dkim_Verify E raw) \<noteq> []
      \<and> find (\<lambda>v. ver_Err v = None) (fst (dkim_Verify E raw)) = None)"
proof -
  obtain vers err where v: "dkim_Verify E raw = (vers, err)" by fastforce
  consider e where "err = Some (DkimError e)" | "\<forall>e. err \<noteq> Some (DkimError e)" by blast
  then show ?thesis
  proof cases
    case 1
    with v show ?thesis by (simp add: checkDKIM_def)
  next
    case 2
    then have c: "checkDKIM E raw = (if vers = [] then (StatusNone, ''no signature'', []) else dkim_scan None vers)"
      using v by (auto simp: checkDKIM_def split: option.splits dkim_error.splits)
    show ?thesis
    proof (cases "find (\<lambda>v. ver_Err v = None) vers")
      case None
      with 2 v c dkim_scan_none [of vers None] show ?thesis by (cases vers) auto
    next
      case (Some u)
      then have "vers \<noteq> []" by auto
      with Some 2 v c dkim_scan_found [of vers u None] show ?thesis by simp
    qed
  qed
qed

end
