(* ===== verification/Config.thy ===== *)
theory Config
  imports Mailauth
begin

text \<open>
  The configuration (config.go): its records, \<^verbatim>\<open>Validate\<close> with its defaults and errors,
  \<^verbatim>\<open>LoadConfig\<close>, and the recipient allowlist \<^verbatim>\<open>AcceptsRecipient\<close>. Reading the file, the YAML
  decoder and \<^verbatim>\<open>bcrypt.Cost\<close> are parameters, and so is the order in which Go ranges over the map
  of the five policy settings.
\<close>

section \<open>Data\<close>

record push_config =
  VapidPublicKey :: bytes
  VapidPrivateKey :: bytes

record web_config =
  Username :: bytes
  PasswordBcrypt :: bytes
  Push :: "push_config option"

record config =
  Domain :: bytes
  SMTPListen :: bytes
  WebListen :: bytes
  DataDir :: bytes
  TLSCertDir :: bytes
  Recipients :: "bytes list"
  Web :: web_config
  Policy :: policy

datatype config_error =
    DomainRequired
  | RecipientsEmpty
  | BadRecipient nat bytes
  | UsernameRequired
  | PasswordRequired
  | PasswordNotBcrypt bytes
  | PublicKeyRequired
  | PrivateKeyRequired
  | BadPolicy bytes action

record config_env =
  cfg_utab :: utab
  bcrypt_Cost_err :: "bytes \<Rightarrow> bytes option"
  map_range :: "(bytes \<times> action) list \<Rightarrow> (bytes \<times> action) list"
  os_ReadFile :: "bytes \<Rightarrow> bytes + bytes"
  yaml_Unmarshal :: "bytes \<Rightarrow> bytes + config"

section \<open>Operations\<close>

text \<open>The normal form of an address: lower case, without surrounding white space.\<close>

definition norm_addr :: "utab \<Rightarrow> bytes \<Rightarrow> bytes" where
  "norm_addr T r = strings_ToLower T (strings_TrimSpace r)"

text \<open>The loop over the recipients: a bad entry is reported and left as it is.\<close>

fun validate_recipients :: "utab \<Rightarrow> nat \<Rightarrow> bytes list \<Rightarrow> config_error list \<times> bytes list" where
  "validate_recipients T i [] = ([], [])"
| "validate_recipients T i (r # rs) =
     (let r' = norm_addr T r in
      case validate_recipients T (Suc i) rs of (errs, out) \<Rightarrow>
        if r' = [] \<or> \<not> strings_Contains r' ''@'' then (BadRecipient i r' # errs, r # out)
        else (errs, r' # out))"

definition policy_settings :: "policy \<Rightarrow> (bytes \<times> action) list" where
  "policy_settings p =
     [(''policy.spf_fail'', SPFFail p), (''policy.spf_softfail'', SPFSoftfail p),
      (''policy.dkim_fail'', DKIMFail p), (''policy.dmarc_fail'', DMARCFail p),
      (''policy.default'', Default p)]"

definition validate_push :: "push_config option \<Rightarrow> config_error list" where
  "validate_push p =
     (case p of
        None \<Rightarrow> []
      | Some k \<Rightarrow> (if VapidPublicKey k = [] then [PublicKeyRequired] else [])
               @ (if VapidPrivateKey k = [] then [PrivateKeyRequired] else []))"

definition with_defaults :: "config \<Rightarrow> config" where
  "with_defaults c =
     (let c = (if SMTPListen c = [] then c\<lparr>SMTPListen := '':25''\<rparr> else c);
          c = (if WebListen c = [] then c\<lparr>WebListen := '':8080''\<rparr> else c)
      in if DataDir c = [] then c\<lparr>DataDir := ''./data''\<rparr> else c)"

text \<open>The errors in the order they are appended (empty means success) and the updated config.\<close>

definition Validate :: "config_env \<Rightarrow> config \<Rightarrow> config_error list \<times> config" where
  "Validate E c =
     (let e1 = (if Domain c = [] then [DomainRequired] else []);
          c = with_defaults c;
          e2 = (if Recipients c = [] then [RecipientsEmpty] else []);
          (e3, rs) = validate_recipients (cfg_utab E) 0 (Recipients c);
          c = c\<lparr>Recipients := rs\<rparr>;
          e4 = (if Username (Web c) = [] then [UsernameRequired] else []);
          e5 = (if PasswordBcrypt (Web c) = [] then [PasswordRequired]
                else case bcrypt_Cost_err E (PasswordBcrypt (Web c)) of
                       Some err \<Rightarrow> [PasswordNotBcrypt err] | None \<Rightarrow> []);
          e6 = validate_push (Push (Web c));
          e7 = map (\<lambda>(name, a). BadPolicy name a)
                 (filter (\<lambda>(name, a). \<not> Action_Valid a) (map_range E (policy_settings (Policy c))))
      in (e1 @ e2 @ e3 @ e4 @ e5 @ e6 @ e7, c))"

datatype load_error = ReadError bytes | ParseError bytes | InvalidConfig "config_error list"

definition LoadConfig :: "config_env \<Rightarrow> bytes \<Rightarrow> load_error + config" where
  "LoadConfig E path =
     (case os_ReadFile E path of
        Inl err \<Rightarrow> Inl (ReadError err)
      | Inr data \<Rightarrow>
          (case yaml_Unmarshal E data of
             Inl err \<Rightarrow> Inl (ParseError err)
           | Inr cfg \<Rightarrow>
               (case Validate E cfg of
                  (errs, cfg') \<Rightarrow> if errs \<noteq> [] then Inl (InvalidConfig errs) else Inr cfg')))"

definition AcceptsRecipient :: "utab \<Rightarrow> config \<Rightarrow> bytes \<Rightarrow> bool" where
  "AcceptsRecipient T c addr =
     (let addr = norm_addr T addr in
      list_ex (\<lambda>r. r = addr
                 \<or> strings_HasPrefix r ''*@'' \<and> strings_HasSuffix addr (drop 1 r)) (Recipients c))"

section \<open>Lemmas\<close>

lemma caseless_at [simp]: "caseless CHR ''@''"
  by (simp add: caseless_def)

lemma norm_addr_idem: "utab_ok T \<Longrightarrow> norm_addr T (norm_addr T a) = norm_addr T a"
  by (simp add: norm_addr_def TrimSpace_ToLower strings_TrimSpace_idem strings_ToLower_idem)

lemma norm_addr_ToLower: "utab_ok T \<Longrightarrow> norm_addr T (strings_ToLower T a) = norm_addr T a"
  by (simp add: norm_addr_def TrimSpace_ToLower strings_ToLower_idem)

text \<open>A recipient is an address or a pattern when the entry, as it is written, has an at sign.\<close>

definition recipient_ok :: "bytes \<Rightarrow> bool" where
  "recipient_ok r \<longleftrightarrow> CHR ''@'' \<in> set r"

lemma norm_addr_at: "utab_ok T \<Longrightarrow> CHR ''@'' \<in> set (norm_addr T r) \<longleftrightarrow> recipient_ok r"
  by (simp add: norm_addr_def ToLower_caseless TrimSpace_ascii unicode_IsSpace_def recipient_ok_def)

lemma norm_addr_nonempty: "utab_ok T \<Longrightarrow> recipient_ok r \<Longrightarrow> norm_addr T r \<noteq> []"
  using norm_addr_at [of T r] by auto

lemma validate_recipients_errs:
  "utab_ok T \<Longrightarrow> fst (validate_recipients T i rs) =
     map (\<lambda>(j, r). BadRecipient j (norm_addr T r)) (filter (\<lambda>(j, r). \<not> recipient_ok r) (enumerate i rs))"
  by (induction T i rs rule: validate_recipients.induct) (auto simp: Let_def norm_addr_at norm_addr_nonempty split: prod.splits)

lemma validate_recipients_none:
  "utab_ok T \<Longrightarrow> fst (validate_recipients T i rs) = [] \<longleftrightarrow> (\<forall>r \<in> set rs. recipient_ok r)"
  by (induction T i rs rule: validate_recipients.induct) (auto simp: Let_def norm_addr_at norm_addr_nonempty split: prod.splits)

lemma validate_recipients_out:
  "utab_ok T \<Longrightarrow> snd (validate_recipients T i rs) = map (\<lambda>r. if recipient_ok r then norm_addr T r else r) rs"
  by (induction T i rs rule: validate_recipients.induct) (auto simp: Let_def norm_addr_at norm_addr_nonempty split: prod.splits)

text \<open>
  What config.example.yaml asks of a configuration, field by field: each of the five actions is one
  of \<open>reject\<close>, \<open>spam\<close> and \<open>inbox\<close>. Then the normal form \<open>Validate\<close> gives it.
\<close>

definition policy_actions :: "bytes set" where
  "policy_actions = {''reject'', ''spam'', ''inbox''}"

definition policy_ok :: "policy \<Rightarrow> bool" where
  "policy_ok p \<longleftrightarrow>
     DMARCFail p \<in> policy_actions \<and> SPFFail p \<in> policy_actions \<and> SPFSoftfail p \<in> policy_actions
     \<and> DKIMFail p \<in> policy_actions \<and> Default p \<in> policy_actions"

lemma Action_Valid_iff: "Action_Valid a \<longleftrightarrow> a \<in> policy_actions"
  by (auto simp: Action_Valid_def action_defs policy_actions_def)

definition push_ok :: "push_config option \<Rightarrow> bool" where
  "push_ok p \<longleftrightarrow> (case p of None \<Rightarrow> True | Some k \<Rightarrow> VapidPublicKey k \<noteq> [] \<and> VapidPrivateKey k \<noteq> [])"

definition config_ok :: "config_env \<Rightarrow> config \<Rightarrow> bool" where
  "config_ok E c \<longleftrightarrow>
     Domain c \<noteq> [] \<and> Recipients c \<noteq> [] \<and> (\<forall>r \<in> set (Recipients c). recipient_ok r)
     \<and> Username (Web c) \<noteq> [] \<and> PasswordBcrypt (Web c) \<noteq> []
     \<and> bcrypt_Cost_err E (PasswordBcrypt (Web c)) = None \<and> push_ok (Push (Web c)) \<and> policy_ok (Policy c)"

definition normal_config :: "utab \<Rightarrow> config \<Rightarrow> config" where
  "normal_config T c = (with_defaults c)\<lparr>Recipients := map (norm_addr T) (Recipients c)\<rparr>"

lemma with_defaults_sel [simp]:
  "Domain (with_defaults c) = Domain c" "Recipients (with_defaults c) = Recipients c"
  "Web (with_defaults c) = Web c" "Policy (with_defaults c) = Policy c"
  "TLSCertDir (with_defaults c) = TLSCertDir c"
  by (simp_all add: with_defaults_def Let_def)

lemma with_defaults_filled:
  "SMTPListen (with_defaults c) \<noteq> [] \<and> WebListen (with_defaults c) \<noteq> [] \<and> DataDir (with_defaults c) \<noteq> []"
  by (simp add: with_defaults_def Let_def)

lemma with_defaults_id:
  "SMTPListen c \<noteq> [] \<Longrightarrow> WebListen c \<noteq> [] \<Longrightarrow> DataDir c \<noteq> [] \<Longrightarrow> with_defaults c = c"
  by (simp add: with_defaults_def)

lemma validate_push_ok: "validate_push p = [] \<longleftrightarrow> push_ok p"
  by (auto simp: validate_push_def push_ok_def split: option.splits)

lemma policy_errors_empty:
  assumes "\<And>xs. set (map_range E xs) = set xs"
  shows "filter (\<lambda>(name, a). \<not> Action_Valid a) (map_range E (policy_settings p)) = [] \<longleftrightarrow> policy_ok p"
  using assms [of "policy_settings p"] by (auto simp: filter_empty_conv policy_ok_def policy_settings_def Action_Valid_iff)

definition password_errs :: "config_env \<Rightarrow> bytes \<Rightarrow> config_error list" where
  "password_errs E h =
     (if h = [] then [PasswordRequired]
      else case bcrypt_Cost_err E h of Some err \<Rightarrow> [PasswordNotBcrypt err] | None \<Rightarrow> [])"

lemma password_errs_empty: "password_errs E h = [] \<longleftrightarrow> h \<noteq> [] \<and> bcrypt_Cost_err E h = None"
  by (simp add: password_errs_def split: option.splits)

text \<open>The two results of \<open>Validate\<close> with its local definitions put in place.\<close>

lemma Validate_fst:
  "fst (Validate E c) =
     (if Domain c = [] then [DomainRequired] else [])
     @ (if Recipients c = [] then [RecipientsEmpty] else [])
     @ fst (validate_recipients (cfg_utab E) 0 (Recipients c))
     @ (if Username (Web c) = [] then [UsernameRequired] else [])
     @ password_errs E (PasswordBcrypt (Web c))
     @ validate_push (Push (Web c))
     @ map (\<lambda>(name, a). BadPolicy name a)
         (filter (\<lambda>(name, a). \<not> Action_Valid a) (map_range E (policy_settings (Policy c))))"
  by (simp add: Validate_def Let_def password_errs_def case_prod_unfold)

lemma Validate_snd:
  "snd (Validate E c) =
     (with_defaults c)\<lparr>Recipients := snd (validate_recipients (cfg_utab E) 0 (Recipients c))\<rparr>"
  by (simp only: Validate_def Let_def case_prod_beta snd_conv with_defaults_sel)

lemma Validate_errs:
  assumes "\<And>xs. set (map_range E xs) = set xs" and "utab_ok (cfg_utab E)"
  shows "fst (Validate E c) = [] \<longleftrightarrow> config_ok E c"
  using policy_errors_empty [OF assms(1), of "Policy c"]
  by (simp add: Validate_fst validate_recipients_none [OF assms(2)] password_errs_empty validate_push_ok config_ok_def)

lemma config_ok_explicit:
  "config_ok E c \<longleftrightarrow>
     Domain c \<noteq> [] \<and> Recipients c \<noteq> [] \<and> (\<forall>r \<in> set (Recipients c). CHR ''@'' \<in> set r)
     \<and> Username (Web c) \<noteq> [] \<and> PasswordBcrypt (Web c) \<noteq> [] \<and> bcrypt_Cost_err E (PasswordBcrypt (Web c)) = None
     \<and> (\<forall>k. Push (Web c) = Some k \<longrightarrow> VapidPublicKey k \<noteq> [] \<and> VapidPrivateKey k \<noteq> [])
     \<and> {SPFFail (Policy c), SPFSoftfail (Policy c), DKIMFail (Policy c), DMARCFail (Policy c), Default (Policy c)}
         \<subseteq> {''reject'', ''spam'', ''inbox''}"
  by (auto simp: config_ok_def recipient_ok_def push_ok_def policy_ok_def policy_actions_def split: option.splits)

text \<open>Which errors name a policy setting, and which a recipient.\<close>

lemma other_errs [simp]:
  "BadPolicy n a \<notin> set (password_errs E h)" "BadRecipient i r \<notin> set (password_errs E h)"
  "BadPolicy n a \<notin> set (validate_push p)" "BadRecipient i r \<notin> set (validate_push p)"
  by (auto simp: password_errs_def validate_push_def split: option.splits if_splits)

lemma recipients_no_policy: "BadPolicy n a \<notin> set (fst (validate_recipients T i rs))"
  by (induction T i rs rule: validate_recipients.induct) (auto simp: Let_def split: prod.splits)

lemma Validate_bad_policy:
  assumes "\<And>xs. set (map_range E xs) = set xs"
  shows "BadPolicy name a \<in> set (fst (Validate E c)) \<longleftrightarrow>
     a \<notin> {''reject'', ''spam'', ''inbox''}
     \<and> (name, a) \<in> {(''policy.spf_fail'', SPFFail (Policy c)), (''policy.spf_softfail'', SPFSoftfail (Policy c)),
          (''policy.dkim_fail'', DKIMFail (Policy c)), (''policy.dmarc_fail'', DMARCFail (Policy c)),
          (''policy.default'', Default (Policy c))}"
proof -
  have "BadPolicy name a \<in> set (fst (Validate E c)) \<longleftrightarrow> (name, a) \<in> set (policy_settings (Policy c)) \<and> a \<notin> policy_actions"
    using assms by (auto simp: Validate_fst recipients_no_policy Action_Valid_iff)
  then show ?thesis unfolding policy_settings_def policy_actions_def by auto
qed

lemma Validate_bad_recipient:
  assumes "utab_ok (cfg_utab E)"
  shows "BadRecipient i r \<in> set (fst (Validate E c)) \<longleftrightarrow>
     i < length (Recipients c) \<and> CHR ''@'' \<notin> set (Recipients c ! i) \<and> r = norm_addr (cfg_utab E) (Recipients c ! i)"
  by (auto simp: Validate_fst validate_recipients_errs [OF assms] in_set_enumerate_eq recipient_ok_def
      image_iff)

lemma Validate_config:
  "utab_ok (cfg_utab E) \<Longrightarrow> snd (Validate E c) = (with_defaults c)\<lparr>Recipients :=
     map (\<lambda>r. if recipient_ok r then norm_addr (cfg_utab E) r else r) (Recipients c)\<rparr>"
  by (simp only: Validate_snd validate_recipients_out)

lemma Validate_normal:
  assumes "config_ok E c" and "utab_ok (cfg_utab E)"
  shows "snd (Validate E c) = normal_config (cfg_utab E) c"
proof -
  have "map (\<lambda>r. if recipient_ok r then norm_addr (cfg_utab E) r else r) (Recipients c)
          = map (norm_addr (cfg_utab E)) (Recipients c)"
    using assms by (auto simp: config_ok_def)
  then show ?thesis using assms(2) by (simp add: Validate_config normal_config_def)
qed

lemma LoadConfig_ok:
  assumes "\<And>xs. set (map_range E xs) = set xs" and "utab_ok (cfg_utab E)" and "LoadConfig E path = Inr cfg"
  shows "\<exists>data c0. os_ReadFile E path = Inr data \<and> yaml_Unmarshal E data = Inr c0 \<and> config_ok E c0
           \<and> cfg = normal_config (cfg_utab E) c0"
proof -
  obtain data c0 where r: "os_ReadFile E path = Inr data" "yaml_Unmarshal E data = Inr c0"
    and v: "Validate E c0 = ([], cfg)"
    using assms(3) by (auto simp: LoadConfig_def split: sum.splits prod.splits if_splits)
  from v Validate_errs [OF assms(1,2), of c0] have ok: "config_ok E c0" by simp
  with v Validate_normal [OF ok assms(2)] r show ?thesis by auto
qed

text \<open>A loaded configuration: its entries are normal and hold an at sign, its settings are valid.\<close>

definition loaded_config :: "utab \<Rightarrow> config \<Rightarrow> bool" where
  "loaded_config T c \<longleftrightarrow>
     Domain c \<noteq> [] \<and> Recipients c \<noteq> []
     \<and> list_all (\<lambda>r. CHR ''@'' \<in> set r \<and> norm_addr T r = r) (Recipients c)
     \<and> policy_ok (Policy c) \<and> SMTPListen c \<noteq> [] \<and> WebListen c \<noteq> [] \<and> DataDir c \<noteq> []"

lemma normal_config_loaded:
  "utab_ok (cfg_utab E) \<Longrightarrow> config_ok E c \<Longrightarrow> loaded_config (cfg_utab E) (normal_config (cfg_utab E) c)"
  using with_defaults_filled [of c]
  by (auto simp: loaded_config_def config_ok_def normal_config_def list_all_iff norm_addr_idem norm_addr_at)

lemma accepts_has_at:
  assumes "loaded_config T c" and "AcceptsRecipient T c a"
  shows "CHR ''@'' \<in> set (norm_addr T a)"
proof -
  obtain r where r: "r \<in> set (Recipients c)" and
    m: "r = norm_addr T a \<or> prefix ''*@'' r \<and> suffix (drop 1 r) (norm_addr T a)"
    using assms(2)
    by (auto simp: AcceptsRecipient_def Let_def list_ex_iff strings_HasPrefix_def strings_HasSuffix_def)
  from m show ?thesis
  proof
    assume "r = norm_addr T a"
    with r assms(1) show ?thesis by (auto simp: loaded_config_def list_all_iff)
  next
    assume p: "prefix ''*@'' r \<and> suffix (drop 1 r) (norm_addr T a)"
    then have "CHR ''@'' \<in> set (drop 1 r)" by (auto simp: prefix_def)
    with p show ?thesis by (auto dest: set_mono_suffix)
  qed
qed

section \<open>The allowlist as an interface\<close>

text \<open>
  What the SMTP receiver relies on of the allowlist: an accepted address holds an at sign in its
  normal form, and acceptance depends on the normal form only.
\<close>

locale recipient_filter =
  fixes ok :: "'c \<Rightarrow> bool" and accepts :: "'c \<Rightarrow> bytes \<Rightarrow> bool" and nf :: "'c \<Rightarrow> bytes \<Rightarrow> bytes"
  assumes accepts_at: "ok c \<Longrightarrow> accepts c a \<Longrightarrow> CHR ''@'' \<in> set (nf c a)"
    and accepts_cong: "ok c \<Longrightarrow> nf c a = nf c b \<Longrightarrow> accepts c a = accepts c b"
    and nf_nf: "ok c \<Longrightarrow> nf c (nf c a) = nf c a"
begin

lemma accepts_nf: "ok c \<Longrightarrow> accepts c (nf c a) = accepts c a"
  by (metis accepts_cong nf_nf)

lemma mailbox_not_special: "ok c \<Longrightarrow> accepts c a \<Longrightarrow> nf c a \<noteq> [] \<and> nf c a \<noteq> ''.'' \<and> nf c a \<noteq> ''..''"
  using accepts_at by fastforce

lemma rejects_without_at: "ok c \<Longrightarrow> CHR ''@'' \<notin> set (nf c a) \<Longrightarrow> \<not> accepts c a"
  using accepts_at by blast

end

interpretation allowlist: recipient_filter
  "\<lambda>(T, c). utab_ok T \<and> loaded_config T c" "\<lambda>(T, c). AcceptsRecipient T c" "\<lambda>(T, c). norm_addr T"
proof (unfold_locales, goal_cases)
  case (1 c a)
  then show ?case by (auto simp: split_beta intro: accepts_has_at)
next
  case (2 c a b)
  then show ?case by (auto simp: split_beta AcceptsRecipient_def Let_def)
next
  case (3 c a)
  then show ?case by (auto simp: split_beta norm_addr_idem)
qed

section \<open>Properties\<close>

text \<open>
  C34. Validation accepts exactly the well-formed configurations and names what is wrong. No error
  is reported if and only if the domain is set, there is a recipient and each has an at sign, the web
  user name is set, the password is a bcrypt hash, both push keys are set when push is on, and each
  of the five policy actions is \<open>reject\<close>, \<open>spam\<close> or \<open>inbox\<close>. A policy error is reported for exactly
  the settings with another action, under their name in the file, and a recipient error for exactly
  the entries without an at sign, under their position. The order in which Go ranges over the policy
  map does not matter.
\<close>

theorem validate_iff:
  assumes "\<And>xs. set (map_range E xs) = set xs" and "utab_ok (cfg_utab E)"
  shows "(fst (Validate E c) = [] \<longleftrightarrow>
       Domain c \<noteq> [] \<and> Recipients c \<noteq> [] \<and> (\<forall>r \<in> set (Recipients c). CHR ''@'' \<in> set r)
       \<and> Username (Web c) \<noteq> [] \<and> PasswordBcrypt (Web c) \<noteq> [] \<and> bcrypt_Cost_err E (PasswordBcrypt (Web c)) = None
       \<and> (\<forall>k. Push (Web c) = Some k \<longrightarrow> VapidPublicKey k \<noteq> [] \<and> VapidPrivateKey k \<noteq> [])
       \<and> {SPFFail (Policy c), SPFSoftfail (Policy c), DKIMFail (Policy c), DMARCFail (Policy c), Default (Policy c)}
           \<subseteq> {''reject'', ''spam'', ''inbox''})
    \<and> (\<forall>name a. BadPolicy name a \<in> set (fst (Validate E c)) \<longleftrightarrow>
         a \<notin> {''reject'', ''spam'', ''inbox''}
         \<and> (name, a) \<in> {(''policy.spf_fail'', SPFFail (Policy c)), (''policy.spf_softfail'', SPFSoftfail (Policy c)),
              (''policy.dkim_fail'', DKIMFail (Policy c)), (''policy.dmarc_fail'', DMARCFail (Policy c)),
              (''policy.default'', Default (Policy c))})
    \<and> (\<forall>i r. BadRecipient i r \<in> set (fst (Validate E c)) \<longleftrightarrow>
         i < length (Recipients c) \<and> CHR ''@'' \<notin> set (Recipients c ! i) \<and> r = norm_addr (cfg_utab E) (Recipients c ! i))"
  using Validate_errs [OF assms, of c] Validate_bad_policy [OF assms(1), of _ _ c] Validate_bad_recipient [OF assms(2), of _ _ c]
  by (simp only: config_ok_explicit simp_thms)

text \<open>
  C35. A configuration that loads is in normal form: its recipients are trimmed, lower-case and hold
  an at sign, every policy action is one of the three, and the listen addresses and the data
  directory are set. Validating it again reports nothing and changes nothing.
\<close>

theorem load_config_normal:
  assumes "\<And>xs. set (map_range E xs) = set xs" and "utab_ok (cfg_utab E)"
    and "LoadConfig E path = Inr cfg"
  shows "loaded_config (cfg_utab E) cfg \<and> Validate E cfg = ([], cfg)"
proof -
  obtain c0 where c0: "config_ok E c0" and cfg: "cfg = normal_config (cfg_utab E) c0"
    using LoadConfig_ok [OF assms] by blast
  have l: "loaded_config (cfg_utab E) cfg" using normal_config_loaded [OF assms(2) c0] cfg by simp
  have ok: "config_ok E cfg"
    using c0 cfg assms(2)
    by (auto simp: config_ok_def normal_config_def norm_addr_at norm_addr_idem recipient_ok_def)
  then have e: "fst (Validate E cfg) = []" using Validate_errs [OF assms(1,2)] by simp
  have "with_defaults cfg = cfg" using l by (intro with_defaults_id) (auto simp: loaded_config_def)
  moreover have "map (norm_addr (cfg_utab E)) (Recipients cfg) = Recipients cfg"
    using l by (auto simp: loaded_config_def list_all_iff intro: map_idI)
  ultimately have "snd (Validate E cfg) = cfg"
    using Validate_normal [OF ok assms(2)] by (simp add: normal_config_def)
  with l e show ?thesis by (metis prod.collapse)
qed

definition sample_config :: config where
  "sample_config = \<lparr>Domain = ''mx.example.com'', SMTPListen = [], WebListen = [], DataDir = [], TLSCertDir = [],
     Recipients = ['' Me@Example.com '', ''*@lists.example.com''],
     Web = \<lparr>Username = ''admin'', PasswordBcrypt = ''$2a$10$x'', Push = None\<rparr>, Policy = sample_policy\<rparr>"

definition sample_env :: config_env where
  "sample_env = \<lparr>cfg_utab = ascii_utab, bcrypt_Cost_err = (\<lambda>_. None), map_range = rev,
     os_ReadFile = (\<lambda>_. Inr ''yaml''), yaml_Unmarshal = (\<lambda>_. Inr sample_config)\<rparr>"

lemma sample_addr:
  "norm_addr ascii_utab '' Me@Example.com '' = ''me@example.com''"
  "norm_addr ascii_utab ''*@lists.example.com'' = ''*@lists.example.com''"
  by (simp_all add: norm_addr_def rune_eval)

lemma sample_config_ok: "config_ok sample_env sample_config"
  by (simp add: config_ok_def sample_env_def sample_config_def recipient_ok_def push_ok_def
      policy_ok_def policy_actions_def sample_policy_def action_defs)

lemma sample_utab: "utab_ok (cfg_utab sample_env)"
  by (simp add: sample_env_def)

lemma sample_load:
  "LoadConfig sample_env ''config.yaml'' = Inr (normal_config ascii_utab sample_config)"
proof -
  have "fst (Validate sample_env sample_config) = []"
    using Validate_errs [of sample_env sample_config] sample_config_ok by (simp add: sample_env_def)
  then have "Validate sample_env sample_config = ([], normal_config ascii_utab sample_config)"
    using Validate_normal [OF sample_config_ok sample_utab] by (simp add: prod_eq_iff) (simp add: sample_env_def)
  then show ?thesis by (simp add: LoadConfig_def) (simp add: sample_env_def)
qed

text \<open>The sample is accepted; with a mistyped action for a DMARC failure it is not.\<close>

theorem validate_iff_witness:
  "fst (Validate sample_env sample_config) = []
   \<and> BadPolicy ''policy.dmarc_fail'' ''drop''
       \<in> set (fst (Validate sample_env (sample_config\<lparr>Policy := sample_policy\<lparr>DMARCFail := ''drop''\<rparr>\<rparr>)))"
proof
  have m: "\<And>xs. set (map_range sample_env xs) = set xs" by (simp add: sample_env_def)
  show "fst (Validate sample_env sample_config) = []"
    using validate_iff [OF m sample_utab, of sample_config] sample_config_ok unfolding config_ok_explicit by blast
  show "BadPolicy ''policy.dmarc_fail'' ''drop''
      \<in> set (fst (Validate sample_env (sample_config\<lparr>Policy := sample_policy\<lparr>DMARCFail := ''drop''\<rparr>\<rparr>)))"
    using validate_iff [OF m sample_utab, of "sample_config\<lparr>Policy := sample_policy\<lparr>DMARCFail := ''drop''\<rparr>\<rparr>"] by simp
qed

theorem load_config_normal_witness:
  "loaded_config ascii_utab (normal_config ascii_utab sample_config)"
  using load_config_normal [OF _ _ sample_load] by (simp add: sample_env_def)

text \<open>
  Wildcards match whole domains. For an address whose normal form is \<open>local@dm\<close>, and a
  list whose wildcard entries name plain domains, the address is accepted exactly when it is
  listed or \<open>*@dm\<close> is: no subdomain and no domain with a longer name slips through.
\<close>

lemma wildcard_exact:
  assumes "norm_addr T addr = local @ ''@'' @ dm" and "CHR ''@'' \<notin> set dm"
    and "\<And>d. ''*@'' @ d \<in> set (Recipients c) \<Longrightarrow> CHR ''@'' \<notin> set d"
  shows "AcceptsRecipient T c addr \<longleftrightarrow>
           local @ ''@'' @ dm \<in> set (Recipients c) \<or> ''*@'' @ dm \<in> set (Recipients c)"
proof -
  have sfx: "suffix (''@'' @ d) (local @ ''@'' @ dm) \<longleftrightarrow> d = dm" if "CHR ''@'' \<notin> set d" for d
  proof
    assume "suffix (''@'' @ d) (local @ ''@'' @ dm)"
    then obtain p where "local @ CHR ''@'' # dm = p @ CHR ''@'' # d" by (auto simp: suffix_def)
    then show "d = dm"
      using append_last_sep_unique [OF _ assms(2) that] by blast
  next
    assume "d = dm"
    then show "suffix (''@'' @ d) (local @ ''@'' @ dm)" by (auto simp: suffix_def)
  qed
  have "AcceptsRecipient T c addr \<longleftrightarrow>
          local @ ''@'' @ dm \<in> set (Recipients c)
          \<or> (\<exists>d. ''*@'' @ d \<in> set (Recipients c) \<and> suffix (''@'' @ d) (local @ ''@'' @ dm))"
    unfolding AcceptsRecipient_def Let_def assms(1) list_ex_iff strings_HasPrefix_def strings_HasSuffix_def
    by (auto simp: prefix_def)
  then show ?thesis using sfx assms(3) by blast
qed

end
