(* ===== verification/FileSystem.thy ===== *)
theory FileSystem
  imports GoStrings "HOL-Library.AList"
begin

text \<open>
  Go's \<^verbatim>\<open>path/filepath\<close> (\<^verbatim>\<open>Clean\<close>, \<^verbatim>\<open>Join\<close>, \<^verbatim>\<open>Dir\<close>) and the calls of package \<^verbatim>\<open>os\<close> the program
  makes, on an explicit file system: a finite list of paths with a directory or a file's bytes
  at each. Every call may also fail for a reason outside the model (permissions, a full disk);
  those failures come from the record \<open>os_env\<close>, which also holds the clock, the process id, the
  host name and the random bytes.
\<close>

section \<open>Paths\<close>

text \<open>A cleaned path: whether it is rooted, and its components.\<close>

type_synonym path = "bool \<times> bytes list"

fun clean :: "bool \<Rightarrow> bytes list \<Rightarrow> bytes list \<Rightarrow> bytes list" where
  "clean rooted acc [] = rev acc"
| "clean rooted acc (c # cs) =
     (if c = [] \<or> c = ''.'' then clean rooted acc cs
      else if c = ''..'' then
        (case acc of
           [] \<Rightarrow> if rooted then clean rooted [] cs else clean rooted [''..''] cs
         | a # as \<Rightarrow> if a = ''..'' then clean rooted (''..'' # acc) cs else clean rooted as cs)
      else clean rooted (c # acc) cs)"

definition filepath_Clean :: "bytes \<Rightarrow> path" where
  "filepath_Clean s =
     (let rooted = strings_HasPrefix s ''/'' in (rooted, clean rooted [] (strings_Split s SLASH)))"

definition filepath_Join :: "path \<Rightarrow> bytes list \<Rightarrow> path" where
  "filepath_Join p es =
     (fst p, clean (fst p) [] (snd p @ concat (map (\<lambda>e. strings_Split e SLASH) es)))"

definition filepath_Dir :: "path \<Rightarrow> path" where
  "filepath_Dir p = (fst p, butlast (snd p))"

text \<open>A name that stands for itself as a path component.\<close>

definition plain :: "bytes \<Rightarrow> bool" where
  "plain c \<longleftrightarrow> c \<noteq> [] \<and> c \<noteq> ''.'' \<and> c \<noteq> ''..'' \<and> SLASH \<notin> set c"

definition cleaned :: "path \<Rightarrow> bool" where
  "cleaned p \<longleftrightarrow> clean (fst p) [] (snd p) = snd p"

lemma clean_plain: "\<forall>c \<in> set cs. c \<noteq> [] \<and> c \<noteq> ''.'' \<and> c \<noteq> ''..'' \<Longrightarrow> clean b acc cs = rev acc @ cs"
  by (induction cs arbitrary: acc) auto

lemma clean_append: "clean b acc (xs @ ys) = clean b (rev (clean b acc xs)) ys"
  by (induction b acc xs rule: clean.induct) (auto split: list.splits)

lemma Join_plain:
  assumes "cleaned p" and "\<forall>e \<in> set es. plain e"
  shows "filepath_Join p es = (fst p, snd p @ es)"
proof -
  have "concat (map (\<lambda>e. strings_Split e SLASH) es) = es"
    using assms(2) by (induction es) (auto simp: plain_def strings_Split_absent)
  moreover have "clean (fst p) [] (snd p @ es) = snd p @ es"
    using assms by (simp add: clean_append cleaned_def clean_plain plain_def)
  ultimately show ?thesis by (simp add: filepath_Join_def)
qed

lemma cleaned_Join:
  assumes "cleaned p" and "\<forall>e \<in> set es. plain e"
  shows "cleaned (filepath_Join p es)"
proof -
  have "clean (fst p) [] (snd p @ es) = snd p @ es"
    using assms by (simp add: clean_append cleaned_def clean_plain plain_def)
  then show ?thesis by (simp add: Join_plain [OF assms] cleaned_def)
qed

text \<open>Cleaning leaves dot-dot components only in front of an unrooted path.\<close>

definition acc_ok :: "bool \<Rightarrow> bytes list \<Rightarrow> bool" where
  "acc_ok b acc \<longleftrightarrow> (\<exists>n ps. rev acc = replicate n ''..'' @ ps \<and> (b \<longrightarrow> n = 0)
     \<and> (\<forall>c \<in> set ps. c \<noteq> [] \<and> c \<noteq> ''.'' \<and> c \<noteq> ''..''))"

lemma acc_ok_rooted: "acc_ok b acc \<Longrightarrow> ''..'' \<in> set acc \<Longrightarrow> \<not> b"
  unfolding acc_ok_def by (metis append_Nil replicate_0 set_rev)

lemma clean_dots: "clean False acc (replicate n ''..'') = rev acc @ replicate n ''..''"
  if "\<forall>c \<in> set acc. c = ''..''"
  using that
proof (induction n arbitrary: acc)
  case 0
  then show ?case by simp
next
  case (Suc n)
  then have "clean False (''..'' # acc) (replicate n ''..'') = rev (''..'' # acc) @ replicate n ''..''"
    by simp
  with Suc.prems show ?case by (cases acc) auto
qed

lemma clean_acc_ok:
  assumes "acc_ok b acc"
  shows "clean b [] (rev acc) = rev acc"
proof -
  obtain n ps where r: "rev acc = replicate n ''..'' @ ps" and n: "b \<longrightarrow> n = 0"
    and ps: "\<forall>c \<in> set ps. c \<noteq> [] \<and> c \<noteq> ''.'' \<and> c \<noteq> ''..''"
    using assms by (auto simp: acc_ok_def)
  have "clean b [] (replicate n ''..'') = replicate n ''..''"
    using n clean_dots [of "[]" n] by (cases b) auto
  then show ?thesis using ps by (simp add: r clean_append clean_plain)
qed

lemma acc_ok_push:
  assumes "acc_ok b acc" and "c \<noteq> []" and "c \<noteq> ''.''" and "c \<noteq> ''..''"
  shows "acc_ok b (c # acc)"
proof -
  obtain n ps where "rev acc = replicate n ''..'' @ ps" and "b \<longrightarrow> n = 0"
    and "\<forall>c \<in> set ps. c \<noteq> [] \<and> c \<noteq> ''.'' \<and> c \<noteq> ''..''"
    using assms(1) by (auto simp: acc_ok_def)
  then have "rev (c # acc) = replicate n ''..'' @ (ps @ [c]) \<and> (b \<longrightarrow> n = 0)
      \<and> (\<forall>c \<in> set (ps @ [c]). c \<noteq> [] \<and> c \<noteq> ''.'' \<and> c \<noteq> ''..'')"
    using assms(2-4) by simp
  then show ?thesis unfolding acc_ok_def by blast
qed

lemma acc_ok_pop:
  assumes "acc_ok b (a # acc)" and "a \<noteq> ''..''"
  shows "acc_ok b acc"
proof -
  obtain n ps where r: "rev acc @ [a] = replicate n ''..'' @ ps" and n: "b \<longrightarrow> n = 0"
    and ps: "\<forall>c \<in> set ps. c \<noteq> [] \<and> c \<noteq> ''.'' \<and> c \<noteq> ''..''"
    using assms(1) by (auto simp: acc_ok_def)
  have "ps \<noteq> []"
  proof
    assume "ps = []"
    with r have "a \<in> set (replicate n ''..'')" by (metis append_Nil2 in_set_conv_decomp)
    with assms(2) show False by (simp split: if_splits)
  qed
  then have "rev acc = replicate n ''..'' @ butlast ps"
    using r by (metis butlast_append butlast_snoc)
  moreover have "\<forall>c \<in> set (butlast ps). c \<noteq> [] \<and> c \<noteq> ''.'' \<and> c \<noteq> ''..''"
    using ps by (auto dest: in_set_butlastD)
  ultimately show ?thesis using n by (auto simp: acc_ok_def)
qed

lemma acc_ok_dots:
  assumes "acc_ok False acc" and "acc = [] \<or> hd acc = ''..''"
  shows "acc_ok False (''..'' # acc)"
proof -
  obtain n ps where r: "rev acc = replicate n ''..'' @ ps"
    and ps: "\<forall>c \<in> set ps. c \<noteq> [] \<and> c \<noteq> ''.'' \<and> c \<noteq> ''..''"
    using assms(1) by (auto simp: acc_ok_def)
  have "ps = []"
  proof (rule ccontr)
    assume ne: "ps \<noteq> []"
    then have "last (rev acc) = last ps" using r by simp
    moreover have "acc \<noteq> []" using r ne by auto
    ultimately have "hd acc = last ps" by (simp add: last_rev)
    with assms(2) ps ne \<open>acc \<noteq> []\<close> show False by (metis last_in_set)
  qed
  then have "rev (''..'' # acc) = replicate (Suc n) ''..'' @ []"
    using r by (simp add: replicate_append_same)
  then show ?thesis unfolding acc_ok_def by fastforce
qed

lemma clean_result_ok: "acc_ok b acc \<Longrightarrow> acc_ok b (rev (clean b acc cs))"
proof (induction b acc cs rule: clean.induct)
  case (1 b acc)
  then show ?case by simp
next
  case (2 b acc c cs)
  show ?case
  proof (cases "c = [] \<or> c = ''.''")
    case True
    with 2 show ?thesis by auto
  next
    case dots: False
    show ?thesis
    proof (cases "c = ''..''")
      case False
      with 2 dots show ?thesis by (simp add: acc_ok_push)
    next
      case True
      show ?thesis
      proof (cases acc)
        case Nil
        with 2 True acc_ok_dots [of "[]"] show ?thesis by (cases b) auto
      next
        case (Cons a as)
        show ?thesis
        proof (cases "a = ''..''")
          case False
          with 2 True Cons acc_ok_pop [of b a as] show ?thesis by auto
        next
          case a: True
          then have "\<not> b" using "2.prems" Cons acc_ok_rooted [of b acc] by auto
          with 2 True Cons a acc_ok_dots [of acc] show ?thesis by auto
        qed
      qed
    qed
  qed
qed

lemma cleaned_Clean [simp]: "cleaned (filepath_Clean s)"
proof -
  let ?b = "strings_HasPrefix s ''/''"
  have "acc_ok ?b (rev (clean ?b [] (strings_Split s SLASH)))"
    by (rule clean_result_ok) (auto simp: acc_ok_def)
  then show ?thesis using clean_acc_ok by (fastforce simp: cleaned_def filepath_Clean_def Let_def)
qed

section \<open>The file system\<close>

datatype node = DirNode | FileNode bytes

type_synonym fs = "(path \<times> node) list"

datatype io_error = ErrNotExist | ErrExist | ErrInvalid bytes | ErrOther bytes

datatype syscall =
    SysMkdir | SysCreate | SysSync | SysClose | SysRename | SysRemove | SysReadDir | SysOpen | SysReadFile | SysStat

text \<open>
  \<open>sys_fail\<close> makes a call on a path fail; \<open>short_write\<close> makes a write to a path stop with an
  error after some bytes; \<open>rand_read\<close> is \<open>None\<close> when the random source fails.
\<close>

record os_env =
  sys_fail :: "syscall \<Rightarrow> path \<Rightarrow> io_error option"
  short_write :: "path \<Rightarrow> nat option"
  now_nano :: int
  getpid :: int
  hostname :: bytes
  rand_read :: "bytes option"

definition no_faults :: "os_env \<Rightarrow> bool" where
  "no_faults W \<longleftrightarrow> (\<forall>c p. sys_fail W c p = None) \<and> rand_read W \<noteq> None"

definition full_writes :: "os_env \<Rightarrow> bool" where
  "full_writes W \<longleftrightarrow> (\<forall>p. short_write W p = None)"

abbreviation fs_at :: "fs \<Rightarrow> path \<Rightarrow> node option" where
  "fs_at \<equiv> map_of"

definition is_dir :: "fs \<Rightarrow> path \<Rightarrow> bool" where
  "is_dir F p \<longleftrightarrow> fs_at F p = Some DirNode"

text \<open>A failure from outside wins; otherwise the call goes on.\<close>

definition guarded :: "os_env \<Rightarrow> syscall \<Rightarrow> path \<Rightarrow> io_error + 'a \<Rightarrow> io_error + 'a" where
  "guarded W c p r = (case sys_fail W c p of Some e \<Rightarrow> Inl e | None \<Rightarrow> r)"

text \<open>\<^verbatim>\<open>os.MkdirAll\<close>: every missing ancestor is made a directory; a file on the way is an error.\<close>

fun mkdir_all :: "fs \<Rightarrow> bool \<Rightarrow> bytes list \<Rightarrow> bytes list \<Rightarrow> io_error + fs" where
  "mkdir_all F b done [] = Inr F"
| "mkdir_all F b done (c # cs) =
     (case fs_at F (b, done @ [c]) of
        Some (FileNode _) \<Rightarrow> Inl (ErrOther ''not a directory'')
      | Some DirNode \<Rightarrow> mkdir_all F b (done @ [c]) cs
      | None \<Rightarrow> mkdir_all (AList.update (b, done @ [c]) DirNode F) b (done @ [c]) cs)"

definition os_MkdirAll :: "os_env \<Rightarrow> fs \<Rightarrow> path \<Rightarrow> io_error + fs" where
  "os_MkdirAll W F p = guarded W SysMkdir p (mkdir_all F (fst p) [] (snd p))"

text \<open>\<^verbatim>\<open>os.OpenFile\<close> with \<^verbatim>\<open>O_CREATE|O_EXCL\<close>: a new empty file.\<close>

definition os_CreateExcl :: "os_env \<Rightarrow> fs \<Rightarrow> path \<Rightarrow> io_error + fs" where
  "os_CreateExcl W F p =
     guarded W SysCreate p
       (if fs_at F p \<noteq> None then Inl ErrExist
        else if \<not> is_dir F (filepath_Dir p) then Inl ErrNotExist
        else Inr (AList.update p (FileNode []) F))"

text \<open>\<^verbatim>\<open>File.Write\<close> on the file just made: all bytes, or fewer and an error.\<close>

definition os_Write :: "os_env \<Rightarrow> fs \<Rightarrow> path \<Rightarrow> bytes \<Rightarrow> io_error option \<times> fs" where
  "os_Write W F p msg =
     (case short_write W p of
        None \<Rightarrow> (None, AList.update p (FileNode msg) F)
      | Some n \<Rightarrow> (Some (ErrOther ''write''), AList.update p (FileNode (take n msg)) F))"

definition os_Rename :: "os_env \<Rightarrow> fs \<Rightarrow> path \<Rightarrow> path \<Rightarrow> io_error + fs" where
  "os_Rename W F p q =
     guarded W SysRename p
       (case fs_at F p of
          Some (FileNode m) \<Rightarrow>
            if \<not> is_dir F (filepath_Dir q) then Inl ErrNotExist
            else if is_dir F q then Inl ErrExist
            else Inr (AList.update q (FileNode m) (AList.delete p F))
        | Some DirNode \<Rightarrow> Inl (ErrOther ''is a directory'')
        | None \<Rightarrow> Inl ErrNotExist)"

definition os_Remove :: "os_env \<Rightarrow> fs \<Rightarrow> path \<Rightarrow> io_error + fs" where
  "os_Remove W F p =
     guarded W SysRemove p
       (case fs_at F p of
          None \<Rightarrow> Inl ErrNotExist
        | Some (FileNode _) \<Rightarrow> Inr (AList.delete p F)
        | Some DirNode \<Rightarrow>
            if list_ex (\<lambda>(q, _). snd q \<noteq> [] \<and> filepath_Dir q = p) F then Inl (ErrOther ''not empty'')
            else Inr (AList.delete p F))"

text \<open>\<^verbatim>\<open>os.ReadDir\<close>: the entries sorted by name, each with whether it is a directory.\<close>

definition dir_names :: "fs \<Rightarrow> path \<Rightarrow> bytes list" where
  "dir_names F p = sort (map (\<lambda>(q, _). last (snd q)) (filter (\<lambda>(q, _). snd q \<noteq> [] \<and> filepath_Dir q = p) F))"

definition child :: "path \<Rightarrow> bytes \<Rightarrow> path" where
  "child p n = (fst p, snd p @ [n])"

definition os_ReadDir :: "os_env \<Rightarrow> fs \<Rightarrow> path \<Rightarrow> io_error + (bytes \<times> bool) list" where
  "os_ReadDir W F p =
     guarded W SysReadDir p
       (case fs_at F p of
          None \<Rightarrow> Inl ErrNotExist
        | Some (FileNode _) \<Rightarrow> Inl (ErrOther ''not a directory'')
        | Some DirNode \<Rightarrow> Inr (map (\<lambda>n. (n, is_dir F (child p n))) (dir_names F p)))"

definition os_Stat :: "os_env \<Rightarrow> fs \<Rightarrow> path \<Rightarrow> io_error + node" where
  "os_Stat W F p = guarded W SysStat p (case fs_at F p of None \<Rightarrow> Inl ErrNotExist | Some n \<Rightarrow> Inr n)"

definition os_ReadFile_at :: "syscall \<Rightarrow> os_env \<Rightarrow> fs \<Rightarrow> path \<Rightarrow> io_error + bytes" where
  "os_ReadFile_at c W F p =
     guarded W c p
       (case fs_at F p of
          None \<Rightarrow> Inl ErrNotExist
        | Some DirNode \<Rightarrow> Inl (ErrOther ''is a directory'')
        | Some (FileNode m) \<Rightarrow> Inr m)"

section \<open>Lemmas on the calls\<close>

lemma guarded_no_fault [simp]: "no_faults W \<Longrightarrow> guarded W c p r = r"
  by (cases p) (simp add: guarded_def no_faults_def)

lemma guarded_Inr: "guarded W c p r = Inr x \<Longrightarrow> r = Inr x"
  by (simp add: guarded_def split: option.splits)

text \<open>The well-formed file systems: one node per path.\<close>

definition fs_wf :: "fs \<Rightarrow> bool" where
  "fs_wf F \<longleftrightarrow> distinct (map fst F)"

lemma fs_wf_update [simp]: "fs_wf F \<Longrightarrow> fs_wf (AList.update p n F)"
  by (simp add: fs_wf_def distinct_update)

lemma fs_wf_delete [simp]: "fs_wf F \<Longrightarrow> fs_wf (AList.delete p F)"
  by (simp add: fs_wf_def distinct_delete)

lemma fs_at_update [simp]: "fs_at (AList.update p n F) q = (if q = p then Some n else fs_at F q)"
  by (simp add: update_conv')

lemma fs_at_delete [simp]: "fs_at (AList.delete p F) q = (if q = p then None else fs_at F q)"
  by (simp add: delete_conv')

lemma is_dir_update: "is_dir (AList.update p n F) q \<longleftrightarrow> (if q = p then n = DirNode else is_dir F q)"
  by (simp add: is_dir_def)

lemma child_eq [simp]: "child p n = child q m \<longleftrightarrow> p = q \<and> n = m"
  by (auto simp: child_def prod_eq_iff)

lemma Dir_child [simp]: "filepath_Dir (child p n) = p"
  by (simp add: filepath_Dir_def child_def)

lemma child_neq [simp]: "child p n \<noteq> p" "p \<noteq> child p n" "child (child p m) n \<noteq> p" "p \<noteq> child (child p m) n"
  by (auto simp: child_def prod_eq_iff)

lemma child_of_Dir: "snd q \<noteq> [] \<Longrightarrow> child (filepath_Dir q) (last (snd q)) = q"
  by (simp add: child_def filepath_Dir_def prod_eq_iff)

lemma set_dir_names: "n \<in> set (dir_names F p) \<longleftrightarrow> fs_at F (child p n) \<noteq> None"
proof
  assume "n \<in> set (dir_names F p)"
  then obtain q m where "(q, m) \<in> set F" "snd q \<noteq> []" "filepath_Dir q = p" "n = last (snd q)"
    by (auto simp: dir_names_def)
  then have "(child p n, m) \<in> set F" using child_of_Dir by metis
  then show "fs_at F (child p n) \<noteq> None" by (metis option.distinct(1) weak_map_of_SomeI)
next
  assume "fs_at F (child p n) \<noteq> None"
  then obtain m where "(child p n, m) \<in> set F" by (auto dest: map_of_SomeD)
  then have "child p n \<in> fst ` {x \<in> set F. snd (fst x) \<noteq> [] \<and> filepath_Dir (fst x) = p}"
    by (force simp: child_def filepath_Dir_def)
  then have "last (snd (child p n)) \<in> set (dir_names F p)"
    by (force simp: dir_names_def)
  then show "n \<in> set (dir_names F p)" by (simp add: child_def)
qed

lemma distinct_dir_names: "fs_wf F \<Longrightarrow> distinct (dir_names F p)"
proof -
  assume wf: "fs_wf F"
  let ?G = "filter (\<lambda>(q, _). snd q \<noteq> [] \<and> filepath_Dir q = p) F"
  have "distinct (map fst ?G)" using wf by (simp add: fs_wf_def distinct_map_filter)
  moreover have "inj_on (\<lambda>q. last (snd q)) (set (map fst ?G))"
  proof (rule inj_onI)
    fix x y
    assume "x \<in> set (map fst ?G)" and "y \<in> set (map fst ?G)" and l: "last (snd x) = last (snd y)"
    then have "snd x \<noteq> []" "filepath_Dir x = p" "snd y \<noteq> []" "filepath_Dir y = p" by auto
    with l child_of_Dir [of x] child_of_Dir [of y] show "x = y" by simp
  qed
  ultimately have "distinct (map (\<lambda>q. last (snd q)) (map fst ?G))" by (simp only: distinct_map)
  moreover have "map (\<lambda>(q, _). last (snd q)) ?G = map (\<lambda>q. last (snd q)) (map fst ?G)"
    by (simp add: case_prod_beta o_def)
  ultimately show ?thesis by (simp only: dir_names_def distinct_sort)
qed

lemma sorted_dir_names: "sorted (dir_names F p)"
  by (simp add: dir_names_def)

text \<open>\<open>MkdirAll\<close> only adds directories, and makes the path one.\<close>

lemma mkdir_all_Cons:
  assumes "mkdir_all F b d (c # cs) = Inr F'"
  obtains F1 where "mkdir_all F1 b (d @ [c]) cs = Inr F'"
    and "F1 = F \<and> fs_at F (b, d @ [c]) = Some DirNode
         \<or> F1 = AList.update (b, d @ [c]) DirNode F \<and> fs_at F (b, d @ [c]) = None"
  using assms by (auto split: option.splits node.splits)

lemma mkdir_all_keeps:
  "mkdir_all F b d cs = Inr F' \<Longrightarrow> fs_at F q = Some n \<Longrightarrow> fs_at F' q = Some n"
proof (induction cs arbitrary: F d)
  case Nil
  then show ?case by simp
next
  case (Cons c cs)
  from Cons.prems(1) obtain F1 where F1: "mkdir_all F1 b (d @ [c]) cs = Inr F'"
    and "F1 = F \<or> F1 = AList.update (b, d @ [c]) DirNode F \<and> fs_at F (b, d @ [c]) = None"
    by (rule mkdir_all_Cons) auto
  then have "fs_at F1 q = Some n" using Cons.prems(2) by auto
  with F1 show ?case by (rule Cons.IH)
qed

lemma mkdir_all_new:
  "mkdir_all F b d cs = Inr F' \<Longrightarrow> fs_at F q = None \<Longrightarrow> fs_at F' q = Some n \<Longrightarrow>
     n = DirNode \<and> (\<exists>xs. xs \<noteq> [] \<and> prefix xs cs \<and> q = (b, d @ xs))"
proof (induction cs arbitrary: F d)
  case Nil
  then show ?case by simp
next
  case (Cons c cs)
  from Cons.prems(1) obtain F1 where F1: "mkdir_all F1 b (d @ [c]) cs = Inr F'"
    "F1 = F \<or> F1 = AList.update (b, d @ [c]) DirNode F"
    by (rule mkdir_all_Cons) auto
  show ?case
  proof (cases "fs_at F1 q")
    case None
    with Cons.IH [OF F1(1) None Cons.prems(3)] obtain xs where
      "n = DirNode" "prefix xs cs" "q = (b, (d @ [c]) @ xs)" by auto
    then have "n = DirNode \<and> c # xs \<noteq> [] \<and> prefix (c # xs) (c # cs) \<and> q = (b, d @ (c # xs))" by simp
    then show ?thesis by blast
  next
    case (Some m)
    with F1(2) Cons.prems(2) have "m = DirNode" "q = (b, d @ [c])" by (auto split: if_splits)
    moreover have "n = m" using mkdir_all_keeps [OF F1(1) Some] Cons.prems(3) by simp
    moreover have "prefix [c] (c # cs)" by simp
    ultimately show ?thesis by blast
  qed
qed

lemma mkdir_all_dir:
  "mkdir_all F b d cs = Inr F' \<Longrightarrow> xs \<noteq> [] \<Longrightarrow> prefix xs cs \<Longrightarrow> is_dir F' (b, d @ xs)"
proof (induction cs arbitrary: F d xs)
  case Nil
  then show ?case by simp
next
  case (Cons c cs)
  from Cons.prems(1) obtain F1 where F1: "mkdir_all F1 b (d @ [c]) cs = Inr F'"
    "fs_at F1 (b, d @ [c]) = Some DirNode"
    by (rule mkdir_all_Cons) (auto simp: is_dir_def)
  obtain ys where xs: "xs = c # ys" and ys: "prefix ys cs"
    using Cons.prems(2,3) by (cases xs) auto
  show ?case
  proof (cases "ys = []")
    case True
    with xs mkdir_all_keeps [OF F1] show ?thesis by (simp add: is_dir_def)
  next
    case False
    with Cons.IH [OF F1(1) False ys] xs show ?thesis by simp
  qed
qed

lemma mkdir_all_wf: "mkdir_all F b d cs = Inr F' \<Longrightarrow> fs_wf F \<Longrightarrow> fs_wf F'"
proof (induction cs arbitrary: F d)
  case Nil
  then show ?case by simp
next
  case (Cons c cs)
  from Cons.prems(1) show ?case
    by (rule mkdir_all_Cons) (use Cons in auto)
qed

lemma mkdir_all_succeeds:
  "(\<And>xs m. xs \<noteq> [] \<Longrightarrow> prefix xs cs \<Longrightarrow> fs_at F (b, d @ xs) \<noteq> Some (FileNode m)) \<Longrightarrow>
     \<exists>F'. mkdir_all F b d cs = Inr F'"
proof (induction cs arbitrary: F d)
  case Nil
  then show ?case by simp
next
  case (Cons c cs)
  let ?p = "(b, d @ [c])"
  have "fs_at F ?p \<noteq> Some (FileNode m)" for m using Cons.prems [of "[c]"] by simp
  then consider "fs_at F ?p = Some DirNode" | "fs_at F ?p = None" by (metis node.exhaust option.exhaust)
  then show ?case
  proof cases
    case 1
    have "\<exists>F'. mkdir_all F b (d @ [c]) cs = Inr F'"
      by (rule Cons.IH) (use Cons.prems [of "c # _"] in auto)
    with 1 show ?thesis by simp
  next
    case 2
    have "\<exists>F'. mkdir_all (AList.update ?p DirNode F) b (d @ [c]) cs = Inr F'"
      by (rule Cons.IH) (use Cons.prems [of "c # _"] in auto)
    with 2 show ?thesis by simp
  qed
qed

text \<open>A sample environment: a process on a host without faults.\<close>

definition sample_os :: os_env where
  "sample_os = \<lparr>sys_fail = \<lambda>_ _. None, short_write = \<lambda>_. None, now_nano = 17, getpid = 4, hostname = ''h'',
     rand_read = Some ''A''\<rparr>"

lemma sample_os_simps [simp]:
  "no_faults sample_os" "full_writes sample_os" "hostname sample_os = ''h''" "rand_read sample_os = Some ''A''"
  by (simp_all add: no_faults_def full_writes_def sample_os_def)

end
