(* ===== verification/Maildir.thy ===== *)
theory Maildir
  imports NetMail FileSystem "HOL-Library.Multiset"
begin

text \<open>
  Package \<^verbatim>\<open>internal/maildir\<close> (maildir.go): storage of messages as files
  \<^verbatim>\<open><root>/<recipient>/{tmp,new,cur}/<id>\<close>. The operations work on the file system of
  \<open>FileSystem\<close>; \<open>Deliver_run\<close> keeps the states the delivery goes through, one per system call.
  The RFC 2047 decoder, the address and date parsers and \<^verbatim>\<open>sort.Slice\<close> are parameters (record
  \<open>mail_env\<close>).
\<close>

section \<open>Data\<close>

text \<open>Instants are counted from Go's zero time.\<close>

type_synonym instant = int

definition zero_time :: instant where
  "zero_time = 0"

record message =
  ID :: bytes
  Recipient :: bytes
  Subject :: bytes
  From :: bytes
  Date :: instant
  Unread :: bool
  Spam :: bool
  SpamStatus :: bytes
  AuthResults :: bytes

record mail_env =
  DecodeHeader :: "bytes \<Rightarrow> bytes option"
  ParseAddress :: "bytes \<Rightarrow> (bytes \<times> bytes) option"
  ParseDate :: "bytes \<Rightarrow> instant option"
  sort_by_date :: "message list \<Rightarrow> message list"

text \<open>What \<^verbatim>\<open>sort.Slice\<close> promises for the order "newest first": a sorted permutation.\<close>

definition sort_ok :: "(message list \<Rightarrow> message list) \<Rightarrow> bool" where
  "sort_ok srt \<longleftrightarrow>
     (\<forall>ms. mset (srt ms) = mset ms \<and> sorted_wrt (\<lambda>a b. Date b \<le> Date a) (srt ms))"

section \<open>Delivery\<close>

definition message_id :: "os_env \<Rightarrow> bytes \<Rightarrow> bytes" where
  "message_id W randPart =
     strconv_FormatInt (now_nano W) @ ''.'' @ strconv_FormatInt (getpid W) @ ''.'' @ hostname W @ ''.''
     @ hex_EncodeToString randPart"

text \<open>The loop that makes tmp, new and cur; the states after each successful call are kept.\<close>

fun make_subdirs :: "os_env \<Rightarrow> path \<Rightarrow> bytes list \<Rightarrow> fs \<Rightarrow> io_error option \<times> fs list" where
  "make_subdirs W base [] F = (None, [])"
| "make_subdirs W base (sub # subs) F =
     (case os_MkdirAll W F (filepath_Join base [sub]) of
        Inl e \<Rightarrow> (Some e, [])
      | Inr F' \<Rightarrow> (case make_subdirs W base subs F' of (r, Fs) \<Rightarrow> (r, F' # Fs)))"

definition remove_quietly :: "os_env \<Rightarrow> fs \<Rightarrow> path \<Rightarrow> fs" where
  "remove_quietly W F p = (case os_Remove W F p of Inl _ \<Rightarrow> F | Inr F' \<Rightarrow> F')"

text \<open>
  From the exclusive creation of the temporary file on. The error of \<^verbatim>\<open>f.Write\<close> (and of
  \<^verbatim>\<open>f.Sync\<close>) is bound to a variable of the \<^verbatim>\<open>if\<close> statement only: the function's own \<^verbatim>\<open>err\<close> is
  still nil afterwards and takes the error of \<^verbatim>\<open>f.Close\<close>.
\<close>

definition deliver_file ::
  "os_env \<Rightarrow> path \<Rightarrow> bytes \<Rightarrow> bytes \<Rightarrow> fs \<Rightarrow> (io_error + bytes) \<times> fs list" where
  "deliver_file W base mid msg F =
     (let tmpPath = filepath_Join base [''tmp'', mid] in
      case os_CreateExcl W F tmpPath of
        Inl e \<Rightarrow> (Inl e, [])
      | Inr F1 \<Rightarrow>
          (let (werr, F2) = os_Write W F1 tmpPath msg;
               shadowed = (case werr of None \<Rightarrow> sys_fail W SysSync tmpPath | Some e \<Rightarrow> Some e);
               err = None;
               cerr = sys_fail W SysClose tmpPath;
               err = (case err of None \<Rightarrow> cerr | Some e \<Rightarrow> Some e)
           in case err of
                Some e \<Rightarrow> (Inl e, [F1, F2, remove_quietly W F2 tmpPath])
              | None \<Rightarrow>
                  (case os_Rename W F2 tmpPath (filepath_Join base [''new'', mid]) of
                     Inl e \<Rightarrow> (Inl e, [F1, F2, remove_quietly W F2 tmpPath])
                   | Inr F3 \<Rightarrow> (Inr mid, [F1, F2, F3]))))"

definition Deliver_run ::
  "utab \<Rightarrow> os_env \<Rightarrow> path \<Rightarrow> fs \<Rightarrow> bytes \<Rightarrow> bytes \<Rightarrow> (io_error + bytes) \<times> fs list" where
  "Deliver_run T W root F rcpt msg =
     (let recipient = strings_ToLower T (strings_TrimSpace rcpt) in
      if recipient = [] \<or> strings_ContainsAny recipient [SLASH, BACKSLASH]
      then (Inl (ErrInvalid recipient), [F])
      else let base = filepath_Join root [recipient] in
           case make_subdirs W base [''tmp'', ''new'', ''cur''] F of
             (Some e, Fs) \<Rightarrow> (Inl e, F # Fs)
           | (None, Fs) \<Rightarrow>
               (case rand_read W of
                  None \<Rightarrow> (Inl (ErrOther ''rand''), F # Fs)
                | Some randPart \<Rightarrow>
                    (case deliver_file W base (message_id W randPart) msg (last (F # Fs)) of
                       (r, Gs) \<Rightarrow> (r, F # Fs @ Gs))))"

definition Deliver ::
  "utab \<Rightarrow> os_env \<Rightarrow> path \<Rightarrow> fs \<Rightarrow> bytes \<Rightarrow> bytes \<Rightarrow> (io_error + bytes) \<times> fs" where
  "Deliver T W root F rcpt msg = (case Deliver_run T W root F rcpt msg of (r, Fs) \<Rightarrow> (r, last Fs))"

section \<open>Listing\<close>

definition headerPeekBytes :: nat where
  "headerPeekBytes = 64 * 1024"

definition decodeHeader :: "mail_env \<Rightarrow> bytes \<Rightarrow> bytes" where
  "decodeHeader M s = (case DecodeHeader M s of Some d \<Rightarrow> d | None \<Rightarrow> s)"

definition fillHeaders :: "mail_env \<Rightarrow> message \<Rightarrow> header \<Rightarrow> message" where
  "fillHeaders M m h =
     (let m = m\<lparr>Subject := decodeHeader M (Header_Get h ''Subject'')\<rparr>;
          m = (case ParseAddress M (Header_Get h ''From'') of
                 Some (name0, address) \<Rightarrow>
                   (let name = decodeHeader M name0 in
                    if name \<noteq> [] then m\<lparr>From := name @ '' <'' @ address @ ''>''\<rparr>
                    else m\<lparr>From := address\<rparr>)
               | None \<Rightarrow> m\<lparr>From := decodeHeader M (Header_Get h ''From'')\<rparr>);
          m = (case ParseDate M (Header_Get h ''Date'') of Some t \<Rightarrow> m\<lparr>Date := t\<rparr> | None \<Rightarrow> m);
          m = m\<lparr>SpamStatus := Header_Get h ''X-Spam-Status''\<rparr>;
          m = m\<lparr>Spam := strings_Contains (SpamStatus m) ''action=spam''\<rparr>
      in m\<lparr>AuthResults := Header_Get h ''Authentication-Results''\<rparr>)"

definition new_message :: "bytes \<Rightarrow> bytes \<Rightarrow> bool \<Rightarrow> message" where
  "new_message mid rec unread =
     \<lparr>ID = mid, Recipient = rec, Subject = [], From = [], Date = zero_time, Unread = unread, Spam = False,
      SpamStatus = [], AuthResults = []\<rparr>"

text \<open>The summary of one file: the headers are read from its first 64 KiB only.\<close>

definition summary :: "mail_env \<Rightarrow> os_env \<Rightarrow> fs \<Rightarrow> path \<Rightarrow> bytes \<Rightarrow> bytes \<Rightarrow> bool \<Rightarrow> message" where
  "summary M W F p mid rec unread =
     (let m = new_message mid rec unread in
      case os_ReadFile_at SysOpen W F p of
        Inl _ \<Rightarrow> m
      | Inr raw \<Rightarrow>
          (case mail_ReadMessage (take headerPeekBytes raw) of
             None \<Rightarrow> m
           | Some (h, _) \<Rightarrow> fillHeaders M m h))"

definition list_sub :: "mail_env \<Rightarrow> os_env \<Rightarrow> path \<Rightarrow> fs \<Rightarrow> bytes \<Rightarrow> bytes \<times> bool \<Rightarrow> message list" where
  "list_sub M W root F rec sub =
     (case sub of (dir, unread) \<Rightarrow>
        (case os_ReadDir W F (filepath_Join (filepath_Join root [rec]) [dir]) of
           Inl _ \<Rightarrow> []
         | Inr entries \<Rightarrow>
             map (\<lambda>(mid, _). summary M W F (filepath_Join (filepath_Join root [rec]) [dir, mid]) mid rec unread)
               (filter (\<lambda>(_, isdir). \<not> isdir) entries)))"

definition Store_List :: "mail_env \<Rightarrow> os_env \<Rightarrow> path \<Rightarrow> fs \<Rightarrow> io_error + message list" where
  "Store_List M W root F =
     (case os_ReadDir W F root of
        Inl ErrNotExist \<Rightarrow> Inr []
      | Inl e \<Rightarrow> Inl e
      | Inr recipients \<Rightarrow>
          Inr (sort_by_date M
                 (concat (map (\<lambda>(rec, _). concat (map (list_sub M W root F rec) [(''new'', True), (''cur'', False)]))
                            (filter (\<lambda>(_, isdir). isdir) recipients)))))"

section \<open>Looking up, opening, deleting\<close>

definition validID :: "bytes \<Rightarrow> bool" where
  "validID mid \<longleftrightarrow> mid \<noteq> [] \<and> \<not> strings_ContainsAny mid [SLASH, BACKSLASH] \<and> mid \<noteq> ''.'' \<and> mid \<noteq> ''..''"

text \<open>The two nested loops of \<^verbatim>\<open>locate\<close>: over the recipients, and over new and cur.\<close>

fun locate_in :: "os_env \<Rightarrow> path \<Rightarrow> fs \<Rightarrow> bytes \<Rightarrow> bytes \<Rightarrow> bytes list \<Rightarrow> (path \<times> bool) option" where
  "locate_in W root F mid rec [] = None"
| "locate_in W root F mid rec (sub # subs) =
     (let p = filepath_Join root [rec, sub, mid] in
      case os_Stat W F p of
        Inr _ \<Rightarrow> Some (p, sub = ''new'')
      | Inl _ \<Rightarrow> locate_in W root F mid rec subs)"

fun locate_loop :: "os_env \<Rightarrow> path \<Rightarrow> fs \<Rightarrow> bytes \<Rightarrow> (bytes \<times> bool) list \<Rightarrow> io_error + path \<times> bool" where
  "locate_loop W root F mid [] = Inl ErrNotExist"
| "locate_loop W root F mid ((rec, isdir) # recs) =
     (if \<not> isdir then locate_loop W root F mid recs
      else case locate_in W root F mid rec [''new'', ''cur''] of
             Some r \<Rightarrow> Inr r
           | None \<Rightarrow> locate_loop W root F mid recs)"

definition locate :: "os_env \<Rightarrow> path \<Rightarrow> fs \<Rightarrow> bytes \<Rightarrow> io_error + path \<times> bool" where
  "locate W root F mid =
     (if \<not> validID mid then Inl (ErrInvalid ''invalid message reference'')
      else case os_ReadDir W F root of
             Inl e \<Rightarrow> Inl e
           | Inr recipients \<Rightarrow> locate_loop W root F mid recipients)"

text \<open>Opening marks an unread message as read; a failing rename is ignored.\<close>

definition Store_Open :: "os_env \<Rightarrow> path \<Rightarrow> fs \<Rightarrow> bytes \<Rightarrow> (io_error + bytes) \<times> fs" where
  "Store_Open W root F mid =
     (case locate W root F mid of
        Inl e \<Rightarrow> (Inl e, F)
      | Inr (p, unread) \<Rightarrow>
          (case os_ReadFile_at SysReadFile W F p of
             Inl e \<Rightarrow> (Inl e, F)
           | Inr raw \<Rightarrow>
               (if unread
                then (case os_Rename W F p (filepath_Join (filepath_Dir (filepath_Dir p)) [''cur'', mid]) of
                        Inl _ \<Rightarrow> (Inr raw, F)
                      | Inr F' \<Rightarrow> (Inr raw, F'))
                else (Inr raw, F))))"

definition Store_Delete :: "os_env \<Rightarrow> path \<Rightarrow> fs \<Rightarrow> bytes \<Rightarrow> io_error option \<times> fs" where
  "Store_Delete W root F mid =
     (case locate W root F mid of
        Inl e \<Rightarrow> (Some e, F)
      | Inr (p, _) \<Rightarrow> (case os_Remove W F p of Inl e \<Rightarrow> (Some e, F) | Inr F' \<Rightarrow> (None, F')))"

definition Store_Reader :: "os_env \<Rightarrow> path \<Rightarrow> fs \<Rightarrow> bytes \<Rightarrow> io_error + bytes" where
  "Store_Reader W root F mid =
     (case locate W root F mid of
        Inl e \<Rightarrow> Inl e
      | Inr (p, _) \<Rightarrow> os_ReadFile_at SysOpen W F p)"

section \<open>The abstract mailbox\<close>

text \<open>
  What a store holds, abstractly: for a recipient, a read or unread state and an id, the bytes of
  the message. It is the contents of the files under new and cur, whatever else the file system
  holds.
\<close>

type_synonym mail_key = "bytes \<times> bool \<times> bytes"

definition subdir :: "bool \<Rightarrow> bytes" where
  "subdir unread = (if unread then ''new'' else ''cur'')"

definition mpath :: "path \<Rightarrow> bytes \<Rightarrow> bytes \<Rightarrow> bytes \<Rightarrow> path" where
  "mpath root rec sub mid = child (child (child root rec) sub) mid"

definition mails :: "path \<Rightarrow> fs \<Rightarrow> mail_key \<Rightarrow> bytes option" where
  "mails root F = (\<lambda>(rec, unread, mid).
     (case fs_at F (mpath root rec (subdir unread) mid) of Some (FileNode c) \<Rightarrow> Some c | _ \<Rightarrow> None))"

lemma mpath_eq [simp]:
  "mpath root r s i = mpath root r' s' i' \<longleftrightarrow> r = r' \<and> s = s' \<and> i = i'"
  by (auto simp: mpath_def)

lemma subdir_eq [simp]: "subdir a = subdir b \<longleftrightarrow> a = b" "subdir u \<noteq> ''tmp''" "''tmp'' \<noteq> subdir u"
  by (auto simp: subdir_def)

lemma plain_subs [simp]: "plain ''tmp''" "plain ''new''" "plain ''cur''" "plain (subdir u)"
  by (simp_all add: plain_def subdir_def)

lemma mails_update_tmp [simp]: "mails root (AList.update (mpath root r ''tmp'' i) n F) = mails root F"
  by (auto simp: mails_def fun_eq_iff)

lemma mails_delete_tmp [simp]: "mails root (AList.delete (mpath root r ''tmp'' i) F) = mails root F"
  by (auto simp: mails_def fun_eq_iff)

lemma mails_update [simp]:
  "mails root (AList.update (mpath root r (subdir u) i) (FileNode c) F) = (mails root F)((r, u, i) \<mapsto> c)"
  by (auto simp: mails_def fun_eq_iff)

lemma mails_delete [simp]:
  "mails root (AList.delete (mpath root r (subdir u) i) F) = (mails root F)((r, u, i) := None)"
  by (auto simp: mails_def fun_eq_iff)

lemma mails_update_new [simp]:
  "mails root (AList.update (mpath root r ''new'' i) (FileNode c) F) = (mails root F)((r, True, i) \<mapsto> c)"
  using mails_update [of root r True i c F] by (simp add: subdir_def)

lemma mails_SomeD: "mails root F (r, u, i) = Some c \<Longrightarrow> fs_at F (mpath root r (subdir u) i) = Some (FileNode c)"
  by (simp add: mails_def split: option.splits node.splits)

section \<open>Where the operations work\<close>

text \<open>The paths a delivery may touch: the ancestors of the root, and the recipient's own tree.\<close>

definition near :: "path \<Rightarrow> bytes \<Rightarrow> path \<Rightarrow> bool" where
  "near root rec q \<longleftrightarrow> fst q = fst root \<and> (prefix (snd q) (snd root) \<or> prefix (snd root @ [rec]) (snd q))"

definition near_dir :: "path \<Rightarrow> bytes \<Rightarrow> path \<Rightarrow> bool" where
  "near_dir root rec q \<longleftrightarrow> near root rec q \<and> length (snd q) \<le> length (snd root) + 2"

definition dirs_added :: "path \<Rightarrow> bytes \<Rightarrow> fs \<Rightarrow> fs \<Rightarrow> bool" where
  "dirs_added root rec F G \<longleftrightarrow>
     (\<forall>q n. fs_at F q = Some n \<longrightarrow> fs_at G q = Some n)
     \<and> (\<forall>q n. fs_at F q = None \<longrightarrow> fs_at G q = Some n \<longrightarrow> n = DirNode \<and> near_dir root rec q)
     \<and> (fs_wf F \<longrightarrow> fs_wf G)"

lemma dirs_addedD:
  assumes "dirs_added root rec F G"
  shows "fs_at F q = Some n \<Longrightarrow> fs_at G q = Some n"
    and "fs_at F q = None \<Longrightarrow> fs_at G q = Some n \<Longrightarrow> n = DirNode \<and> near_dir root rec q"
    and "fs_wf F \<Longrightarrow> fs_wf G"
  using assms unfolding dirs_added_def by blast+

lemma dirs_addedI:
  assumes "\<And>q n. fs_at F q = Some n \<Longrightarrow> fs_at G q = Some n"
    and "\<And>q n. fs_at F q = None \<Longrightarrow> fs_at G q = Some n \<Longrightarrow> n = DirNode \<and> near_dir root rec q"
    and "fs_wf F \<Longrightarrow> fs_wf G"
  shows "dirs_added root rec F G"
  using assms unfolding dirs_added_def by blast

lemma dirs_added_refl: "dirs_added root rec F F"
  by (simp add: dirs_added_def)

lemma dirs_added_trans:
  assumes "dirs_added root rec F G" and "dirs_added root rec G H"
  shows "dirs_added root rec F H"
proof (rule dirs_addedI)
  fix q n
  assume "fs_at F q = Some n"
  then show "fs_at H q = Some n" by (rule dirs_addedD(1) [OF assms(2) dirs_addedD(1) [OF assms(1)]])
next
  fix q n
  assume F: "fs_at F q = None" and H: "fs_at H q = Some n"
  show "n = DirNode \<and> near_dir root rec q"
  proof (cases "fs_at G q")
    case None
    then show ?thesis using H by (rule dirs_addedD(2) [OF assms(2)])
  next
    case (Some m)
    with dirs_addedD(1) [OF assms(2) Some] H have "m = n" by simp
    with Some dirs_addedD(2) [OF assms(1) F] show ?thesis by simp
  qed
next
  assume "fs_wf F"
  then show "fs_wf H" by (rule dirs_addedD(3) [OF assms(2) dirs_addedD(3) [OF assms(1)]])
qed

lemma mails_dirs_added: "dirs_added root rec F G \<Longrightarrow> mails root G = mails root F"
proof
  fix k :: mail_key
  assume d: "dirs_added root rec F G"
  obtain r u i where k: "k = (r, u, i)" by (metis prod_cases3)
  let ?q = "mpath root r (subdir u) i"
  show "mails root G k = mails root F k"
  proof (cases "fs_at F ?q")
    case None
    then have "fs_at G ?q = None \<or> fs_at G ?q = Some DirNode"
      using dirs_addedD(2) [OF d None] by (cases "fs_at G ?q") auto
    with None k show ?thesis by (auto simp: mails_def)
  next
    case (Some n)
    with d have "fs_at G ?q = Some n" by (rule dirs_addedD(1))
    with Some k show ?thesis by (simp add: mails_def)
  qed
qed

lemma dirs_added_is_dir: "dirs_added root rec F G \<Longrightarrow> is_dir F q \<Longrightarrow> is_dir G q"
  by (auto simp: is_dir_def dest: dirs_addedD(1))

lemma prefix_of_sub:
  "prefix xs (snd root @ [rec, sub]) \<Longrightarrow> near_dir root rec (fst root, xs)"
  using prefix_length_le [of xs "snd root @ [rec, sub]"]
  by (auto simp: near_dir_def near_def prefix_append prefix_Cons)

lemma MkdirAll_sub:
  assumes "os_MkdirAll W F (child (child root rec) sub) = Inr G"
  shows "dirs_added root rec F G \<and> is_dir G (child root rec) \<and> is_dir G (child (child root rec) sub)
         \<and> (snd root \<noteq> [] \<longrightarrow> is_dir G root)"
proof -
  let ?cs = "snd root @ [rec, sub]"
  have m: "mkdir_all F (fst root) [] ?cs = Inr G"
    using assms by (auto simp: os_MkdirAll_def child_def dest: guarded_Inr)
  have "dirs_added root rec F G"
  proof (rule dirs_addedI)
    fix q n
    assume "fs_at F q = Some n"
    then show "fs_at G q = Some n" by (rule mkdir_all_keeps [OF m])
  next
    fix q n
    assume "fs_at F q = None" and "fs_at G q = Some n"
    from mkdir_all_new [OF m this] show "n = DirNode \<and> near_dir root rec q" by (auto intro: prefix_of_sub)
  next
    assume "fs_wf F"
    then show "fs_wf G" by (rule mkdir_all_wf [OF m])
  qed
  moreover have "is_dir G (fst root, [] @ xs)" if "xs \<noteq> []" "prefix xs ?cs" for xs
    using mkdir_all_dir [OF m that] .
  from this [of "snd root @ [rec]"] this [of ?cs] this [of "snd root"]
  have "is_dir G (child root rec)" "is_dir G (child (child root rec) sub)" "snd root \<noteq> [] \<longrightarrow> is_dir G root"
    by (simp_all add: child_def)
  ultimately show ?thesis by blast
qed

lemma Join_child [simp]: "cleaned p \<Longrightarrow> plain n \<Longrightarrow> filepath_Join p [n] = child p n"
  by (simp add: Join_plain child_def)

lemma cleaned_child [simp]: "cleaned p \<Longrightarrow> plain n \<Longrightarrow> cleaned (child p n)"
  using cleaned_Join [of p "[n]"] by simp

lemma Join_child2 [simp]: "cleaned p \<Longrightarrow> plain m \<Longrightarrow> plain n \<Longrightarrow> filepath_Join p [m, n] = child (child p m) n"
  by (simp add: Join_plain child_def)

lemma Join_mpath [simp]:
  "cleaned root \<Longrightarrow> plain r \<Longrightarrow> plain s \<Longrightarrow> plain i \<Longrightarrow> filepath_Join root [r, s, i] = mpath root r s i"
  by (simp add: Join_plain mpath_def child_def)

lemma make_subdirs_states:
  assumes "cleaned root" and "plain rec"
  shows "\<forall>s \<in> set subs. plain s \<Longrightarrow> make_subdirs W (child root rec) subs F = (r, Fs) \<Longrightarrow>
    (\<forall>G \<in> set (F # Fs). dirs_added root rec F G)
    \<and> (r = None \<longrightarrow> (\<forall>s \<in> set subs. is_dir (last (F # Fs)) (child (child root rec) s)))
    \<and> (r = None \<and> subs \<noteq> [] \<longrightarrow> is_dir (last (F # Fs)) (child root rec)
         \<and> (snd root \<noteq> [] \<longrightarrow> is_dir (last (F # Fs)) root))"
proof (induction subs arbitrary: F r Fs)
  case Nil
  then show ?case by (simp add: dirs_added_refl)
next
  case (Cons s subs)
  have J: "filepath_Join (child root rec) [s] = child (child root rec) s"
    using Cons.prems(1) assms by simp
  show ?case
  proof (cases "os_MkdirAll W F (child (child root rec) s)")
    case (Inl e)
    with Cons.prems(2) J have "r = Some e" "Fs = []" by auto
    then show ?thesis by (simp add: dirs_added_refl)
  next
    case (Inr G)
    obtain Gs where Gs: "make_subdirs W (child root rec) subs G = (r, Gs)" "Fs = G # Gs"
      using Cons.prems(2) J Inr by (auto split: prod.splits)
    note MkdirAll_sub [OF Inr]
    then have G: "dirs_added root rec F G" and d: "is_dir G (child root rec)" "is_dir G (child (child root rec) s)"
      "snd root \<noteq> [] \<longrightarrow> is_dir G root" by auto
    have IH: "\<forall>H \<in> set (G # Gs). dirs_added root rec G H"
      "r = None \<longrightarrow> (\<forall>s \<in> set subs. is_dir (last (G # Gs)) (child (child root rec) s))"
      using Cons.IH [OF _ Gs(1)] Cons.prems(1) by auto
    have "\<forall>H \<in> set (G # Gs). dirs_added root rec F H" using IH(1) G dirs_added_trans by blast
    moreover have "dirs_added root rec G (last (G # Gs))" using IH(1) last_in_set [of "G # Gs"] by blast
    ultimately show ?thesis
      using IH(2) d Gs(2) dirs_added_is_dir by (auto simp: dirs_added_refl)
  qed
qed

section \<open>Delivery\<close>

text \<open>The bytes a delivery writes: all of the message, unless the write stopped early.\<close>

definition written :: "os_env \<Rightarrow> path \<Rightarrow> bytes \<Rightarrow> bytes" where
  "written W p msg = (case short_write W p of None \<Rightarrow> msg | Some n \<Rightarrow> take n msg)"

lemma os_Write_snd: "snd (os_Write W F p msg) = AList.update p (FileNode (written W p msg)) F"
  by (simp add: os_Write_def written_def split: option.splits)

lemma remove_quietly_cases: "remove_quietly W F p = F \<or> remove_quietly W F p = AList.delete p F"
  by (auto simp: remove_quietly_def os_Remove_def guarded_def split: sum.splits option.splits node.splits if_splits)

text \<open>The states of \<open>deliver_file\<close> and what its result says about the last of them.\<close>

lemma deliver_file_cases:
  assumes "deliver_file W base i msg F = (r, Gs)"
    and t: "filepath_Join base [''tmp'', i] = t" and n: "filepath_Join base [''new'', i] = n"
  obtains (create_failed) e where "r = Inl e" and "Gs = []"
  | (failed) e F3 where "r = Inl e" and "fs_at F t = None"
      and "Gs = [AList.update t (FileNode []) F, AList.update t (FileNode (written W t msg)) (AList.update t (FileNode []) F), F3]"
      and "F3 = AList.update t (FileNode (written W t msg)) (AList.update t (FileNode []) F)
           \<or> F3 = AList.delete t (AList.update t (FileNode (written W t msg)) (AList.update t (FileNode []) F))"
  | (moved) "r = Inr i"
      and "Gs = [AList.update t (FileNode []) F, AList.update t (FileNode (written W t msg)) (AList.update t (FileNode []) F),
             AList.update n (FileNode (written W t msg))
               (AList.delete t (AList.update t (FileNode (written W t msg)) (AList.update t (FileNode []) F)))]"
      and "fs_at F t = None" and "t \<noteq> n \<Longrightarrow> \<not> is_dir F n"
proof (cases "os_CreateExcl W F t")
  case (Inl e)
  with assms have "r = Inl e" "Gs = []" by (auto simp: deliver_file_def)
  then show ?thesis by (rule create_failed)
next
  case (Inr F1)
  then have F1: "F1 = AList.update t (FileNode []) F" and tn: "fs_at F t = None"
    by (auto simp: os_CreateExcl_def dest!: guarded_Inr split: if_splits)
  define F2 where "F2 = AList.update t (FileNode (written W t msg)) F1"
  have w: "snd (os_Write W F1 t msg) = F2" by (simp add: os_Write_snd F2_def)
  have split_fail: "r = Inl e \<and> Gs = [F1, F2, remove_quietly W F2 t] \<Longrightarrow> thesis" for e
    using failed [of e "remove_quietly W F2 t"] remove_quietly_cases [of W F2 t] F1 F2_def tn by auto
  show ?thesis
  proof (cases "sys_fail W SysClose t")
    case (Some e)
    with assms Inr w have "r = Inl e \<and> Gs = [F1, F2, remove_quietly W F2 t]"
      by (auto simp: deliver_file_def Let_def split: prod.splits)
    then show ?thesis by (rule split_fail)
  next
    case None
    show ?thesis
    proof (cases "os_Rename W F2 t n")
      case (Inl e)
      with assms Inr w None have "r = Inl e \<and> Gs = [F1, F2, remove_quietly W F2 t]"
        by (auto simp: deliver_file_def Let_def split: prod.splits)
      then show ?thesis by (rule split_fail)
    next
      case (Inr F3)
      have at: "fs_at F2 t = Some (FileNode (written W t msg))" by (simp add: F2_def)
      have F3: "F3 = AList.update n (FileNode (written W t msg)) (AList.delete t F2)" and nd: "\<not> is_dir F2 n"
        using Inr at by (auto simp: os_Rename_def dest!: guarded_Inr split: if_splits)
      have "t \<noteq> n \<Longrightarrow> \<not> is_dir F n" using nd F1 by (auto simp: F2_def is_dir_def)
      from assms \<open>os_CreateExcl W F t = Inr F1\<close> w None Inr have "r = Inr i" "Gs = [F1, F2, F3]"
        by (auto simp: deliver_file_def Let_def split: prod.splits)
      with F1 F2_def F3 tn \<open>t \<noteq> n \<Longrightarrow> \<not> is_dir F n\<close> show ?thesis using moved by simp
    qed
  qed
qed

text \<open>An id as \<open>Deliver\<close> makes it is a plain file name when the host name has no slash.\<close>

lemma message_id_plain:
  assumes "SLASH \<notin> set (hostname W)"
  shows "plain (message_id W rp)"
proof -
  have "SLASH \<notin> set (strconv_FormatInt i)" for i by (rule FormatInt_no_sep) (simp_all add: is_digit_def)
  moreover have "SLASH \<notin> set (hex_EncodeToString rp)"
    using hex_EncodeToString_is_hex by (fastforce simp: is_hex_def)
  ultimately have "SLASH \<notin> set (message_id W rp)" using assms by (simp add: message_id_def)
  moreover have "strconv_FormatInt (now_nano W) \<noteq> []" by (simp add: strconv_FormatInt_def)
  moreover have "CHR ''.'' \<notin> set (strconv_FormatInt (now_nano W))"
    by (rule FormatInt_no_sep) (simp_all add: is_digit_def)
  ultimately have "message_id W rp \<noteq> [] \<and> hd (message_id W rp) \<noteq> CHR ''.'' \<and> SLASH \<notin> set (message_id W rp)"
    unfolding message_id_def by (metis append_is_Nil_conv hd_append2 hd_in_set)
  then show ?thesis by (auto simp: plain_def)
qed

definition mailbox_name :: "utab \<Rightarrow> bytes \<Rightarrow> bytes" where
  "mailbox_name T rcpt = strings_ToLower T (strings_TrimSpace rcpt)"

text \<open>The recipient names a delivery takes: not empty and free of separators.\<close>

definition name_accepted :: "bytes \<Rightarrow> bool" where
  "name_accepted n \<longleftrightarrow> n \<noteq> [] \<and> SLASH \<notin> set n \<and> BACKSLASH \<notin> set n"

lemma Deliver_run_bad_name:
  "\<not> name_accepted (mailbox_name T rcpt) \<Longrightarrow>
     Deliver_run T W root F rcpt msg = (Inl (ErrInvalid (mailbox_name T rcpt)), [F])"
  by (auto simp: Deliver_run_def name_accepted_def mailbox_name_def strings_ContainsAny_iff Let_def)

lemma Deliver_run_split:
  assumes "name_accepted (mailbox_name T rcpt)" and "Deliver_run T W root F rcpt msg = (r, Fs)"
  obtains (mkdir_failed) e Ds where "r = Inl e" and "Fs = F # Ds"
      and "make_subdirs W (filepath_Join root [mailbox_name T rcpt]) [''tmp'', ''new'', ''cur''] F = (Some e, Ds)"
  | (rand_failed) e Ds where "r = Inl e" and "Fs = F # Ds" and "rand_read W = None"
      and "make_subdirs W (filepath_Join root [mailbox_name T rcpt]) [''tmp'', ''new'', ''cur''] F = (None, Ds)"
      and "e = ErrOther ''rand''"
  | (filed) rp Ds Gs where "rand_read W = Some rp" and "Fs = F # Ds @ Gs"
      and "make_subdirs W (filepath_Join root [mailbox_name T rcpt]) [''tmp'', ''new'', ''cur''] F = (None, Ds)"
      and "deliver_file W (filepath_Join root [mailbox_name T rcpt]) (message_id W rp) msg (last (F # Ds)) = (r, Gs)"
proof -
  have g: "\<not> (mailbox_name T rcpt = [] \<or> strings_ContainsAny (mailbox_name T rcpt) [SLASH, BACKSLASH])"
    using assms(1) by (auto simp: name_accepted_def strings_ContainsAny_iff)
  obtain x Ds where m: "make_subdirs W (filepath_Join root [mailbox_name T rcpt]) [''tmp'', ''new'', ''cur''] F = (x, Ds)"
    by (metis prod.exhaust)
  show ?thesis
  proof (cases x)
    case (Some e)
    with m g assms(2) have "r = Inl e" "Fs = F # Ds"
      by (auto simp: Deliver_run_def Let_def simp del: make_subdirs.simps simp flip: mailbox_name_def)
    with m Some show ?thesis using mkdir_failed by simp
  next
    case None
    show ?thesis
    proof (cases "rand_read W")
      case rn: None
      with m None g assms(2) have "r = Inl (ErrOther ''rand'')" "Fs = F # Ds"
        by (auto simp: Deliver_run_def Let_def simp del: make_subdirs.simps simp flip: mailbox_name_def)
      with m None rn show ?thesis using rand_failed by simp
    next
      case (Some rp)
      obtain r' Gs where d: "deliver_file W (filepath_Join root [mailbox_name T rcpt]) (message_id W rp) msg
          (last (F # Ds)) = (r', Gs)" by (metis prod.exhaust)
      from m None g assms(2) Some d have "r' = r" "Fs = F # Ds @ Gs"
        by (auto simp: Deliver_run_def Let_def simp del: make_subdirs.simps simp flip: mailbox_name_def)
      with Some m None d show ?thesis using filed by simp
    qed
  qed
qed

text \<open>
  The whole delivery, abstractly: every state it goes through shows the old mailbox, except that
  the last state of a successful delivery shows the one new message, unread.
\<close>

lemma Deliver_run_mails:
  assumes "cleaned root" and "SLASH \<notin> set (hostname W)" and "plain (mailbox_name T rcpt)"
    and "Deliver_run T W root F rcpt msg = (r, Fs)"
  shows "case r of
           Inl e \<Rightarrow> \<forall>G \<in> set Fs. mails root G = mails root F
         | Inr i \<Rightarrow> Fs \<noteq> [] \<and> (\<forall>G \<in> set (butlast Fs). mails root G = mails root F)
             \<and> mails root (last Fs) = (mails root F)((mailbox_name T rcpt, True, i) \<mapsto>
                 written W (mpath root (mailbox_name T rcpt) ''tmp'' i) msg)"
proof (cases "name_accepted (mailbox_name T rcpt)")
  case False
  with assms(4) show ?thesis by (auto simp: Deliver_run_bad_name)
next
  case True
  let ?rec = "mailbox_name T rcpt"
  have J: "filepath_Join root [?rec] = child root ?rec" and cl: "cleaned (child root ?rec)"
    using assms(1,3) by simp_all
  have sub: "\<forall>G \<in> set (F # Ds). mails root G = mails root F"
    if "make_subdirs W (filepath_Join root [?rec]) [''tmp'', ''new'', ''cur''] F = (x, Ds)" for x Ds
    using make_subdirs_states [OF assms(1,3) _ that [unfolded J]] mails_dirs_added by fastforce
  from True assms(4) show ?thesis
  proof (cases rule: Deliver_run_split)
    case (mkdir_failed e Ds)
    with sub show ?thesis by simp
  next
    case (rand_failed e Ds)
    with sub show ?thesis by simp
  next
    case (filed rp Ds Gs)
    let ?i = "message_id W rp" and ?L = "last (F # Ds)"
    have pi: "plain ?i" using assms(2) by (rule message_id_plain)
    have t: "filepath_Join (filepath_Join root [?rec]) [''tmp'', ?i] = mpath root ?rec ''tmp'' ?i"
      and n: "filepath_Join (filepath_Join root [?rec]) [''new'', ?i] = mpath root ?rec ''new'' ?i"
      using cl pi J by (simp_all add: mpath_def)
    note s = sub [OF filed(3)]
    have L: "mails root ?L = mails root F" using s last_in_set [of "F # Ds"] by blast
    from filed(4) t n show ?thesis
    proof (cases rule: deliver_file_cases)
      case (create_failed e)
      with s filed(2) show ?thesis by simp
    next
      case (failed e F3)
      then have "mails root F3 = mails root F" using L by auto
      with failed s filed(2) L show ?thesis by auto
    next
      case moved
      then show ?thesis using s filed(2) L by (auto simp: butlast_append)
    qed
  qed
qed

section \<open>Well-formed stores\<close>

text \<open>
  One node per path; the root has a name; directory entries below the root have plain names; and
  whatever lies below the root lies in a directory.
\<close>

definition under :: "path \<Rightarrow> path \<Rightarrow> bool" where
  "under root q \<longleftrightarrow> fst q = fst root \<and> prefix (snd root) (snd q)"

definition store_ok :: "path \<Rightarrow> fs \<Rightarrow> bool" where
  "store_ok root F \<longleftrightarrow>
     cleaned root \<and> snd root \<noteq> [] \<and> fs_wf F
     \<and> (\<forall>q n. under root q \<longrightarrow> fs_at F (child q n) \<noteq> None \<longrightarrow> plain n)
     \<and> (\<forall>q n. under root q \<longrightarrow> fs_at F (child q n) \<noteq> None \<longrightarrow> is_dir F q)"

lemma store_okD:
  assumes "store_ok root F"
  shows "cleaned root" "snd root \<noteq> []" "fs_wf F"
    and "under root q \<Longrightarrow> fs_at F (child q n) \<noteq> None \<Longrightarrow> plain n"
    and "under root q \<Longrightarrow> fs_at F (child q n) \<noteq> None \<Longrightarrow> is_dir F q"
  using assms unfolding store_ok_def by blast+

lemma under_simps [simp]: "under root root" "under root q \<Longrightarrow> under root (child q n)"
  by (auto simp: under_def child_def)

lemma store_ok_mail_dirs:
  assumes "store_ok root F" and "fs_at F (mpath root r s i) \<noteq> None"
  shows "is_dir F root \<and> is_dir F (child root r) \<and> is_dir F (child (child root r) s) \<and> plain r"
proof -
  have 1: "is_dir F (child (child root r) s)"
    using assms store_okD(5) [OF assms(1), of "child (child root r) s" i] by (simp add: mpath_def)
  then have 2: "is_dir F (child root r)"
    using store_okD(5) [OF assms(1), of "child root r" s] by (simp add: is_dir_def)
  then have "is_dir F root" "plain r"
    using store_okD(5) [OF assms(1), of root r] store_okD(4) [OF assms(1), of root r] by (simp_all add: is_dir_def)
  with 1 2 show ?thesis by simp
qed

lemma store_ok_update_file:
  assumes "store_ok root F" and "is_dir F (filepath_Dir p)" and "\<not> is_dir F p"
    and "p = child (filepath_Dir p) m" and "plain m"
  shows "store_ok root (AList.update p (FileNode c) F)"
  unfolding store_ok_def
proof (intro conjI allI impI)
  fix q n
  assume "under root q" and "fs_at (AList.update p (FileNode c) F) (child q n) \<noteq> None"
  then show "plain n"
    using assms(4,5) store_okD(4) [OF assms(1), of q n] by (metis child_eq fs_at_update)
next
  fix q n
  assume u: "under root q" and a: "fs_at (AList.update p (FileNode c) F) (child q n) \<noteq> None"
  have "is_dir F q"
  proof (cases "child q n = p")
    case True
    then show ?thesis using assms(2) Dir_child by metis
  next
    case False
    then show ?thesis using a u store_okD(5) [OF assms(1) u, of n] by simp
  qed
  moreover from this assms(3) have "q \<noteq> p" by auto
  ultimately show "is_dir (AList.update p (FileNode c) F) q" by (simp add: is_dir_update)
qed (use store_okD(1-3) [OF assms(1)] in simp_all)

lemma store_ok_delete_file:
  assumes "store_ok root F" and "\<not> is_dir F p"
  shows "store_ok root (AList.delete p F)"
  unfolding store_ok_def
proof (intro conjI allI impI)
  fix q n
  assume u: "under root q" and a: "fs_at (AList.delete p F) (child q n) \<noteq> None"
  then have "is_dir F q" using store_okD(5) [OF assms(1) u, of n] by (simp split: if_splits)
  with assms(2) show "is_dir (AList.delete p F) q" by (auto simp: is_dir_def)
qed (use store_okD(1-4) [OF assms(1)] in \<open>simp_all split: if_splits\<close>)

section \<open>Looking up\<close>

lemma validID_plain: "validID i \<Longrightarrow> plain i"
  by (auto simp: validID_def plain_def strings_ContainsAny_iff)

lemma validID_iff: "validID i \<longleftrightarrow> plain i \<and> BACKSLASH \<notin> set i"
  by (auto simp: validID_def plain_def strings_ContainsAny_iff)

lemma ReadDir_names:
  assumes "os_ReadDir W F p = Inr es"
  shows "map fst es = dir_names F p \<and> (\<forall>(n, d) \<in> set es. d = is_dir F (child p n))"
  using guarded_Inr [OF assms [unfolded os_ReadDir_def]]
  by (auto simp: o_def split: option.splits node.splits)

lemma Stat_Inr: "os_Stat W F p = Inr n \<Longrightarrow> fs_at F p = Some n"
  by (auto simp: os_Stat_def dest!: guarded_Inr split: option.splits)

lemma Stat_no_fault: "no_faults W \<Longrightarrow> os_Stat W F p = (case fs_at F p of None \<Rightarrow> Inl ErrNotExist | Some n \<Rightarrow> Inr n)"
  by (simp add: os_Stat_def)

lemma locate_in_sound:
  assumes "cleaned root" and "plain r" and "plain i"
    and "locate_in W root F i r [''new'', ''cur''] = Some (p, u)"
  shows "p = mpath root r (subdir u) i \<and> fs_at F p \<noteq> None"
  using assms by (auto simp: subdir_def Let_def split: sum.splits dest!: Stat_Inr)

lemma locate_loop_sound:
  assumes "cleaned root" and "plain i" and "\<forall>(n, d) \<in> set recs. d \<longrightarrow> plain n"
    and "locate_loop W root F i recs = Inr (p, u)"
  shows "\<exists>r. (r, True) \<in> set recs \<and> p = mpath root r (subdir u) i \<and> fs_at F p \<noteq> None"
  using assms
proof (induction recs)
  case Nil
  then show ?case by simp
next
  case (Cons e recs)
  obtain r d where e: "e = (r, d)" by fastforce
  show ?case
  proof (cases "d \<and> locate_in W root F i r [''new'', ''cur''] \<noteq> None")
    case True
    then have d: d and "locate_in W root F i r [''new'', ''cur''] = Some (p, u)"
      using Cons.prems(4) e by (auto simp del: locate_in.simps)
    with locate_in_sound [OF assms(1) _ assms(2) this(2)] Cons.prems(3) e show ?thesis by auto
  next
    case False
    then have "d \<Longrightarrow> locate_in W root F i r [''new'', ''cur''] = None" by blast
    then have "locate_loop W root F i recs = Inr (p, u)"
      using Cons.prems(4) e by (cases d) (auto simp del: locate_in.simps)
    with Cons.IH [OF assms(1,2)] Cons.prems(3) show ?thesis by auto
  qed
qed

lemma locate_sound:
  assumes "store_ok root F" and "locate W root F i = Inr (p, u)"
  shows "validID i \<and> (\<exists>r. p = mpath root r (subdir u) i \<and> fs_at F p \<noteq> None \<and> plain r)"
proof -
  from assms(2) have v: "validID i"
    and "\<exists>es. os_ReadDir W F root = Inr es \<and> locate_loop W root F i es = Inr (p, u)"
    by (auto simp: locate_def split: if_splits sum.splits)
  then obtain es where es: "os_ReadDir W F root = Inr es" "locate_loop W root F i es = Inr (p, u)" by blast
  have pl: "\<forall>(n, d) \<in> set es. plain n"
  proof clarify
    fix n d
    assume "(n, d) \<in> set es"
    then have "n \<in> set (dir_names F root)" using ReadDir_names [OF es(1)] by (metis fst_conv image_eqI set_map)
    then show "plain n" using store_okD(4) [OF assms(1), of root] by (simp add: set_dir_names)
  qed
  then have "\<exists>r. (r, True) \<in> set es \<and> p = mpath root r (subdir u) i \<and> fs_at F p \<noteq> None"
    using store_okD(1) [OF assms(1)] validID_plain [OF v] es(2) by (intro locate_loop_sound) auto
  with v pl show ?thesis by blast
qed

text \<open>A message that is the only one of its id is found.\<close>

lemma locate_in_complete:
  assumes "cleaned root" and "plain r" and "plain i" and "no_faults W"
  shows "locate_in W root F i r [''new'', ''cur''] =
           (if fs_at F (mpath root r ''new'' i) \<noteq> None then Some (mpath root r ''new'' i, True)
            else if fs_at F (mpath root r ''cur'' i) \<noteq> None then Some (mpath root r ''cur'' i, False)
            else None)"
  using assms by (auto simp: Stat_no_fault Let_def)

definition only_copy :: "path \<Rightarrow> fs \<Rightarrow> mail_key \<Rightarrow> bool" where
  "only_copy root F k = (case k of (r, u, i) \<Rightarrow>
     \<forall>r' u'. fs_at F (mpath root r' (subdir u') i) \<noteq> None \<longrightarrow> r' = r \<and> u' = u)"

lemma locate_in_only:
  assumes "cleaned root" and "plain r'" and "plain i" and "no_faults W" and "only_copy root F (r, u, i)"
    and "fs_at F (mpath root r (subdir u) i) \<noteq> None"
  shows "locate_in W root F i r' [''new'', ''cur''] =
           (if r' = r then Some (mpath root r (subdir u) i, u) else None)"
proof -
  have o: "fs_at F (mpath root r' (subdir u') i) \<noteq> None \<longleftrightarrow> r' = r \<and> u' = u" for u'
    using assms(5,6) unfolding only_copy_def by blast
  have o: "fs_at F (mpath root r' ''new'' i) \<noteq> None \<longleftrightarrow> r' = r \<and> u"
    "fs_at F (mpath root r' ''cur'' i) \<noteq> None \<longleftrightarrow> r' = r \<and> \<not> u"
    using o [of True] o [of False] by (simp_all only: subdir_def if_True if_False) auto
  show ?thesis unfolding locate_in_complete [OF assms(1-4)] o by (auto simp: subdir_def)
qed

lemma locate_loop_only:
  assumes "cleaned root" and "plain i" and "no_faults W" and "only_copy root F (r, u, i)"
    and "fs_at F (mpath root r (subdir u) i) \<noteq> None"
  shows "\<forall>(n, d) \<in> set recs. plain n \<Longrightarrow> (r, True) \<in> set recs \<Longrightarrow>
    locate_loop W root F i recs = Inr (mpath root r (subdir u) i, u)"
proof (induction recs)
  case Nil
  then show ?case by simp
next
  case (Cons e recs)
  obtain r' d where e: "e = (r', d)" by fastforce
  with Cons.prems have "plain r'" by auto
  note l = locate_in_only [OF assms(1) this assms(2-5)]
  show ?case
  proof (cases "d \<and> r' = r")
    case True
    with e l show ?thesis by (simp del: locate_in.simps)
  next
    case False
    with Cons e have "locate_loop W root F i recs = Inr (mpath root r (subdir u) i, u)" by auto
    with e l False show ?thesis by (cases d) (auto simp del: locate_in.simps)
  qed
qed

lemma locate_only:
  assumes "store_ok root F" and "no_faults W" and "only_copy root F (r, u, i)" and "validID i"
    and "fs_at F (mpath root r (subdir u) i) \<noteq> None"
  shows "locate W root F i = Inr (mpath root r (subdir u) i, u)"
proof -
  note d = store_ok_mail_dirs [OF assms(1,5)]
  define es where "es = map (\<lambda>n. (n, is_dir F (child root n))) (dir_names F root)"
  have rd: "os_ReadDir W F root = Inr es"
    using d assms(2) by (simp add: os_ReadDir_def is_dir_def es_def)
  have "\<forall>(n, x) \<in> set es. plain n"
    using store_okD(4) [OF assms(1), of root] by (auto simp: es_def set_dir_names)
  moreover have "(r, True) \<in> set es" using d by (force simp: es_def set_dir_names is_dir_def)
  ultimately have "locate_loop W root F i es = Inr (mpath root r (subdir u) i, u)"
    using locate_loop_only [OF store_okD(1) [OF assms(1)] validID_plain [OF assms(4)] assms(2,3,5)] by blast
  with rd assms(4) show ?thesis by (simp add: locate_def)
qed

section \<open>Opening and deleting\<close>

lemma ReadFile_Inr: "os_ReadFile_at c W F p = Inr m \<Longrightarrow> fs_at F p = Some (FileNode m)"
  by (auto simp: os_ReadFile_at_def dest!: guarded_Inr split: option.splits node.splits)

lemma Dir_Dir_mpath [simp]: "filepath_Dir (filepath_Dir (mpath root r s i)) = child root r"
  by (simp add: mpath_def)

lemma Dir_mpath [simp]: "filepath_Dir (mpath root r s i) = child (child root r) s"
  by (simp add: mpath_def)

lemma mails_move_read:
  "fs_at F (mpath root r ''new'' i) = Some (FileNode m) \<Longrightarrow>
   mails root (AList.update (mpath root r ''cur'' i) (FileNode m) (AList.delete (mpath root r ''new'' i) F))
     = (mails root F)((r, True, i) := None, (r, False, i) \<mapsto> m)"
  using mails_update [of root r False i m] mails_delete [of root r True i] by (simp add: subdir_def)

lemma Rename_Inr:
  assumes "os_Rename W F p q = Inr G"
  obtains m where "fs_at F p = Some (FileNode m)" and "is_dir F (filepath_Dir q)" and "\<not> is_dir F q"
    and "G = AList.update q (FileNode m) (AList.delete p F)"
  using guarded_Inr [OF assms [unfolded os_Rename_def]] by (auto split: option.splits node.splits if_splits)

lemma CreateExcl_Inr:
  "os_CreateExcl W F p = Inr G \<Longrightarrow>
     fs_at F p = None \<and> is_dir F (filepath_Dir p) \<and> G = AList.update p (FileNode []) F"
  by (auto simp: os_CreateExcl_def dest!: guarded_Inr split: if_splits)

lemma Remove_Inr:
  assumes "os_Remove W F p = Inr G"
  shows "fs_at F p \<noteq> None \<and> G = AList.delete p F \<and> (is_dir F p \<longrightarrow> dir_names F p = [])"
  using guarded_Inr [OF assms [unfolded os_Remove_def]]
  by (auto simp: dir_names_def is_dir_def list_ex_iff filter_empty_conv split: option.splits node.splits if_splits)

lemma Remove_store_ok:
  assumes "store_ok root F" and "os_Remove W F p = Inr G"
  shows "store_ok root G"
proof -
  have G: "G = AList.delete p F" and e: "is_dir F p \<longrightarrow> dir_names F p = []"
    using Remove_Inr [OF assms(2)] by simp_all
  show ?thesis
  proof (cases "is_dir F p")
    case False
    with store_ok_delete_file [OF assms(1)] G show ?thesis by simp
  next
    case True
    then have none: "fs_at F (child p n) = None" for n using e set_dir_names [of n F p] by auto
    have k: "is_dir (AList.delete p F) q" if "is_dir F q" "q \<noteq> p" for q using that by (simp add: is_dir_def)
    show ?thesis
      unfolding G store_ok_def
      using store_okD [OF assms(1)] none k
      by (auto split: if_splits) (metis option.distinct(1))+
  qed
qed

lemma Store_Open_cases:
  assumes "store_ok root F" and "Store_Open W root F i = (res, F')"
  obtains (error) e where "res = Inl e" and "F' = F"
  | (read) raw r u where "res = Inr raw" and "F' = F" and "mails root F (r, u, i) = Some raw" and "plain r"
      and "locate W root F i = Inr (mpath root r (subdir u) i, u)"
  | (marked) raw r where "res = Inr raw" and "mails root F (r, True, i) = Some raw" and "plain r"
      and "F' = AList.update (mpath root r ''cur'' i) (FileNode raw) (AList.delete (mpath root r ''new'' i) F)"
      and "is_dir F (child (child root r) ''cur'')" and "\<not> is_dir F (mpath root r ''cur'' i)"
      and "locate W root F i = Inr (mpath root r ''new'' i, True)"
proof (cases "locate W root F i")
  case (Inl e)
  with assms(2) have "res = Inl e" "F' = F" by (auto simp: Store_Open_def)
  then show ?thesis by (rule error)
next
  case (Inr pu)
  obtain p u where pu: "pu = (p, u)" by fastforce
  obtain r where r: "p = mpath root r (subdir u) i" "plain r" and v: "validID i"
    using locate_sound [OF assms(1)] Inr pu by blast
  show ?thesis
  proof (cases "os_ReadFile_at SysReadFile W F p")
    case (Inl e)
    with assms(2) Inr pu have "res = Inl e" "F' = F" by (auto simp: Store_Open_def)
    then show ?thesis by (rule error)
  next
    case raw: (Inr raw)
    then have at: "fs_at F p = Some (FileNode raw)" by (rule ReadFile_Inr)
    then have m: "mails root F (r, u, i) = Some raw" using r by (simp add: mails_def)
    have J: "filepath_Join (child root r) [''cur'', i] = mpath root r ''cur'' i"
      using r v store_okD(1) [OF assms(1)] validID_plain by (simp add: mpath_def)
    have same: "res = Inr raw \<Longrightarrow> F' = F \<Longrightarrow> thesis" using read m r Inr pu by blast
    show ?thesis
    proof (cases "u \<and> (\<exists>G. os_Rename W F p (mpath root r ''cur'' i) = Inr G)")
      case False
      then have "res = Inr raw" "F' = F"
        using assms(2) Inr pu raw r J by (auto simp: Store_Open_def split: sum.splits if_splits)
      then show ?thesis by (rule same)
    next
      case True
      then obtain G where u: u and G: "os_Rename W F p (mpath root r ''cur'' i) = Inr G" by blast
      then have "res = Inr raw" "F' = G"
        using assms(2) Inr pu raw r J by (auto simp: Store_Open_def)
      moreover have "G = AList.update (mpath root r ''cur'' i) (FileNode raw) (AList.delete p F)"
        and "is_dir F (child (child root r) ''cur'')" and "\<not> is_dir F (mpath root r ''cur'' i)"
        using guarded_Inr [OF G [unfolded os_Rename_def]] at by (auto split: if_splits)
      ultimately show ?thesis using marked [of raw r] m u r Inr pu by (auto simp: subdir_def)
    qed
  qed
qed

lemma Store_Open_mails:
  assumes "store_ok root F" and "Store_Open W root F i = (Inr raw, F')"
  shows "\<exists>r u. mails root F (r, u, i) = Some raw \<and> locate W root F i = Inr (mpath root r (subdir u) i, u)
    \<and> (mails root F' = mails root F
       \<or> u \<and> mails root F' = (mails root F)((r, True, i) := None, (r, False, i) \<mapsto> raw))"
  using assms
proof (cases rule: Store_Open_cases)
  case (error e)
  then show ?thesis by simp
next
  case (read raw r u)
  then show ?thesis by blast
next
  case (marked raw' r)
  then have "fs_at F (mpath root r ''new'' i) = Some (FileNode raw')"
    using mails_SomeD [of root F r True i raw'] by (simp add: subdir_def)
  with marked mails_move_read [OF this]
  have "mails root F (r, True, i) = Some raw \<and> locate W root F i = Inr (mpath root r (subdir True) i, True)
      \<and> mails root F' = (mails root F)((r, True, i) := None, (r, False, i) \<mapsto> raw)"
    by (simp add: subdir_def)
  then show ?thesis by blast
qed

lemma Store_Open_store_ok:
  assumes "store_ok root F" and "Store_Open W root F i = (res, F')"
  shows "store_ok root F'"
  using assms
proof (cases rule: Store_Open_cases)
  case (error e)
  then show ?thesis using assms(1) by simp
next
  case (read raw r u)
  then show ?thesis using assms(1) by simp
next
  case (marked raw r)
  then have n: "fs_at F (mpath root r ''new'' i) = Some (FileNode raw)"
    using mails_SomeD [of root F r True i raw] by (simp add: subdir_def)
  have v: "plain i" using locate_sound [OF assms(1) marked(7)] validID_plain by blast
  have "store_ok root (AList.delete (mpath root r ''new'' i) F)"
    using n by (intro store_ok_delete_file [OF assms(1)]) (simp add: is_dir_def)
  then show ?thesis
    unfolding marked(4) using marked(5,6) v
    by (intro store_ok_update_file [where m = i]) (auto simp: is_dir_def mpath_def)
qed

lemma Store_Delete_cases:
  assumes "store_ok root F" and "Store_Delete W root F i = (res, F')"
  obtains (error) e where "res = Some e" and "F' = F"
  | (deleted) r u where "res = None" and "F' = AList.delete (mpath root r (subdir u) i) F"
      and "locate W root F i = Inr (mpath root r (subdir u) i, u)"
      and "os_Remove W F (mpath root r (subdir u) i) = Inr F'"
proof (cases "locate W root F i")
  case (Inl e)
  with assms(2) have "res = Some e" "F' = F" by (auto simp: Store_Delete_def)
  then show ?thesis by (rule error)
next
  case (Inr pu)
  obtain p u where pu: "pu = (p, u)" by fastforce
  obtain r where r: "p = mpath root r (subdir u) i" using locate_sound [OF assms(1)] Inr pu by blast
  show ?thesis
  proof (cases "os_Remove W F p")
    case (Inl e)
    with assms(2) Inr pu have "res = Some e" "F' = F" by (auto simp: Store_Delete_def)
    then show ?thesis by (rule error)
  next
    case G: (Inr G)
    moreover have "res = None" "F' = G" using assms(2) Inr pu G by (auto simp: Store_Delete_def)
    ultimately show ?thesis using deleted [of r u] r pu Inr Remove_Inr [OF G] by simp
  qed
qed

lemma Store_Delete_mails:
  assumes "store_ok root F" and "Store_Delete W root F i = (None, F')"
  shows "\<exists>r u. locate W root F i = Inr (mpath root r (subdir u) i, u)
           \<and> mails root F' = (mails root F)((r, u, i) := None)"
  using assms by (cases rule: Store_Delete_cases) auto

lemma Store_Delete_store_ok:
  assumes "store_ok root F" and "Store_Delete W root F i = (res, F')"
  shows "store_ok root F'"
  using assms by (cases rule: Store_Delete_cases) (auto dest: Remove_store_ok [OF assms(1)] simp: assms(1))

section \<open>What a delivery keeps and where it writes\<close>

lemma MkdirAll_store_ok:
  assumes "store_ok root F" and "plain rec" and "plain sub"
    and "os_MkdirAll W F (child (child root rec) sub) = Inr G"
  shows "store_ok root G"
proof -
  let ?cs = "snd root @ [rec, sub]"
  have m: "mkdir_all F (fst root) [] ?cs = Inr G"
    using assms(4) by (auto simp: os_MkdirAll_def child_def dest: guarded_Inr)
  have new: "\<exists>xs. xs \<noteq> [] \<and> prefix xs ?cs \<and> q = (fst root, xs)"
    if a: "fs_at F q = None" and b: "fs_at G q \<noteq> None" for q
  proof -
    obtain n where "fs_at G q = Some n" using b by auto
    from mkdir_all_new [OF m a this] show ?thesis by simp
  qed
  show ?thesis
    unfolding store_ok_def
  proof (intro conjI allI impI)
    fix q n
    assume u: "under root q" and a: "fs_at G (child q n) \<noteq> None"
    show "plain n"
    proof (cases "fs_at F (child q n) = None")
      case True
      with new [OF True a] have p: "prefix (snd q @ [n]) ?cs" by (auto simp: child_def)
      obtain ys where "snd q = snd root @ ys" using u by (auto simp: under_def prefix_def)
      with p have "prefix (ys @ [n]) [rec, sub]" by simp
      then have "n = rec \<or> n = sub" by (cases ys) (auto simp: prefix_Cons)
      with assms(2,3) show ?thesis by auto
    next
      case False
      then show ?thesis by (rule store_okD(4) [OF assms(1) u])
    qed
  next
    fix q n
    assume u: "under root q" and a: "fs_at G (child q n) \<noteq> None"
    show "is_dir G q"
    proof (cases "fs_at F (child q n) = None")
      case True
      with new [OF True a] have p: "prefix (snd q @ [n]) ?cs" by (auto simp: child_def)
      moreover have "snd q \<noteq> []" using u store_okD(2) [OF assms(1)] by (auto simp: under_def)
      ultimately have "is_dir G (fst root, [] @ snd q)"
        by (intro mkdir_all_dir [OF m]) (auto dest: append_prefixD)
      then show ?thesis using u by (cases q) (simp add: under_def)
    next
      case False
      then have "is_dir F q" by (rule store_okD(5) [OF assms(1) u])
      then show ?thesis using mkdir_all_keeps [OF m] by (simp add: is_dir_def)
    qed
  qed (use store_okD(1-3) [OF assms(1)] mkdir_all_wf [OF m] in simp_all)
qed

lemma make_subdirs_store_ok:
  assumes "plain rec"
  shows "store_ok root F \<Longrightarrow> \<forall>s \<in> set subs. plain s \<Longrightarrow> make_subdirs W (child root rec) subs F = (r, Fs) \<Longrightarrow>
    \<forall>G \<in> set (F # Fs). store_ok root G"
proof (induction subs arbitrary: F r Fs)
  case Nil
  then show ?case by simp
next
  case (Cons s subs)
  have J: "filepath_Join (child root rec) [s] = child (child root rec) s"
    using Cons.prems(2) assms store_okD(1) [OF Cons.prems(1)] by simp
  show ?case
  proof (cases "os_MkdirAll W F (child (child root rec) s)")
    case (Inl e)
    with Cons.prems J show ?thesis by auto
  next
    case (Inr G)
    then obtain Gs where Gs: "make_subdirs W (child root rec) subs G = (r, Gs)" "Fs = G # Gs"
      using Cons.prems(3) J by (auto split: prod.splits)
    have "plain s" using Cons.prems(2) by simp
    then have "store_ok root G" by (rule MkdirAll_store_ok [OF Cons.prems(1) assms _ Inr])
    with Cons.IH [OF this _ Gs(1)] Cons.prems Gs(2) show ?thesis by simp
  qed
qed

text \<open>The same for the states of \<open>deliver_file\<close>, given that tmp and new are directories.\<close>

lemma deliver_file_store_ok:
  assumes "store_ok root F" and "plain rec" and "plain i"
    and "is_dir F (child (child root rec) ''tmp'')" and "is_dir F (child (child root rec) ''new'')"
    and "deliver_file W (child root rec) i msg F = (r, Gs)"
  shows "\<forall>G \<in> set Gs. store_ok root G \<and> (\<forall>q. fs_at G q \<noteq> fs_at F q \<longrightarrow> near root rec q)"
proof -
  let ?t = "mpath root rec ''tmp'' i" and ?n = "mpath root rec ''new'' i"
  have t: "filepath_Join (child root rec) [''tmp'', i] = ?t" and n: "filepath_Join (child root rec) [''new'', i] = ?n"
    using assms(2,3) store_okD(1) [OF assms(1)] by (simp_all add: mpath_def)
  define F1 where "F1 = AList.update ?t (FileNode []) F"
  define F2 where "F2 = AList.update ?t (FileNode (written W ?t msg)) F1"
  have nr: "near root rec ?t" "near root rec ?n" by (simp_all add: near_def mpath_def child_def)
  have upd: "store_ok root (AList.update ?t (FileNode c) G)"
    if "store_ok root G" "is_dir G (child (child root rec) ''tmp'')" "\<not> is_dir G ?t" for G c
    using that assms(3) by (intro store_ok_update_file [where m = i]) (simp_all add: mpath_def)
  have dirs: "is_dir F1 (child (child root rec) s) = is_dir F (child (child root rec) s)"
      "is_dir F2 (child (child root rec) s) = is_dir F (child (child root rec) s)" for s
    by (simp_all add: F1_def F2_def is_dir_def mpath_def)
  have base: "store_ok root F1 \<and> store_ok root F2 \<and> store_ok root (AList.delete ?t F2)" if "fs_at F ?t = None"
  proof -
    have 1: "store_ok root F1" unfolding F1_def using that assms(1,4) by (intro upd) (simp_all add: is_dir_def)
    then have 2: "store_ok root F2" unfolding F2_def using assms(4) dirs by (intro upd) (simp_all add: F1_def is_dir_def)
    have "\<not> is_dir F2 ?t" by (simp add: F2_def is_dir_def)
    with 1 2 store_ok_delete_file show ?thesis by blast
  qed
  have diff: "fs_at F1 q \<noteq> fs_at F q \<longrightarrow> near root rec q" "fs_at F2 q \<noteq> fs_at F q \<longrightarrow> near root rec q"
    "fs_at (AList.delete ?t F2) q \<noteq> fs_at F q \<longrightarrow> near root rec q" for q
    using nr by (auto simp: F1_def F2_def)
  from assms(6) t n show ?thesis
  proof (cases rule: deliver_file_cases)
    case (create_failed e)
    then show ?thesis by simp
  next
    case (failed e F3)
    then have "Gs = [F1, F2, F3]" "F3 = F2 \<or> F3 = AList.delete ?t F2" by (simp_all add: F1_def F2_def)
    with base [OF failed(2)] diff show ?thesis by auto
  next
    case moved
    let ?F3 = "AList.update ?n (FileNode (written W ?t msg)) (AList.delete ?t F2)"
    have Gs: "Gs = [F1, F2, ?F3]" using moved by (simp add: F1_def F2_def)
    have "\<not> is_dir (AList.delete ?t F2) ?n" using moved(4) by (simp add: F1_def F2_def is_dir_def)
    moreover have "is_dir (AList.delete ?t F2) (child (child root rec) ''new'')"
      using assms(5) dirs(2) [of "''new''"] by (simp add: is_dir_def mpath_def)
    ultimately have "store_ok root ?F3"
      using base [OF moved(3)] assms(3) by (intro store_ok_update_file [where m = i]) (simp_all add: mpath_def)
    moreover have "fs_at ?F3 q \<noteq> fs_at F q \<longrightarrow> near root rec q" for q
      using diff(3) [of q] nr by (cases "q = ?n") simp_all
    ultimately show ?thesis using Gs base [OF moved(3)] diff by auto
  qed
qed

lemma Deliver_run_store_ok:
  assumes "store_ok root F" and "SLASH \<notin> set (hostname W)" and "plain (mailbox_name T rcpt)"
    and "Deliver_run T W root F rcpt msg = (r, Fs)"
  shows "\<forall>G \<in> set Fs. store_ok root G \<and> (\<forall>q. fs_at G q \<noteq> fs_at F q \<longrightarrow> near root (mailbox_name T rcpt) q)"
proof (cases "name_accepted (mailbox_name T rcpt)")
  case False
  with assms(1,4) show ?thesis by (auto simp: Deliver_run_bad_name)
next
  case True
  let ?rec = "mailbox_name T rcpt" and ?subs = "[''tmp'', ''new'', ''cur'']"
  have J: "filepath_Join root [?rec] = child root ?rec" using assms(3) store_okD(1) [OF assms(1)] by simp
  have near_dirs: "near root ?rec q" if d: "dirs_added root ?rec F G" and q: "fs_at G q \<noteq> fs_at F q" for G q
    using dirs_addedD(1) [OF d, of q] dirs_addedD(2) [OF d, of q] q
    by (cases "fs_at F q"; cases "fs_at G q") (auto simp: near_dir_def)
  have sub: "\<forall>G \<in> set (F # Ds). store_ok root G \<and> (\<forall>q. fs_at G q \<noteq> fs_at F q \<longrightarrow> near root ?rec q)"
    if m: "make_subdirs W (filepath_Join root [?rec]) ?subs F = (x, Ds)" for x Ds
  proof -
    have "\<forall>G \<in> set (F # Ds). store_ok root G"
      by (rule make_subdirs_store_ok [OF assms(3,1) _ m [unfolded J]]) simp
    moreover have "\<forall>G \<in> set (F # Ds). dirs_added root ?rec F G"
      using make_subdirs_states [OF store_okD(1) [OF assms(1)] assms(3) _ m [unfolded J]] by simp
    ultimately show ?thesis using near_dirs by blast
  qed
  from True assms(4) show ?thesis
  proof (cases rule: Deliver_run_split)
    case (mkdir_failed e Ds)
    with sub show ?thesis by simp
  next
    case (rand_failed e Ds)
    with sub show ?thesis by simp
  next
    case (filed rp Ds Gs)
    let ?L = "last (F # Ds)"
    have L: "store_ok root ?L" and Lq: "fs_at ?L q \<noteq> fs_at F q \<longrightarrow> near root ?rec q" for q
      using sub [OF filed(3)] last_in_set [of "F # Ds"] by blast+
    have "is_dir ?L (child (child root ?rec) ''tmp'')" "is_dir ?L (child (child root ?rec) ''new'')"
      using make_subdirs_states [OF store_okD(1) [OF assms(1)] assms(3) _ filed(3) [unfolded J]] by simp_all
    from deliver_file_store_ok [OF L assms(3) message_id_plain [OF assms(2)] this filed(4) [unfolded J]]
    have "\<forall>G \<in> set Gs. store_ok root G \<and> (\<forall>q. fs_at G q \<noteq> fs_at F q \<longrightarrow> near root ?rec q)"
      using Lq by metis
    with sub [OF filed(3)] filed(2) show ?thesis by auto
  qed
qed

lemma Deliver_run_ne: "Deliver_run T W root F rcpt msg = (r, Fs) \<Longrightarrow> Fs \<noteq> []"
  by (auto simp: Deliver_run_def Let_def split: if_splits prod.splits option.splits)

text \<open>A delivery into a store with nothing in its way and without faults succeeds.\<close>

definition way_clear :: "path \<Rightarrow> bytes \<Rightarrow> fs \<Rightarrow> bool" where
  "way_clear root rec F \<longleftrightarrow>
     (\<forall>xs m. xs \<noteq> [] \<longrightarrow> prefix xs (snd root @ [rec]) \<longrightarrow> fs_at F (fst root, xs) \<noteq> Some (FileNode m))
     \<and> (\<forall>s m. s \<in> set [''tmp'', ''new'', ''cur''] \<longrightarrow> fs_at F (child (child root rec) s) \<noteq> Some (FileNode m))"

lemma way_clear_dirs_added: "dirs_added root rec F G \<Longrightarrow> way_clear root rec F \<Longrightarrow> way_clear root rec G"
proof -
  assume d: "dirs_added root rec F G" and w: "way_clear root rec F"
  have "fs_at G q \<noteq> Some (FileNode m)" if "\<And>m. fs_at F q \<noteq> Some (FileNode m)" for q m
  proof (cases "fs_at F q")
    case None
    show ?thesis using dirs_addedD(2) [OF d None, of "FileNode m"] by auto
  next
    case (Some n)
    with dirs_addedD(1) [OF d Some] that show ?thesis by simp
  qed
  then show ?thesis using w unfolding way_clear_def by blast
qed

lemma MkdirAll_succeeds:
  assumes "no_faults W" and "way_clear root rec F" and "s \<in> set [''tmp'', ''new'', ''cur'']"
  shows "\<exists>G. os_MkdirAll W F (child (child root rec) s) = Inr G"
proof -
  have "\<exists>G. mkdir_all F (fst root) [] (snd root @ [rec, s]) = Inr G"
  proof (rule mkdir_all_succeeds)
    fix xs m
    assume "xs \<noteq> []" and p: "prefix xs (snd root @ [rec, s])"
    moreover from p have "prefix xs (snd root @ [rec]) \<or> xs = snd root @ [rec, s]"
      using prefix_snoc [of xs "snd root @ [rec]" s] by auto
    ultimately show "fs_at F (fst root, [] @ xs) \<noteq> Some (FileNode m)"
      using assms(2,3) unfolding way_clear_def child_def by auto
  qed
  then show ?thesis using assms(1) by (simp add: os_MkdirAll_def child_def)
qed

lemma make_subdirs_succeeds:
  assumes "no_faults W" and "cleaned root" and "plain rec"
  shows "way_clear root rec F \<Longrightarrow> set subs \<subseteq> set [''tmp'', ''new'', ''cur''] \<Longrightarrow>
    \<exists>Fs. make_subdirs W (child root rec) subs F = (None, Fs)"
proof (induction subs arbitrary: F)
  case Nil
  then show ?case by simp
next
  case (Cons s subs)
  then obtain G where G: "os_MkdirAll W F (child (child root rec) s) = Inr G"
    using MkdirAll_succeeds [OF assms(1) Cons.prems(1), of s] by auto
  then have "way_clear root rec G" using MkdirAll_sub [OF G] Cons.prems(1) way_clear_dirs_added by blast
  then obtain Fs where "make_subdirs W (child root rec) subs G = (None, Fs)"
    using Cons.IH [of G] Cons.prems(2) by auto
  moreover have "plain s" using Cons.prems(2) by auto
  ultimately show ?case using G assms(2,3) by simp
qed

lemma Deliver_run_succeeds:
  assumes "cleaned root" and "SLASH \<notin> set (hostname W)" and "plain (mailbox_name T rcpt)"
    and "BACKSLASH \<notin> set (mailbox_name T rcpt)" and "no_faults W" and "rand_read W = Some rp"
    and "way_clear root (mailbox_name T rcpt) F"
    and "\<And>s. fs_at F (mpath root (mailbox_name T rcpt) s (message_id W rp)) = None"
  shows "fst (Deliver_run T W root F rcpt msg) = Inr (message_id W rp)"
proof -
  let ?rec = "mailbox_name T rcpt" and ?i = "message_id W rp"
  have acc: "name_accepted ?rec" using assms(3,4) by (simp add: name_accepted_def plain_def)
  have J: "filepath_Join root [?rec] = child root ?rec" and cl: "cleaned (child root ?rec)"
    using assms(1,3) by simp_all
  have pi: "plain ?i" by (rule message_id_plain [OF assms(2)])
  obtain Ds where Ds: "make_subdirs W (child root ?rec) [''tmp'', ''new'', ''cur''] F = (None, Ds)"
    using make_subdirs_succeeds [OF assms(5,1,3,7)] by blast
  let ?L = "last (F # Ds)"
  note st = make_subdirs_states [OF assms(1,3) _ Ds]
  then have d: "dirs_added root ?rec F ?L" using last_in_set [of "F # Ds"] by simp
  have dirs: "is_dir ?L (child (child root ?rec) ''tmp'')" "is_dir ?L (child (child root ?rec) ''new'')"
    using st by simp_all
  have none: "fs_at ?L (mpath root ?rec s ?i) = None" for s
    using dirs_addedD(2) [OF d assms(8) [of s]]
    by (cases "fs_at ?L (mpath root ?rec s ?i)") (auto simp: near_dir_def mpath_def child_def)
  have c: "os_CreateExcl W ?L (mpath root ?rec ''tmp'' ?i)
      = Inr (AList.update (mpath root ?rec ''tmp'' ?i) (FileNode []) ?L)"
    using assms(5) dirs none by (simp add: os_CreateExcl_def)
  let ?m = "written W (mpath root ?rec ''tmp'' ?i) msg"
  obtain we where w: "os_Write W G (mpath root ?rec ''tmp'' ?i) msg
      = (we, AList.update (mpath root ?rec ''tmp'' ?i) (FileNode ?m) G)" for G
    by (cases "short_write W (mpath root ?rec ''tmp'' ?i)") (simp_all add: os_Write_def written_def)
  have cl0: "sys_fail W SysClose p = None" for p using assms(5) by (cases p) (simp add: no_faults_def)
  have "\<exists>G. os_Rename W (AList.update (mpath root ?rec ''tmp'' ?i) (FileNode ?m)
      (AList.update (mpath root ?rec ''tmp'' ?i) (FileNode []) ?L)) (mpath root ?rec ''tmp'' ?i) (mpath root ?rec ''new'' ?i) = Inr G"
    using assms(5) dirs none by (simp add: os_Rename_def is_dir_def mpath_def)
  then have "fst (deliver_file W (child root ?rec) ?i msg ?L) = Inr ?i"
    using c w cl0 cl pi by (auto simp: deliver_file_def Let_def mpath_def)
  then show ?thesis
    using acc Ds J assms(6)
    by (auto simp: Deliver_run_def Let_def name_accepted_def strings_ContainsAny_iff
        simp del: make_subdirs.simps simp flip: mailbox_name_def split: prod.splits)
qed

section \<open>The listing\<close>

definition key :: "message \<Rightarrow> mail_key" where
  "key m = (Recipient m, Unread m, ID m)"

text \<open>The summary of a message from its bytes alone.\<close>

definition message_of :: "mail_env \<Rightarrow> mail_key \<Rightarrow> bytes \<Rightarrow> message" where
  "message_of M k raw =
     (case k of (r, u, i) \<Rightarrow>
        (case mail_ReadMessage (take headerPeekBytes raw) of
           None \<Rightarrow> new_message i r u
         | Some (h, _) \<Rightarrow> fillHeaders M (new_message i r u) h))"

lemma key_fillHeaders [simp]: "key (fillHeaders M m h) = key m"
  by (simp add: key_def fillHeaders_def Let_def split: option.splits prod.splits)

lemma key_new_message [simp]: "key (new_message i r u) = (r, u, i)"
  by (simp add: key_def new_message_def)

lemma key_message_of [simp]: "key (message_of M k raw) = k"
  by (cases k) (simp add: message_of_def split: option.splits prod.splits)

lemma summary_message_of:
  assumes "no_faults W" and "fs_at F p = Some (FileNode raw)"
  shows "summary M W F p i r u = message_of M (r, u, i) raw"
  using assms by (simp add: summary_def message_of_def os_ReadFile_at_def Let_def)

text \<open>One subdirectory: the files in it, in the order of their names.\<close>

definition sub_keys :: "path \<Rightarrow> fs \<Rightarrow> bytes \<Rightarrow> bool \<Rightarrow> mail_key list" where
  "sub_keys root F r u =
     map (\<lambda>i. (r, u, i)) (filter (\<lambda>i. mails root F (r, u, i) \<noteq> None) (dir_names F (child (child root r) (subdir u))))"

lemma set_sub_keys: "k \<in> set (sub_keys root F r u) \<longleftrightarrow> (\<exists>i. k = (r, u, i) \<and> mails root F k \<noteq> None)"
  by (auto simp: sub_keys_def set_dir_names) (force simp: mpath_def dest: mails_SomeD)

lemma distinct_sub_keys: "fs_wf F \<Longrightarrow> distinct (sub_keys root F r u)"
  by (auto simp: sub_keys_def distinct_map distinct_dir_names intro: inj_onI)

lemma not_dir_mails:
  "fs_at F (mpath root r (subdir u) i) \<noteq> None \<Longrightarrow>
     \<not> is_dir F (mpath root r (subdir u) i) \<longleftrightarrow> mails root F (r, u, i) \<noteq> None"
  by (auto simp: mails_def is_dir_def split: node.splits)

lemma list_sub_eq:
  assumes "store_ok root F" and "no_faults W" and "plain r"
  shows "list_sub M W root F r (subdir u, u)
           = map (\<lambda>k. message_of M k (the (mails root F k))) (sub_keys root F r u)"
proof -
  let ?d = "child (child root r) (subdir u)"
  have J: "filepath_Join (filepath_Join root [r]) [subdir u] = ?d"
    using assms(3) store_okD(1) [OF assms(1)] by simp
  have u: "under root ?d" by simp
  show ?thesis
  proof (cases "is_dir F ?d")
    case False
    then have "dir_names F ?d = []"
      using store_okD(5) [OF assms(1) u] set_dir_names [of _ F ?d] by (metis list.set_intros(1) neq_Nil_conv)
    moreover have "list_sub M W root F r (subdir u, u) = []"
      using False assms(2) J by (auto simp: list_sub_def os_ReadDir_def is_dir_def split: option.splits node.splits)
    ultimately show ?thesis by (simp add: sub_keys_def)
  next
    case True
    let ?ns = "filter (\<lambda>n. \<not> is_dir F (child ?d n)) (dir_names F ?d)"
    have ns: "?ns = filter (\<lambda>i. mails root F (r, u, i) \<noteq> None) (dir_names F ?d)"
      by (rule filter_cong [OF refl]) (use not_dir_mails set_dir_names in \<open>auto simp: mpath_def\<close>)
    have e: "summary M W F (filepath_Join (filepath_Join root [r]) [subdir u, i]) i r u
        = message_of M (r, u, i) (the (mails root F (r, u, i)))" if "i \<in> set ?ns" for i
    proof -
      have i: "i \<in> set (dir_names F ?d)" and m: "mails root F (r, u, i) \<noteq> None" using that ns by auto
      have "plain i" using i store_okD(4) [OF assms(1) u] by (simp add: set_dir_names)
      then have "filepath_Join (filepath_Join root [r]) [subdir u, i] = mpath root r (subdir u) i"
        using assms(3) store_okD(1) [OF assms(1)] by (simp add: mpath_def)
      moreover obtain c where "mails root F (r, u, i) = Some c" using m by auto
      ultimately show ?thesis using summary_message_of [OF assms(2) mails_SomeD] by simp
    qed
    have "list_sub M W root F r (subdir u, u)
        = map (\<lambda>i. summary M W F (filepath_Join (filepath_Join root [r]) [subdir u, i]) i r u) ?ns"
      using True assms(2) J by (simp add: list_sub_def os_ReadDir_def is_dir_def filter_map o_def)
    also have "\<dots> = map (\<lambda>i. message_of M (r, u, i) (the (mails root F (r, u, i)))) ?ns"
      using e by simp
    finally show ?thesis unfolding ns by (simp add: sub_keys_def)
  qed
qed

definition all_keys :: "path \<Rightarrow> fs \<Rightarrow> mail_key list" where
  "all_keys root F =
     concat (map (\<lambda>r. sub_keys root F r True @ sub_keys root F r False)
               (filter (\<lambda>r. is_dir F (child root r)) (dir_names F root)))"

lemma set_all_keys:
  assumes "store_ok root F"
  shows "set (all_keys root F) = dom (mails root F)"
proof
  show "set (all_keys root F) \<subseteq> dom (mails root F)" by (auto simp: all_keys_def set_sub_keys)
next
  show "dom (mails root F) \<subseteq> set (all_keys root F)"
  proof
    fix k
    assume k: "k \<in> dom (mails root F)"
    obtain r u i where e: "k = (r, u, i)" by (metis prod_cases3)
    then have "fs_at F (mpath root r (subdir u) i) \<noteq> None" using k by (auto dest: mails_SomeD)
    note d = store_ok_mail_dirs [OF assms this]
    then have "r \<in> set (filter (\<lambda>r. is_dir F (child root r)) (dir_names F root))"
      by (simp add: set_dir_names is_dir_def)
    moreover have "k \<in> set (sub_keys root F r True @ sub_keys root F r False)"
      using k e by (cases u) (auto simp: set_sub_keys)
    ultimately show "k \<in> set (all_keys root F)" unfolding all_keys_def by auto
  qed
qed

lemma distinct_all_keys: "fs_wf F \<Longrightarrow> distinct (all_keys root F)"
proof -
  assume wf: "fs_wf F"
  have "distinct (concat (map (\<lambda>r. sub_keys root F r True @ sub_keys root F r False) rs))" if "distinct rs" for rs
    using that by (induction rs) (use wf in \<open>auto simp: distinct_sub_keys set_sub_keys\<close>)
  then show ?thesis unfolding all_keys_def using distinct_dir_names [OF wf] by simp
qed

lemma Store_List_eq:
  assumes "store_ok root F" and "no_faults W" and "\<And>m. fs_at F root \<noteq> Some (FileNode m)"
  shows "Store_List M W root F = Inr (if is_dir F root
           then sort_by_date M (map (\<lambda>k. message_of M k (the (mails root F k))) (all_keys root F)) else [])"
proof (cases "is_dir F root")
  case False
  then have "fs_at F root = None" using assms(3) by (metis is_dir_def node.exhaust option.exhaust)
  then show ?thesis using assms(2) False by (simp add: Store_List_def os_ReadDir_def)
next
  case True
  let ?rs = "filter (\<lambda>r. is_dir F (child root r)) (dir_names F root)"
  have pl: "plain r" if "r \<in> set ?rs" for r
    using that store_okD(4) [OF assms(1), of root r] by (simp add: set_dir_names)
  have l: "concat (map (list_sub M W root F r) [(''new'', True), (''cur'', False)])
      = map (\<lambda>k. message_of M k (the (mails root F k))) (sub_keys root F r True @ sub_keys root F r False)"
    if "r \<in> set ?rs" for r
    using list_sub_eq [OF assms(1,2) pl [OF that], of M True] list_sub_eq [OF assms(1,2) pl [OF that], of M False]
    by (simp add: subdir_def)
  have "Store_List M W root F = Inr (sort_by_date M (concat (map
      (\<lambda>r. concat (map (list_sub M W root F r) [(''new'', True), (''cur'', False)])) ?rs)))"
    using True assms(2) by (simp add: Store_List_def os_ReadDir_def is_dir_def filter_map o_def)
  also have "concat (map (\<lambda>r. concat (map (list_sub M W root F r) [(''new'', True), (''cur'', False)])) ?rs)
      = concat (map (\<lambda>r. map (\<lambda>k. message_of M k (the (mails root F k)))
          (sub_keys root F r True @ sub_keys root F r False)) ?rs)"
    using l by (metis (no_types, lifting) map_cong)
  finally show ?thesis using True by (simp add: all_keys_def map_concat o_def)
qed

end
