(* ===== verification/MaildirProps.thy ===== *)
theory MaildirProps
  imports Maildir
begin

text \<open>
  The interface the rest of the program uses a message store through (locale \<open>mail_store\<close>), its
  interpretation on the operations of \<open>Maildir\<close>, the states a store goes through under any
  sequence of operations and faults, and the properties of the store.
\<close>

section \<open>The store as an interface\<close>

text \<open>
  An abstract store: a state with an invariant and the messages it holds; a delivery that adds
  exactly one unread message or none; opening and deleting by id. \<open>fit\<close> says which calling
  circumstances (clock, host name, recipient) the contract covers, \<open>stored\<close> what bytes end up in
  the store.
\<close>

locale mail_store =
  fixes inv :: "'s \<Rightarrow> bool"
    and abs :: "'s \<Rightarrow> mail_key \<Rightarrow> bytes option"
    and fit :: "'w \<Rightarrow> bytes \<Rightarrow> bool"
    and name :: "'w \<Rightarrow> bytes \<Rightarrow> bytes"
    and stored :: "'w \<Rightarrow> 's \<Rightarrow> bytes \<Rightarrow> bytes \<Rightarrow> bytes \<Rightarrow> bytes"
    and deliver :: "'w \<Rightarrow> 's \<Rightarrow> bytes \<Rightarrow> bytes \<Rightarrow> (io_error + bytes) \<times> 's"
    and open_mail :: "'w \<Rightarrow> 's \<Rightarrow> bytes \<Rightarrow> (io_error + bytes) \<times> 's"
    and delete :: "'w \<Rightarrow> 's \<Rightarrow> bytes \<Rightarrow> io_error option \<times> 's"
  assumes deliver_inv: "inv s \<Longrightarrow> fit w r \<Longrightarrow> inv (snd (deliver w s r m))"
    and deliver_ok: "inv s \<Longrightarrow> fit w r \<Longrightarrow> deliver w s r m = (Inr i, s') \<Longrightarrow>
      abs s' = (abs s)((name w r, True, i) \<mapsto> stored w s r i m)"
    and deliver_err: "inv s \<Longrightarrow> fit w r \<Longrightarrow> deliver w s r m = (Inl e, s') \<Longrightarrow> abs s' = abs s"
    and open_inv: "inv s \<Longrightarrow> inv (snd (open_mail w s i))"
    and open_ok: "inv s \<Longrightarrow> open_mail w s i = (Inr raw, s') \<Longrightarrow>
      \<exists>r u. abs s (r, u, i) = Some raw
        \<and> (abs s' = abs s \<or> u \<and> abs s' = (abs s)((r, True, i) := None, (r, False, i) \<mapsto> raw))"
    and open_err: "inv s \<Longrightarrow> open_mail w s i = (Inl e, s') \<Longrightarrow> s' = s"
    and delete_inv: "inv s \<Longrightarrow> inv (snd (delete w s i))"
    and delete_ok: "inv s \<Longrightarrow> delete w s i = (None, s') \<Longrightarrow> \<exists>r u. abs s' = (abs s)((r, u, i) := None)"
    and delete_err: "inv s \<Longrightarrow> delete w s i = (Some e, s') \<Longrightarrow> s' = s"
begin

text \<open>Opening never loses or invents a message, whatever its outcome.\<close>

lemma open_keeps_messages:
  assumes "inv s" and "open_mail w s i = (res, s')" and "\<And>r. abs s (r, False, i) = None \<or> abs s (r, True, i) = None"
  shows "(\<exists>u. abs s' (r, u, j) = Some raw) \<longleftrightarrow> (\<exists>u. abs s (r, u, j) = Some raw)"
proof (cases res)
  case (Inl e)
  with open_err assms show ?thesis by blast
next
  case (Inr raw')
  then obtain r' u' where m: "abs s (r', u', i) = Some raw'"
    and c: "abs s' = abs s \<or> u' \<and> abs s' = (abs s)((r', True, i) := None, (r', False, i) \<mapsto> raw')"
    using open_ok assms(1,2) by blast
  from c show ?thesis
  proof
    assume "abs s' = abs s"
    then show ?thesis by simp
  next
    assume u: "u' \<and> abs s' = (abs s)((r', True, i) := None, (r', False, i) \<mapsto> raw')"
    then have t: "abs s (r', True, i) = Some raw'" and f: "abs s (r', False, i) = None"
      using m assms(3) [of r'] by auto
    show ?thesis
    proof (cases "r = r' \<and> j = i")
      case True
      then have "(\<exists>u. abs s' (r, u, j) = Some raw) \<longleftrightarrow> raw = raw'"
        using u by auto
      moreover have "(\<exists>u. abs s (r, u, j) = Some raw) \<longleftrightarrow> raw = raw'"
        using True t f by (metis (full_types) option.distinct(1) option.inject)
      ultimately show ?thesis by simp
    next
      case False
      then show ?thesis using u by auto
    qed
  qed
qed

lemma delete_keeps_others:
  "inv s \<Longrightarrow> delete w s i = (res, s') \<Longrightarrow> j \<noteq> i \<Longrightarrow> abs s' (r, u, j) = abs s (r, u, j)"
proof (cases res)
  case None
  assume "inv s" and "delete w s i = (res, s')" and "j \<noteq> i"
  with None delete_ok show ?thesis by fastforce
next
  case (Some e)
  assume "inv s" and "delete w s i = (res, s')"
  with Some delete_err show ?thesis by blast
qed

lemma deliver_keeps_others:
  "inv s \<Longrightarrow> fit w r \<Longrightarrow> deliver w s r m = (res, s') \<Longrightarrow> (\<And>i. res = Inr i \<Longrightarrow> k \<noteq> (name w r, True, i)) \<Longrightarrow>
     abs s' k = abs s k"
  by (cases res) (auto simp: deliver_ok deliver_err)

end

text \<open>The maildir's calls as such a store: the state is the root with the file system.\<close>

text \<open>The contract covers a host name without a slash and every recipient but dot and dot-dot.\<close>

definition deliver_fit :: "utab \<times> os_env \<Rightarrow> bytes \<Rightarrow> bool" where
  "deliver_fit w rcpt \<longleftrightarrow>
     SLASH \<notin> set (hostname (snd w)) \<and> mailbox_name (fst w) rcpt \<noteq> ''.'' \<and> mailbox_name (fst w) rcpt \<noteq> ''..''"

definition md_deliver :: "utab \<times> os_env \<Rightarrow> path \<times> fs \<Rightarrow> bytes \<Rightarrow> bytes \<Rightarrow> (io_error + bytes) \<times> (path \<times> fs)" where
  "md_deliver w s rcpt msg =
     (case Deliver (fst w) (snd w) (fst s) (snd s) rcpt msg of (r, F) \<Rightarrow> (r, (fst s, F)))"

definition md_open :: "utab \<times> os_env \<Rightarrow> path \<times> fs \<Rightarrow> bytes \<Rightarrow> (io_error + bytes) \<times> (path \<times> fs)" where
  "md_open w s mid = (case Store_Open (snd w) (fst s) (snd s) mid of (r, F) \<Rightarrow> (r, (fst s, F)))"

definition md_delete :: "utab \<times> os_env \<Rightarrow> path \<times> fs \<Rightarrow> bytes \<Rightarrow> io_error option \<times> (path \<times> fs)" where
  "md_delete w s mid = (case Store_Delete (snd w) (fst s) (snd s) mid of (r, F) \<Rightarrow> (r, (fst s, F)))"

definition md_stored :: "utab \<times> os_env \<Rightarrow> path \<times> fs \<Rightarrow> bytes \<Rightarrow> bytes \<Rightarrow> bytes \<Rightarrow> bytes" where
  "md_stored w s rcpt mid msg = written (snd w) (mpath (fst s) (mailbox_name (fst w) rcpt) ''tmp'' mid) msg"

lemma Deliver_eq: "Deliver T W root F rcpt msg = (r, G) \<Longrightarrow> \<exists>Fs. Deliver_run T W root F rcpt msg = (r, Fs) \<and> Fs \<noteq> [] \<and> last Fs = G"
  using Deliver_run_ne [of T W root F rcpt msg] by (auto simp: Deliver_def split: prod.splits)

lemma Deliver_store_ok:
  assumes "store_ok root F" and "SLASH \<notin> set (hostname W)" and "plain (mailbox_name T rcpt)"
    and "Deliver T W root F rcpt msg = (r, G)"
  shows "store_ok root G"
proof -
  obtain Fs where "Deliver_run T W root F rcpt msg = (r, Fs)" "Fs \<noteq> []" "last Fs = G"
    using Deliver_eq [OF assms(4)] by blast
  with Deliver_run_store_ok [OF assms(1-3)] last_in_set show ?thesis by blast
qed

lemma Deliver_mails:
  assumes "cleaned root" and "SLASH \<notin> set (hostname W)" and "plain (mailbox_name T rcpt)"
    and "Deliver T W root F rcpt msg = (r, G)"
  shows "case r of Inl e \<Rightarrow> mails root G = mails root F
         | Inr i \<Rightarrow> mails root G = (mails root F)((mailbox_name T rcpt, True, i) \<mapsto>
                      written W (mpath root (mailbox_name T rcpt) ''tmp'' i) msg)"
proof -
  obtain Fs where "Deliver_run T W root F rcpt msg = (r, Fs)" "Fs \<noteq> []" "last Fs = G"
    using Deliver_eq [OF assms(4)] by blast
  with Deliver_run_mails [OF assms(1-3) this(1)] last_in_set [of Fs] show ?thesis
    by (cases r) auto
qed

text \<open>A successful delivery, at the level of the files: \<open>cur\<close> is there, no other file changed.\<close>

lemma Deliver_filed:
  assumes "store_ok root F" and "SLASH \<notin> set (hostname W)" and "plain (mailbox_name T rcpt)"
    and "Deliver T W root F rcpt msg = (Inr i, G)"
  shows "is_dir G (child (child root (mailbox_name T rcpt)) ''cur'')
    \<and> fs_at G (mpath root (mailbox_name T rcpt) ''tmp'' i) = None
    \<and> (\<forall>r s j. (r, s, j) \<notin> {(mailbox_name T rcpt, ''new'', i), (mailbox_name T rcpt, ''tmp'', i)} \<longrightarrow>
         fs_at G (mpath root r s j) = fs_at F (mpath root r s j))"
proof -
  let ?rec = "mailbox_name T rcpt"
  note root = store_okD(1) [OF assms(1)]
  have J: "filepath_Join root [?rec] = child root ?rec" and cl: "cleaned (child root ?rec)"
    using root assms(3) by simp_all
  obtain Fs where run: "Deliver_run T W root F rcpt msg = (Inr i, Fs)" and G: "last Fs = G"
    using Deliver_eq [OF assms(4)] by blast
  have acc: "name_accepted ?rec" using run Deliver_run_bad_name [of T rcpt W root F msg] by (rule_tac ccontr) simp
  from acc run show ?thesis
  proof (cases rule: Deliver_run_split)
    case (filed rp Ds Gs)
    let ?L = "last (F # Ds)"
    have pi: "plain (message_id W rp)" by (rule message_id_plain [OF assms(2)])
    then have t: "filepath_Join (filepath_Join root [?rec]) [''tmp'', message_id W rp] = mpath root ?rec ''tmp'' (message_id W rp)"
      and n: "filepath_Join (filepath_Join root [?rec]) [''new'', message_id W rp] = mpath root ?rec ''new'' (message_id W rp)"
      using cl J by (simp_all add: mpath_def)
    note st = make_subdirs_states [OF root assms(3) _ filed(3) [unfolded J]]
    have d: "dirs_added root ?rec F ?L" and cur: "is_dir ?L (child (child root ?rec) ''cur'')"
      using st last_in_set [of "F # Ds"] by simp_all
    have same: "fs_at ?L (mpath root r s j) = fs_at F (mpath root r s j)" for r s j
      using dirs_addedD(1,2) [OF d, of "mpath root r s j"]
      by (cases "fs_at F (mpath root r s j)"; cases "fs_at ?L (mpath root r s j)")
        (auto simp: near_dir_def mpath_def child_def)
    from filed(4) t n show ?thesis
    proof (cases rule: deliver_file_cases)
      case moved
      then have "G = last Gs" "i = message_id W rp" using G filed(2) by auto
      with moved(2) cur same show ?thesis by (auto simp: is_dir_def mpath_def)
    qed simp_all
  qed simp_all
qed

lemma Deliver_bad_name: "\<not> plain n \<Longrightarrow> n = mailbox_name T rcpt \<Longrightarrow> n \<noteq> ''.'' \<Longrightarrow> n \<noteq> ''..'' \<Longrightarrow>
   Deliver T W root F rcpt msg = (Inl (ErrInvalid n), F)"
  by (auto simp: Deliver_def Deliver_run_bad_name name_accepted_def plain_def)

lemma Deliver_fit:
  assumes "store_ok root F" and "deliver_fit (T, W) rcpt" and "Deliver T W root F rcpt msg = (r, G)"
  shows "store_ok root G"
    and "case r of Inl e \<Rightarrow> mails root G = mails root F
         | Inr i \<Rightarrow> mails root G = (mails root F)((mailbox_name T rcpt, True, i) \<mapsto>
                      written W (mpath root (mailbox_name T rcpt) ''tmp'' i) msg)"
proof -
  have h: "SLASH \<notin> set (hostname W)" using assms(2) by (simp add: deliver_fit_def)
  show "store_ok root G"
  proof (cases "plain (mailbox_name T rcpt)")
    case True
    then show ?thesis using Deliver_store_ok [OF assms(1) h _ assms(3)] by simp
  next
    case False
    with assms Deliver_bad_name [OF False refl] show ?thesis by (simp add: deliver_fit_def)
  qed
  show "case r of Inl e \<Rightarrow> mails root G = mails root F
         | Inr i \<Rightarrow> mails root G = (mails root F)((mailbox_name T rcpt, True, i) \<mapsto>
                      written W (mpath root (mailbox_name T rcpt) ''tmp'' i) msg)"
  proof (cases "plain (mailbox_name T rcpt)")
    case True
    then show ?thesis using Deliver_mails [OF store_okD(1) [OF assms(1)] h _ assms(3)] by simp
  next
    case False
    with assms Deliver_bad_name [OF False refl, of W root F msg] have "r = Inl (ErrInvalid (mailbox_name T rcpt))" "G = F"
      by (simp_all add: deliver_fit_def)
    then show ?thesis by simp
  qed
qed

interpretation maildir: mail_store
  "\<lambda>s. store_ok (fst s) (snd s)" "\<lambda>s. mails (fst s) (snd s)" deliver_fit
  "\<lambda>w. mailbox_name (fst w)" md_stored md_deliver md_open md_delete
proof (unfold_locales, goal_cases)
  case (1 s w r m)
  then show ?case
    using Deliver_fit(1) [of "fst s" "snd s" "fst w" "snd w" r m] by (auto simp: md_deliver_def split: prod.splits)
next
  case (2 s w r m i s')
  then obtain G where "Deliver (fst w) (snd w) (fst s) (snd s) r m = (Inr i, G)" "s' = (fst s, G)"
    by (auto simp: md_deliver_def split: prod.splits)
  with Deliver_fit(2) [OF 2(1) _ this(1)] 2(2) show ?case by (simp add: md_stored_def)
next
  case (3 s w r m e s')
  then obtain G where "Deliver (fst w) (snd w) (fst s) (snd s) r m = (Inl e, G)" "s' = (fst s, G)"
    by (auto simp: md_deliver_def split: prod.splits)
  with Deliver_fit(2) [OF 3(1) _ this(1)] 3(2) show ?case by simp
next
  case (4 s w i)
  then show ?case by (auto simp: md_open_def split: prod.splits dest: Store_Open_store_ok)
next
  case (5 s w i raw s')
  then obtain G where "Store_Open (snd w) (fst s) (snd s) i = (Inr raw, G)" "s' = (fst s, G)"
    by (auto simp: md_open_def split: prod.splits)
  with Store_Open_mails [OF 5(1)] show ?case by fastforce
next
  case (6 s w i e s')
  then obtain G where o: "Store_Open (snd w) (fst s) (snd s) i = (Inl e, G)" and "s' = (fst s, G)"
    by (auto simp: md_open_def split: prod.splits)
  then show ?case by (cases rule: Store_Open_cases [OF 6(1) o]) (auto simp: prod_eq_iff)
next
  case (7 s w i)
  then show ?case by (auto simp: md_delete_def split: prod.splits dest: Store_Delete_store_ok)
next
  case (8 s w i s')
  then obtain G where "Store_Delete (snd w) (fst s) (snd s) i = (None, G)" "s' = (fst s, G)"
    by (auto simp: md_delete_def split: prod.splits)
  with Store_Delete_mails [OF 8(1)] show ?case by fastforce
next
  case (9 s w i e s')
  then obtain G where d: "Store_Delete (snd w) (fst s) (snd s) i = (Some e, G)" and "s' = (fst s, G)"
    by (auto simp: md_delete_def split: prod.splits)
  then show ?case by (cases rule: Store_Delete_cases [OF 9(1) d]) (auto simp: prod_eq_iff)
qed

section \<open>What a delivery does to the store\<close>

lemma written_full: "full_writes W \<Longrightarrow> written W p msg = msg"
  by (cases p) (simp add: written_def full_writes_def)

lemma written_prefix: "prefix (written W p msg) msg"
  by (simp add: written_def take_is_prefix split: option.splits)

text \<open>
  A sample store: the empty file system and root \<^verbatim>\<open>/d\<close>.
\<close>

definition sample_root :: path where
  "sample_root = (True, [''d''])"

definition sample_id :: bytes where
  "sample_id = ''17.4.h.41''"

lemma sample_id_eq: "message_id sample_os ''A'' = sample_id"
  by (simp add: message_id_def sample_os_def sample_id_def strconv_FormatInt_def dec_digits.simps
      hex_EncodeToString_def hex2_def digit_char_def hex_char_def char_of_def bit_0)

lemma sample_store_ok [simp]: "store_ok sample_root []"
  by (simp add: store_ok_def sample_root_def cleaned_def fs_wf_def)

lemma sample_mailbox [simp]: "mailbox_name ascii_utab ''A@b'' = ''a@b''"
  by (simp add: mailbox_name_def strings_TrimSpace_def strings_ToLower_def rune_eval)

lemma sample_mailbox_plain [simp]: "plain ''a@b''"
  by (simp add: plain_def)

text \<open>
  C7. A delivery is atomic: in every state it goes through, and so wherever the process stops, the
  mailbox holds what it held before, and only the last state of a delivery that reports an id
  has one message more: unread, under that id, in the recipient's mailbox, with the bytes the
  write put into the temporary file. A delivery that reports an error leaves the mailbox as it
  was in all its states.
\<close>
theorem deliver_atomic:
  assumes "store_ok root F" and "SLASH \<notin> set (hostname W)" and "plain (mailbox_name T rcpt)"
  shows "case Deliver_run T W root F rcpt msg of
           (Inl e, Fs) \<Rightarrow> \<forall>G \<in> set Fs. mails root G = mails root F
         | (Inr i, Fs) \<Rightarrow> Fs \<noteq> [] \<and> (\<forall>G \<in> set (butlast Fs). mails root G = mails root F)
             \<and> mails root (last Fs) = (mails root F)((mailbox_name T rcpt, True, i) \<mapsto>
                 written W (mpath root (mailbox_name T rcpt) ''tmp'' i) msg)"
proof (cases "Deliver_run T W root F rcpt msg")
  case (Pair r Fs)
  with Deliver_run_mails [OF store_okD(1) [OF assms(1)] assms(2,3) Pair] show ?thesis
    by (cases r) simp_all
qed

theorem deliver_atomic_witness:
  "case Deliver_run ascii_utab sample_os sample_root [] ''A@b'' ''hi'' of
     (Inl e, Fs) \<Rightarrow> \<forall>G \<in> set Fs. mails sample_root G = mails sample_root []
   | (Inr i, Fs) \<Rightarrow> Fs \<noteq> [] \<and> (\<forall>G \<in> set (butlast Fs). mails sample_root G = mails sample_root [])
       \<and> mails sample_root (last Fs) = (mails sample_root [])((''a@b'', True, i) \<mapsto>
           written sample_os (mpath sample_root ''a@b'' ''tmp'' i) ''hi'')"
  using deliver_atomic [of sample_root "[]" sample_os ascii_utab "''A@b''" "''hi''", unfolded sample_mailbox] by simp

text \<open>
  A delivery stays in its place: whatever fails, every path whose contents differ from before,
  in any state the delivery goes through, is an ancestor of the store's root or lies in the
  recipient's own directory, and the store stays well formed.
\<close>
lemma deliver_confined:
  assumes "store_ok root F" and "SLASH \<notin> set (hostname W)" and "plain (mailbox_name T rcpt)"
  shows "\<forall>G \<in> set (snd (Deliver_run T W root F rcpt msg)). store_ok root G
           \<and> {q. fs_at G q \<noteq> fs_at F q}
               \<subseteq> {q. fst q = fst root
                   \<and> (prefix (snd q) (snd root) \<or> prefix (snd root @ [mailbox_name T rcpt]) (snd q))}"
  using Deliver_run_store_ok [OF assms, of msg "fst (Deliver_run T W root F rcpt msg)" "snd (Deliver_run T W root F rcpt msg)"]
  by (simp add: near_def subset_iff)

lemma Deliver_succeeds:
  assumes "store_ok root F" and "SLASH \<notin> set (hostname W)" and "plain (mailbox_name T rcpt)"
    and "BACKSLASH \<notin> set (mailbox_name T rcpt)" and "no_faults W" and "rand_read W = Some rp"
    and "way_clear root (mailbox_name T rcpt) F"
    and "\<And>s. fs_at F (mpath root (mailbox_name T rcpt) s (message_id W rp)) = None"
  shows "\<exists>G. Deliver T W root F rcpt msg = (Inr (message_id W rp), G) \<and> store_ok root G
    \<and> is_dir G (child (child root (mailbox_name T rcpt)) ''cur'')
    \<and> mails root G = (mails root F)((mailbox_name T rcpt, True, message_id W rp) \<mapsto>
        written W (mpath root (mailbox_name T rcpt) ''tmp'' (message_id W rp)) msg)"
proof -
  have "fst (Deliver T W root F rcpt msg) = Inr (message_id W rp)"
    using Deliver_run_succeeds [OF store_okD(1) [OF assms(1)] assms(2-8), of msg] by (auto simp: Deliver_def split: prod.splits)
  then obtain G where d: "Deliver T W root F rcpt msg = (Inr (message_id W rp), G)" by (metis prod.collapse)
  have "is_dir G (child (child root (mailbox_name T rcpt)) ''cur'')"
    using Deliver_filed [OF assms(1-3) d] by simp
  with d Deliver_store_ok [OF assms(1-3) d] Deliver_mails [OF store_okD(1) [OF assms(1)] assms(2,3) d]
  show ?thesis by simp
qed

lemma sample_clear [simp]: "way_clear sample_root r []"
  by (simp add: way_clear_def)

text \<open>
  C25. A delivery that meets no failing call, finds no file where its directories have to be, and draws
  an id that is not taken, reports that id, and afterwards the mailbox holds exactly one
  message more: the whole message, unread, under the reported id.
\<close>
theorem deliver_succeeds:
  assumes "store_ok root F" and "SLASH \<notin> set (hostname W)" and "plain (mailbox_name T rcpt)"
    and "BACKSLASH \<notin> set (mailbox_name T rcpt)" and "no_faults W" and "full_writes W" and "rand_read W = Some rp"
    and "way_clear root (mailbox_name T rcpt) F"
    and "\<And>s. fs_at F (mpath root (mailbox_name T rcpt) s (message_id W rp)) = None"
  shows "\<exists>G. Deliver T W root F rcpt msg = (Inr (message_id W rp), G)
    \<and> mails root G = (mails root F)((mailbox_name T rcpt, True, message_id W rp) \<mapsto> msg)"
  using Deliver_succeeds [OF assms(1-5,7-9), of msg] written_full [OF assms(6)] by auto

theorem deliver_succeeds_witness:
  "\<exists>G. Deliver ascii_utab sample_os sample_root [] ''A@b'' ''hi'' = (Inr sample_id, G)
    \<and> mails sample_root G = (mails sample_root [])((''a@b'', True, sample_id) \<mapsto> ''hi'')"
  using deliver_succeeds [of sample_root "[]" sample_os ascii_utab "''A@b''" "''A''" "''hi''"]
  by (simp add: sample_id_eq)

text \<open>
  C26. The error of the write is lost: when the operating system stops the write of the temporary file
  after \<open>n\<close> bytes with an error (a full disk) and no other call fails, the delivery still
  reports success and the truncated message is filed as a new one.
\<close>
theorem deliver_swallows_write_error:
  assumes "store_ok root F" and "SLASH \<notin> set (hostname W)" and "plain (mailbox_name T rcpt)"
    and "BACKSLASH \<notin> set (mailbox_name T rcpt)" and "no_faults W" and "rand_read W = Some rp"
    and "way_clear root (mailbox_name T rcpt) F"
    and "\<And>s. fs_at F (mpath root (mailbox_name T rcpt) s (message_id W rp)) = None"
    and "short_write W (mpath root (mailbox_name T rcpt) ''tmp'' (message_id W rp)) = Some n"
  shows "\<exists>G. Deliver T W root F rcpt msg = (Inr (message_id W rp), G)
    \<and> mails root G = (mails root F)((mailbox_name T rcpt, True, message_id W rp) \<mapsto> take n msg)"
  using Deliver_succeeds [OF assms(1-8), of msg] assms(9) by (auto simp: written_def)

theorem deliver_swallows_write_error_witness:
  "\<exists>G. Deliver ascii_utab (sample_os\<lparr>short_write := \<lambda>_. Some 1\<rparr>) sample_root [] ''A@b'' ''hi'' = (Inr sample_id, G)
    \<and> mails sample_root G = (mails sample_root [])((''a@b'', True, sample_id) \<mapsto> ''h'')"
  using deliver_swallows_write_error [of sample_root "[]" "sample_os\<lparr>short_write := \<lambda>_. Some 1\<rparr>" ascii_utab "''A@b''" "''A''" 1 "''hi''"]
  using sample_id_eq sample_os_simps(1) by (simp add: message_id_def no_faults_def)

section \<open>A message from delivery to deletion\<close>

lemma only_copy_iff:
  "only_copy root F (r, u, i) \<longleftrightarrow> (\<forall>r' u'. (r', u') \<noteq> (r, u) \<longrightarrow> fs_at F (mpath root r' (subdir u') i) = None)"
  unfolding only_copy_def prod.case prod.inject by (intro all_cong1) argo

lemma Store_Open_only:
  assumes "store_ok root F" and "no_faults W" and "only_copy root F (r, u, i)" and "validID i"
    and "mails root F (r, u, i) = Some raw" and "is_dir F (child (child root r) ''cur'')"
  shows "\<exists>G. Store_Open W root F i = (Inr raw, G) \<and> store_ok root G \<and> only_copy root G (r, False, i)
    \<and> mails root G = (mails root F)((r, u, i) := None, (r, False, i) \<mapsto> raw)"
proof -
  have at: "fs_at F (mpath root r (subdir u) i) = Some (FileNode raw)" using assms(5) by (rule mails_SomeD)
  have l: "locate W root F i = Inr (mpath root r (subdir u) i, u)"
    by (rule locate_only [OF assms(1-4)]) (simp add: at)
  have rd: "os_ReadFile_at SysReadFile W F (mpath root r (subdir u) i) = Inr raw"
    using at assms(2) by (simp add: os_ReadFile_at_def)
  show ?thesis
  proof (cases u)
    case False
    then have "Store_Open W root F i = (Inr raw, F)" using l rd by (simp add: Store_Open_def)
    moreover have "mails root F = (mails root F)((r, u, i) := None, (r, False, i) \<mapsto> raw)"
      using False assms(5) by auto
    ultimately show ?thesis using assms(1,3) False by auto
  next
    case True
    let ?G = "AList.update (mpath root r ''cur'' i) (FileNode raw) (AList.delete (mpath root r ''new'' i) F)"
    have c: "fs_at F (mpath root r ''cur'' i) = None"
      using assms(3) [unfolded only_copy_iff, rule_format, of r False] True by (simp add: subdir_def)
    have d: "is_dir F (child root r)" "plain r" using store_ok_mail_dirs [OF assms(1), of r "subdir u" i] at by simp_all
    have J: "filepath_Join (child root r) [''cur'', i] = mpath root r ''cur'' i"
      using d validID_plain [OF assms(4)] store_okD(1) [OF assms(1)] by (simp add: mpath_def)
    have "os_Rename W F (mpath root r ''new'' i) (mpath root r ''cur'' i) = Inr ?G"
      using at True assms(2,6) c by (simp add: os_Rename_def subdir_def is_dir_def)
    then have o: "Store_Open W root F i = (Inr raw, ?G)"
      using l rd True J by (simp add: Store_Open_def subdir_def)
    have "fs_at ?G (mpath root r' (subdir u') i) = None" if "(r', u') \<noteq> (r, False)" for r' u'
    proof (cases "(r', u') = (r, True)")
      case False
      then have "fs_at F (mpath root r' (subdir u') i) = None" using assms(3) True by (simp add: only_copy_iff)
      with that False show ?thesis by (auto simp: subdir_def)
    qed (simp add: subdir_def)
    then have "only_copy root ?G (r, False, i)" by (simp add: only_copy_iff)
    moreover have "mails root ?G = (mails root F)((r, u, i) := None, (r, False, i) \<mapsto> raw)"
      using mails_move_read [of F root r i raw] at True by (simp add: subdir_def)
    ultimately show ?thesis using o Store_Open_store_ok [OF assms(1) o] by blast
  qed
qed

lemma Store_Delete_only:
  assumes "store_ok root F" and "no_faults W" and "only_copy root F (r, u, i)" and "validID i"
    and "mails root F (r, u, i) = Some raw"
  shows "\<exists>G. Store_Delete W root F i = (None, G) \<and> mails root G = (mails root F)((r, u, i) := None)"
proof -
  have at: "fs_at F (mpath root r (subdir u) i) = Some (FileNode raw)" using assms(5) by (rule mails_SomeD)
  have "locate W root F i = Inr (mpath root r (subdir u) i, u)"
    by (rule locate_only [OF assms(1-4)]) (simp add: at)
  then show ?thesis using at assms(2) by (simp add: Store_Delete_def os_Remove_def)
qed

lemma message_id_valid:
  assumes "SLASH \<notin> set (hostname W)" and "BACKSLASH \<notin> set (hostname W)"
  shows "validID (message_id W rp)"
proof -
  have "BACKSLASH \<notin> set (strconv_FormatInt i)" for i by (rule FormatInt_no_sep) (simp_all add: is_digit_def)
  moreover have "BACKSLASH \<notin> set (hex_EncodeToString rp)"
    using hex_EncodeToString_is_hex by (fastforce simp: is_hex_def)
  ultimately show ?thesis
    using message_id_plain [OF assms(1)] assms(2) by (simp add: validID_iff) (simp add: message_id_def)
qed

text \<open>Every id a delivery returns is made from the clock, the process, the host name and random bytes.\<close>

lemma Deliver_id: "Deliver T W root F rcpt msg = (Inr i, G) \<Longrightarrow> \<exists>rp. i = message_id W rp"
  by (auto simp: Deliver_def Deliver_run_def deliver_file_def Let_def simp del: make_subdirs.simps
      split: prod.splits if_splits option.splits sum.splits)

lemma message_id_no_percent:
  assumes "CHR ''%'' \<notin> set (hostname W)"
  shows "CHR ''%'' \<notin> set (message_id W rp)"
proof -
  have "CHR ''%'' \<notin> set (strconv_FormatInt i)" for i by (rule FormatInt_no_sep) (simp_all add: is_digit_def)
  moreover have "CHR ''%'' \<notin> set (hex_EncodeToString rp)"
    using hex_EncodeToString_is_hex by (fastforce simp: is_hex_def)
  ultimately show ?thesis using assms by (simp add: message_id_def)
qed

text \<open>
  C8. The life of a message. A delivery under a fresh id, when no call fails, reports the id; opening
  that id returns the message byte for byte and turns it from unread to read, opening it again
  returns it again and changes nothing in the mailbox, and deleting it gives back the mailbox
  as it was before the delivery. No other message changes at any point.
\<close>
theorem message_lifecycle:
  assumes "store_ok root F" and "SLASH \<notin> set (hostname W)" and "BACKSLASH \<notin> set (hostname W)"
    and "plain (mailbox_name T rcpt)" and "BACKSLASH \<notin> set (mailbox_name T rcpt)"
    and "no_faults W" and "full_writes W" and "rand_read W = Some rp"
    and "way_clear root (mailbox_name T rcpt) F"
    and "\<And>r s. fs_at F (mpath root r s (message_id W rp)) = None"
  shows "\<exists>i G1 G2 G3 G4. Deliver T W root F rcpt msg = (Inr i, G1)
    \<and> mails root G1 = (mails root F)((mailbox_name T rcpt, True, i) \<mapsto> msg)
    \<and> Store_Open W root G1 i = (Inr msg, G2)
    \<and> mails root G2 = (mails root F)((mailbox_name T rcpt, False, i) \<mapsto> msg)
    \<and> Store_Open W root G2 i = (Inr msg, G3) \<and> mails root G3 = mails root G2
    \<and> Store_Delete W root G3 i = (None, G4) \<and> mails root G4 = mails root F"
proof -
  let ?rec = "mailbox_name T rcpt" and ?i = "message_id W rp"
  have vi: "validID ?i" by (rule message_id_valid [OF assms(2,3)])
  have fresh: "mails root F (r, u, ?i) = None" for r u using assms(10) by (simp add: mails_def)
  obtain G1 where G1: "Deliver T W root F rcpt msg = (Inr ?i, G1)" "store_ok root G1"
    "is_dir G1 (child (child root ?rec) ''cur'')" "mails root G1 = (mails root F)((?rec, True, ?i) \<mapsto> msg)"
    using Deliver_succeeds [OF assms(1,2,4,5,6,8,9,10), of msg] written_full [OF assms(7)] by auto
  have oc: "only_copy root G1 (?rec, True, ?i)"
    unfolding only_copy_iff
  proof (intro allI impI)
    fix r u
    assume "(r, u) \<noteq> (?rec, True)"
    then have "(r, subdir u, ?i) \<notin> {(?rec, ''new'', ?i), (?rec, ''tmp'', ?i)}" by (auto simp: subdir_def)
    then show "fs_at G1 (mpath root r (subdir u) ?i) = None"
      using Deliver_filed [OF assms(1,2,4) G1(1)] assms(10) by presburger
  qed
  obtain G2 where G2: "Store_Open W root G1 ?i = (Inr msg, G2)" "store_ok root G2" "only_copy root G2 (?rec, False, ?i)"
    "mails root G2 = (mails root G1)((?rec, True, ?i) := None, (?rec, False, ?i) \<mapsto> msg)"
    using Store_Open_only [OF G1(2) assms(6) oc vi, of msg] G1(3,4) by auto
  then have m2: "mails root G2 = (mails root F)((?rec, False, ?i) \<mapsto> msg)"
    using fresh [of ?rec True] by (simp add: G1(4) fun_eq_iff)
  then have at: "mails root G2 (?rec, False, ?i) = Some msg" by simp
  then have cur: "is_dir G2 (child (child root ?rec) ''cur'')"
    using store_ok_mail_dirs [OF G2(2), of ?rec "subdir False" ?i] by (auto simp: subdir_def dest: mails_SomeD)
  obtain G3 where G3: "Store_Open W root G2 ?i = (Inr msg, G3)" "store_ok root G3" "only_copy root G3 (?rec, False, ?i)"
    "mails root G3 = mails root G2"
    using Store_Open_only [OF G2(2) assms(6) G2(3) vi at cur] at by (auto simp: fun_upd_idem)
  obtain G4 where "Store_Delete W root G3 ?i = (None, G4)" "mails root G4 = (mails root G3)((?rec, False, ?i) := None)"
    using Store_Delete_only [OF G3(2) assms(6) G3(3) vi, of msg] G3(4) at by auto
  moreover from this(2) have "mails root G4 = mails root F"
    using fresh [of ?rec False] by (simp add: G3(4) m2 fun_eq_iff)
  ultimately show ?thesis using G1(1,4) G2(1) G3(1,4) m2 by (intro exI conjI)
qed

theorem message_lifecycle_witness:
  "\<exists>i G1 G2 G3 G4. Deliver ascii_utab sample_os sample_root [] ''A@b'' ''hi'' = (Inr i, G1)
    \<and> mails sample_root G1 = (mails sample_root [])((''a@b'', True, i) \<mapsto> ''hi'')
    \<and> Store_Open sample_os sample_root G1 i = (Inr ''hi'', G2)
    \<and> mails sample_root G2 = (mails sample_root [])((''a@b'', False, i) \<mapsto> ''hi'')
    \<and> Store_Open sample_os sample_root G2 i = (Inr ''hi'', G3) \<and> mails sample_root G3 = mails sample_root G2
    \<and> Store_Delete sample_os sample_root G3 i = (None, G4) \<and> mails sample_root G4 = mails sample_root []"
  using message_lifecycle [of sample_root "[]" sample_os ascii_utab "''A@b''" "''A''" "''hi''", unfolded sample_mailbox]
  by simp

section \<open>The listing\<close>

text \<open>
  C24. The listing is exact: without faults it returns one entry per stored message, each with the
  message's recipient, id and read state and the summary of its first 64 KiB, no entry twice,
  newest first. \<open>sort_ok\<close> is what \<^verbatim>\<open>sort.Slice\<close> documents.
\<close>
theorem listing_exact:
  assumes "store_ok root F" and "no_faults W" and "\<And>m. fs_at F root \<noteq> Some (FileNode m)"
    and "sort_ok (sort_by_date M)"
  shows "\<exists>ms. Store_List M W root F = Inr ms
    \<and> distinct (map key ms) \<and> key ` set ms = dom (mails root F)
    \<and> (\<forall>m \<in> set ms. \<exists>raw. mails root F (key m) = Some raw \<and> m = message_of M (key m) raw)
    \<and> sorted_wrt (\<lambda>a b. Date b \<le> Date a) ms"
proof (cases "is_dir F root")
  case False
  then have "mails root F k = None" for k
    using store_ok_mail_dirs [OF assms(1), of "fst k" "subdir (fst (snd k))" "snd (snd k)"]
    by (cases "mails root F k"; cases k) (auto dest: mails_SomeD)
  then have "dom (mails root F) = {}" by auto
  then show ?thesis using Store_List_eq [OF assms(1-3), of M] False by simp
next
  case True
  let ?xs = "map (\<lambda>k. message_of M k (the (mails root F k))) (all_keys root F)"
  let ?ms = "sort_by_date M ?xs"
  have ms: "Store_List M W root F = Inr ?ms" using Store_List_eq [OF assms(1-3), of M] True by simp
  have perm: "mset ?ms = mset ?xs" and sorted: "sorted_wrt (\<lambda>a b. Date b \<le> Date a) ?ms"
    using assms(4) by (simp_all add: sort_ok_def)
  have "map key ?xs = all_keys root F" by (simp add: o_def)
  then have keys: "mset (map key ?ms) = mset (all_keys root F)" using perm by (metis mset_map)
  have "distinct (map key ?ms)"
    using mset_eq_imp_distinct_iff [OF keys] distinct_all_keys [OF store_okD(3) [OF assms(1)]] by simp
  moreover have ks: "key ` set ?ms = dom (mails root F)"
    using mset_eq_setD [OF keys] set_all_keys [OF assms(1)] by simp
  moreover have "\<exists>raw. mails root F (key m) = Some raw \<and> m = message_of M (key m) raw" if "m \<in> set ?ms" for m
  proof -
    have "m \<in> set ?xs" using that perm by (metis set_mset_mset)
    then obtain k where m: "m = message_of M k (the (mails root F k))" by auto
    moreover have "key m \<in> dom (mails root F)" using ks that by blast
    ultimately show ?thesis by auto
  qed
  ultimately show ?thesis using ms sorted by blast
qed

text \<open>A mail environment with parsers that recognise nothing and a stable sort.\<close>

definition sample_mail_env :: mail_env where
  "sample_mail_env = \<lparr>DecodeHeader = \<lambda>_. None, ParseAddress = \<lambda>_. None, ParseDate = \<lambda>_. None,
     sort_by_date = sort_key (\<lambda>m. - Date m)\<rparr>"

lemma sample_sort_ok [simp]: "sort_ok (sort_by_date sample_mail_env)"
proof -
  have "sorted_wrt (\<lambda>a b. Date b \<le> Date a) (sort_key (\<lambda>m. - Date m) ms)" for ms :: "message list"
    using sorted_sort_key [of "\<lambda>m. - Date m" ms] by (simp add: sorted_map)
  then show ?thesis by (simp add: sort_ok_def sample_mail_env_def)
qed

definition sample_fs :: fs where
  "sample_fs =
     [((True, [''d'']), DirNode), ((True, [''d'', ''a@b'']), DirNode), ((True, [''d'', ''a@b'', ''cur'']), DirNode),
      ((True, [''d'', ''a@b'', ''cur'', ''7'']), FileNode ''hi'')]"

lemma sample_fs_ok [simp]: "store_ok sample_root sample_fs"
  by (auto simp: store_ok_def sample_root_def sample_fs_def cleaned_def fs_wf_def child_def under_def is_dir_def
      plain_def prefix_def split: if_splits)

theorem listing_exact_witness:
  "\<exists>ms. Store_List sample_mail_env sample_os sample_root sample_fs = Inr ms
    \<and> distinct (map key ms) \<and> key ` set ms = dom (mails sample_root sample_fs)
    \<and> (\<forall>m \<in> set ms. \<exists>raw. mails sample_root sample_fs (key m) = Some raw \<and> m = message_of sample_mail_env (key m) raw)
    \<and> sorted_wrt (\<lambda>a b. Date b \<le> Date a) ms"
  by (rule listing_exact) (simp_all, simp add: sample_fs_def sample_root_def)

section \<open>Stores over time\<close>

text \<open>
  The states a store reaches from \<open>F0\<close> under deliveries, openings and deletions in any order, with
  any faults. A delivery may stop after any of its calls, as when the process is killed. The log
  collects the deliveries.
\<close>

inductive store_reach :: "utab \<Rightarrow> path \<Rightarrow> fs \<Rightarrow> (os_env \<times> bytes \<times> bytes) list \<Rightarrow> fs \<Rightarrow> bool"
  for T root F0 where
  start: "store_reach T root F0 [] F0"
| deliver: "store_reach T root F0 log F \<Longrightarrow> SLASH \<notin> set (hostname W) \<Longrightarrow> plain (mailbox_name T rcpt) \<Longrightarrow>
    Deliver_run T W root F rcpt msg = (res, Fs) \<Longrightarrow> G \<in> set Fs \<Longrightarrow> store_reach T root F0 ((W, rcpt, msg) # log) G"
| open_mail: "store_reach T root F0 log F \<Longrightarrow> Store_Open W root F i = (res, G) \<Longrightarrow> store_reach T root F0 log G"
| delete: "store_reach T root F0 log F \<Longrightarrow> Store_Delete W root F i = (e, G) \<Longrightarrow> store_reach T root F0 log G"

lemma reach_store_ok: "store_reach T root F0 log F \<Longrightarrow> store_ok root F0 \<Longrightarrow> store_ok root F"
proof (induction rule: store_reach.induct)
  case (deliver log F W rcpt msg res Fs G)
  then show ?case using Deliver_run_store_ok [of root F W T rcpt msg res Fs] by blast
qed (auto dest: Store_Open_store_ok Store_Delete_store_ok)

text \<open>Where a message can come from: the store at the start, or a delivery to its recipient.\<close>

definition origin :: "utab \<Rightarrow> path \<Rightarrow> fs \<Rightarrow> (os_env \<times> bytes \<times> bytes) list \<Rightarrow> bytes \<Rightarrow> bytes \<Rightarrow> bytes \<Rightarrow> bool" where
  "origin T root F0 log r i raw \<longleftrightarrow>
     (\<exists>u. mails root F0 (r, u, i) = Some raw)
     \<or> (\<exists>(W, rcpt, msg) \<in> set log. mailbox_name T rcpt = r \<and> prefix raw msg \<and> (full_writes W \<longrightarrow> raw = msg))"

lemma origin_mono: "origin T root F0 log r i raw \<Longrightarrow> origin T root F0 (x # log) r i raw"
  by (auto simp: origin_def)

lemma origin_written: "origin T root F0 ((W, rcpt, msg) # log) (mailbox_name T rcpt) i (written W p msg)"
  using written_prefix [of W p msg] written_full [of W p msg] by (auto simp: origin_def)

lemma in_set_butlast_or_last: "x \<in> set xs \<Longrightarrow> x \<in> set (butlast xs) \<or> x = last xs"
  by (cases xs rule: rev_cases) auto

lemma reach_origin:
  "store_reach T root F0 log F \<Longrightarrow> store_ok root F0 \<Longrightarrow> mails root F (r, u, i) = Some raw \<Longrightarrow> origin T root F0 log r i raw"
proof (induction arbitrary: r u i raw rule: store_reach.induct)
  case start
  then show ?case by (auto simp: origin_def)
next
  case (deliver log F W rcpt msg res Fs G)
  have root: "cleaned root" using deliver.prems(1) store_okD(1) by blast
  consider "mails root G = mails root F"
    | j where "mails root G = (mails root F)((mailbox_name T rcpt, True, j) \<mapsto>
        written W (mpath root (mailbox_name T rcpt) ''tmp'' j) msg)"
    using Deliver_run_mails [OF root deliver.hyps(2-4)] deliver.hyps(5)
      in_set_butlast_or_last [OF deliver.hyps(5)] by (cases res) auto
  then show ?case
    by cases (use deliver.IH [OF deliver.prems(1), of r u i raw] deliver.prems(2) in
      \<open>auto simp: origin_mono origin_written split: if_splits\<close>)
next
  case (open_mail log F W j res G)
  have ok: "store_ok root F" using reach_store_ok [OF open_mail.hyps(1) open_mail.prems(1)] .
  from ok open_mail.hyps(2) show ?case
  proof (cases rule: Store_Open_cases)
    case (marked raw' r')
    then have "mails root G = (mails root F)((r', True, j) := None, (r', False, j) \<mapsto> raw')"
      using mails_move_read [of F root r' j raw'] by (auto simp: subdir_def dest: mails_SomeD)
    then show ?thesis using open_mail.IH [OF open_mail.prems(1)] open_mail.prems(2) marked(2) by (auto split: if_splits)
  qed (use open_mail in auto)
next
  case (delete log F W j e G)
  have ok: "store_ok root F" using reach_store_ok [OF delete.hyps(1) delete.prems(1)] .
  from ok delete.hyps(2) show ?case
  proof (cases rule: Store_Delete_cases)
    case (deleted r' u')
    then show ?thesis using delete.IH [OF delete.prems(1)] delete.prems(2) by (auto split: if_splits)
  qed (use delete in auto)
qed

text \<open>
  Whatever happens to a store (any deliveries, openings and deletions in any order, any call
  failing, any delivery killed half way), it stays well formed, and every message it shows was
  there at the start or was delivered to that very recipient; with complete writes its bytes are
  exactly the delivered ones.
\<close>
lemma store_reach_invariant:
  assumes "store_reach T root F0 log F" and "store_ok root F0"
  shows "store_ok root F \<and> (\<forall>r u i raw. mails root F (r, u, i) = Some raw \<longrightarrow> origin T root F0 log r i raw)"
  using reach_store_ok [OF assms] reach_origin [OF assms] by blast

end
