(* ===== verification/SmtpServer.thy ===== *)
theory SmtpServer
  imports Config MaildirProps
begin

text \<open>
  Package \<^verbatim>\<open>internal/smtpserver\<close>, server.go: the session the SMTP library calls back (\<^verbatim>\<open>Mail\<close>, \<^verbatim>\<open>Rcpt\<close>,
  \<^verbatim>\<open>Data\<close>, \<^verbatim>\<open>Reset\<close>, \<^verbatim>\<open>Logout\<close>), the headers it puts in front of a message and the delivery loop.
  The library decides the order of the calls; the step relation here allows every order. Each
  delivery has an operating-system environment of its own (clock, random bytes, faults), so
  \<^verbatim>\<open>Data\<close> takes a sequence of them.
\<close>

section \<open>Data\<close>

definition MaxMessageBytes :: nat where
  "MaxMessageBytes = 25 * 2 ^ 20"

record options =
  opt_Domain :: bytes
  opt_Policy :: policy
  opt_AcceptsRecipient :: "bytes \<Rightarrow> bool"
  opt_Store :: path
  opt_TLSCertDir :: bytes
  opt_OnDeliver :: bool

record session =
  opts :: options
  clientIP :: "bytes option"
  mailFrom :: bytes
  rcpts :: "bytes list"

datatype session_error = ReaderError bytes | SMTPError nat "nat \<times> nat \<times> nat" bytes

text \<open>What a session acts on: the files, and the messages \<^verbatim>\<open>OnDeliver\<close> has been called with.\<close>

record smtp_world =
  files :: fs
  notified :: "bytes list"

text \<open>A reader: the bytes it yields and the error it ends with, if it is not the end of the data.\<close>

type_synonym reader = "bytes \<times> bytes option"

section \<open>Operations\<close>

definition NewSession :: "options \<Rightarrow> bytes option \<Rightarrow> session" where
  "NewSession os remoteAddr = \<lparr>opts = os, clientIP = remoteAddr, mailFrom = [], rcpts = []\<rparr>"

definition Reset :: "session \<Rightarrow> session" where
  "Reset s = s\<lparr>mailFrom := [], rcpts := []\<rparr>"

definition Logout :: "session \<Rightarrow> session_error option" where
  "Logout s = None"

definition Mail :: "session \<Rightarrow> bytes \<Rightarrow> session_error option \<times> session" where
  "Mail s from = (None, s\<lparr>mailFrom := from\<rparr>)"

definition Rcpt :: "utab \<Rightarrow> session \<Rightarrow> bytes \<Rightarrow> session_error option \<times> session" where
  "Rcpt T s to =
     (if \<not> opt_AcceptsRecipient (opts s) to
      then (Some (SMTPError 550 (5, 1, 1) ''recipient rejected''), s)
      else (None, s\<lparr>rcpts := rcpts s @ [strings_ToLower T to]\<rparr>))"

text \<open>\<^verbatim>\<open>io.ReadAll(io.LimitReader(r, n))\<close>: the reader's error shows only when the limit is not reached.\<close>

definition read_limited :: "reader \<Rightarrow> nat \<Rightarrow> bytes + bytes" where
  "read_limited r n =
     (if n \<le> length (fst r) then Inr (take n (fst r))
      else case snd r of Some e \<Rightarrow> Inl e | None \<Rightarrow> Inr (fst r))"

definition injectHeaders :: "utab \<Rightarrow> bytes \<Rightarrow> bytes \<Rightarrow> results \<Rightarrow> action \<Rightarrow> bytes" where
  "injectHeaders T raw domain res action =
     ''Authentication-Results: '' @ AuthResultsHeader T res domain @ CRLF
     @ ''X-Spam-Status: '' @ SpamStatusHeader res action @ CRLF
     @ raw"

text \<open>The loop over the recipients; it stops at the first delivery that fails.\<close>

fun deliver_loop ::
  "utab \<Rightarrow> (nat \<Rightarrow> os_env) \<Rightarrow> path \<Rightarrow> bytes list \<Rightarrow> bytes \<Rightarrow> fs \<Rightarrow> io_error option \<times> fs" where
  "deliver_loop T Ws root [] raw F = (None, F)"
| "deliver_loop T Ws root (rcpt # rs) raw F =
     (case Deliver T (Ws 0) root F rcpt raw of
        (Inl e, F') \<Rightarrow> (Some e, F')
      | (Inr _, F') \<Rightarrow> deliver_loop T (\<lambda>n. Ws (Suc n)) root rs raw F')"

definition Data ::
  "auth_env \<Rightarrow> (nat \<Rightarrow> os_env) \<Rightarrow> session \<Rightarrow> reader \<Rightarrow> smtp_world \<Rightarrow> session_error option \<times> smtp_world" where
  "Data E Ws s r w =
     (case read_limited r (MaxMessageBytes + 1) of
        Inl err \<Rightarrow> (Some (ReaderError err), w)
      | Inr raw \<Rightarrow>
          if length raw > MaxMessageBytes then (Some (SMTPError 552 (5, 3, 4) ''message too large''), w)
          else
            let res = Check E (clientIP s) (mailFrom s) raw;
                action = Decide (opt_Policy (opts s)) res
            in if action = ActionReject
               then (Some (SMTPError 554 (5, 7, 1)
                       (''message rejected by policy ('' @ SpamStatusHeader res action @ '')'')), w)
               else
                 let raw' = injectHeaders (env_utab E) raw (opt_Domain (opts s)) res action
                 in case deliver_loop (env_utab E) Ws (opt_Store (opts s)) (rcpts s) raw' (files w) of
                      (Some _, F) \<Rightarrow> (Some (SMTPError 451 (4, 3, 0) ''internal delivery error''), w\<lparr>files := F\<rparr>)
                    | (None, F) \<Rightarrow>
                        (None, (w\<lparr>files := F\<rparr>)\<lparr>notified := notified w @ (if opt_OnDeliver (opts s) then [raw'] else [])\<rparr>))"

section \<open>Delivery to many recipients\<close>

text \<open>
  The loop over an abstract store: whatever store keeps the contract \<open>mail_store\<close>, a loop that
  ends without error has filed the message for every recipient, nothing else changes, and no
  message that was there is lost.
\<close>

fun deliver_each ::
  "('w \<Rightarrow> 's \<Rightarrow> bytes \<Rightarrow> bytes \<Rightarrow> (io_error + bytes) \<times> 's) \<Rightarrow> (nat \<Rightarrow> 'w) \<Rightarrow> bytes list \<Rightarrow> bytes \<Rightarrow> 's \<Rightarrow>
   io_error option \<times> 's" where
  "deliver_each d Ws [] raw s = (None, s)"
| "deliver_each d Ws (rcpt # rs) raw s =
     (case d (Ws 0) s rcpt raw of
        (Inl e, s') \<Rightarrow> (Some e, s')
      | (Inr _, s') \<Rightarrow> deliver_each d (\<lambda>n. Ws (Suc n)) rs raw s')"

context mail_store
begin

lemma deliver_each_inv:
  "inv s \<Longrightarrow> \<forall>n. \<forall>r \<in> set rs. fit (Ws n) r \<Longrightarrow> deliver_each deliver Ws rs m s = (e, s') \<Longrightarrow> inv s'"
proof (induction rs arbitrary: Ws s)
  case (Cons r rs)
  have i: "inv (snd (deliver (Ws 0) s r m))" using deliver_inv Cons.prems(1,2) by simp
  show ?case
    using Cons.prems Cons.IH [of _ "\<lambda>n. Ws (Suc n)"] i
    by (cases "deliver (Ws 0) s r m"; cases "fst (deliver (Ws 0) s r m)") auto
qed simp

text \<open>What each key holds after the loop: what it held before, or the message for a recipient.\<close>

lemma deliver_each_frame:
  assumes "inv s" and "\<forall>n. \<forall>r \<in> set rs. fit (Ws n) r" and "deliver_each deliver Ws rs m s = (e, s')"
    and "\<And>n s r i. stored (Ws n) s r i m \<in> C"
  shows "abs s' k = abs s k \<or> (\<exists>n. \<exists>r \<in> set rs. \<exists>i. k = (name (Ws n) r, True, i)) \<and> (\<exists>c \<in> C. abs s' k = Some c)"
  using assms
proof (induction rs arbitrary: Ws s)
  case (Cons r rs)
  show ?case
  proof (cases "deliver (Ws 0) s r m")
    case (Pair res s1)
    show ?thesis
    proof (cases res)
      case (Inl e1)
      then show ?thesis using Cons.prems Pair deliver_err [of s "Ws 0" r m e1 s1] by simp
    next
      case (Inr i)
      have ok: "inv s1" using deliver_inv [of s "Ws 0" r m] Cons.prems(1,2) Pair by simp
      have a: "abs s1 = (abs s)((name (Ws 0) r, True, i) \<mapsto> stored (Ws 0) s r i m)"
        using deliver_ok Cons.prems(1,2) Pair Inr by simp
      have "deliver_each deliver (\<lambda>n. Ws (Suc n)) rs m s1 = (e, s')" using Cons.prems(3) Pair Inr by simp
      from Cons.IH [OF ok _ this] Cons.prems(2,4)
      have "abs s' k = abs s1 k \<or> (\<exists>n. \<exists>r \<in> set rs. \<exists>i. k = (name (Ws (Suc n)) r, True, i)) \<and> (\<exists>c \<in> C. abs s' k = Some c)"
        by simp
      then show ?thesis
      proof
        assume "abs s' k = abs s1 k"
        then show ?thesis using a Cons.prems(4) [of 0 s r i] by (cases "k = (name (Ws 0) r, True, i)") auto
      qed auto
    qed
  qed
qed simp

lemma deliver_each_all:
  assumes "inv s" and "\<forall>n. \<forall>r \<in> set rs. fit (Ws n) r" and "deliver_each deliver Ws rs m s = (None, s')"
    and "\<And>n s r i. stored (Ws n) s r i m = m" and "r \<in> set rs"
  shows "\<exists>n i s0 s1. abs s' (name (Ws n) r, True, i) = Some m \<and> deliver (Ws n) s0 r m = (Inr i, s1)"
  using assms
proof (induction rs arbitrary: Ws s)
  case (Cons r0 rs)
  obtain i s1 where d: "deliver (Ws 0) s r0 m = (Inr i, s1)"
    and rest: "deliver_each deliver (\<lambda>n. Ws (Suc n)) rs m s1 = (None, s')"
    using Cons.prems(3) by (auto split: prod.splits sum.splits)
  have ok: "inv s1" using deliver_inv [of s "Ws 0" r0 m] Cons.prems(1,2) d by simp
  have fits: "\<forall>n. \<forall>r \<in> set rs. fit (Ws (Suc n)) r" using Cons.prems(2) by simp
  show ?case
  proof (cases "r \<in> set rs")
    case True
    with Cons.IH [OF ok fits rest] Cons.prems(4) show ?thesis by blast
  next
    case False
    then have "r = r0" using Cons.prems(5) by simp
    then have "abs s1 (name (Ws 0) r, True, i) = Some m"
      using deliver_ok [OF Cons.prems(1) _ d] Cons.prems(2,4) by simp
    then have "abs s' (name (Ws 0) r, True, i) = Some m"
      using deliver_each_frame [OF ok fits rest, of "{m}" "(name (Ws 0) r, True, i)"] Cons.prems(4) by auto
    then show ?thesis using d \<open>r = r0\<close> by blast
  qed
qed simp

end

lemma deliver_loop_each:
  "deliver_each md_deliver (\<lambda>n. (T, Ws n)) rs raw (root, F)
     = (case deliver_loop T Ws root rs raw F of (e, G) \<Rightarrow> (e, (root, G)))"
  by (induction rs arbitrary: Ws F) (auto simp: md_deliver_def split: prod.splits sum.splits)

section \<open>Accepted recipients and the store\<close>

text \<open>The options main.go builds from the configuration.\<close>

definition smtp_options :: "utab \<Rightarrow> config \<Rightarrow> options" where
  "smtp_options T c =
     \<lparr>opt_Domain = Domain c, opt_Policy = Policy c, opt_AcceptsRecipient = AcceptsRecipient T c,
      opt_Store = filepath_Clean (DataDir c), opt_TLSCertDir = TLSCertDir c,
      opt_OnDeliver = (Push (Web c) \<noteq> None)\<rparr>"

lemma norm_addr_mailbox: "norm_addr T a = mailbox_name T a"
  by (simp add: norm_addr_def mailbox_name_def)

lemma accepted_ToLower:
  assumes "utab_ok T" and "loaded_config T c" and "AcceptsRecipient T c to"
  shows "AcceptsRecipient T c (strings_ToLower T to)"
  using allowlist.accepts_cong [of "(T, c)" "strings_ToLower T to" to] assms by (simp add: norm_addr_ToLower)

lemma accepted_fit:
  assumes "utab_ok T" and "loaded_config T c" and "AcceptsRecipient T c a" and "SLASH \<notin> set (hostname W)"
  shows "deliver_fit (T, W) a"
  using allowlist.mailbox_not_special [of "(T, c)" a] assms by (simp add: deliver_fit_def norm_addr_mailbox)

lemma accepted_mailbox:
  assumes "utab_ok T" and "loaded_config T c" and "AcceptsRecipient T c a"
  shows "AcceptsRecipient T c (mailbox_name T a)"
  using allowlist.accepts_nf [of "(T, c)" a] assms by (simp add: norm_addr_mailbox)

section \<open>What a transaction does\<close>

lemma Data_cases:
  assumes "Data E Ws s r w = (e, w')"
  obtains (refused) err where "e = Some err" and "w' = w"
  | (processed) raw res act raw' d F where "length raw \<le> MaxMessageBytes" and "raw = fst r"
      and "res = Check E (clientIP s) (mailFrom s) raw" and "act = Decide (opt_Policy (opts s)) res"
      and "act \<noteq> ActionReject" and "raw' = injectHeaders (env_utab E) raw (opt_Domain (opts s)) res act"
      and "deliver_loop (env_utab E) Ws (opt_Store (opts s)) (rcpts s) raw' (files w) = (d, F)"
      and "files w' = F" and "e = None \<longleftrightarrow> d = None"
      and "notified w' = notified w @ (if e = None \<and> opt_OnDeliver (opts s) then [raw'] else [])"
proof (cases "read_limited r (MaxMessageBytes + 1)")
  case (Inl err)
  with assms show ?thesis by (intro refused [of "ReaderError err"]) (auto simp: Data_def)
next
  case (Inr raw)
  let ?res = "Check E (clientIP s) (mailFrom s) raw"
  let ?act = "Decide (opt_Policy (opts s)) ?res"
  let ?raw = "injectHeaders (env_utab E) raw (opt_Domain (opts s)) ?res ?act"
  consider "length raw > MaxMessageBytes" | "length raw \<le> MaxMessageBytes" "?act = ActionReject"
    | "length raw \<le> MaxMessageBytes" "?act \<noteq> ActionReject" by linarith
  then show ?thesis
  proof cases
    case 1
    with assms Inr show ?thesis by (auto simp: Data_def intro: refused)
  next
    case 2
    with assms Inr show ?thesis by (auto simp: Data_def Let_def intro: refused)
  next
    case 3
    have raw: "raw = fst r" using Inr 3(1) by (auto simp: read_limited_def split: if_splits option.splits)
    obtain d F where d: "deliver_loop (env_utab E) Ws (opt_Store (opts s)) (rcpts s) ?raw (files w) = (d, F)"
      by fastforce
    show ?thesis
      by (rule processed [OF 3(1) raw refl refl 3(2) refl d]) (use assms Inr 3 d in \<open>cases d; auto simp: Data_def Let_def\<close>)+
  qed
qed

text \<open>
  The verdicts of \<^verbatim>\<open>Data\<close>. A message over 25 MiB is refused with 552 whatever else is wrong with it; a
  reader error on a shorter one is passed on; a message the policy rejects is refused with 554.
  In all three cases no file changes and nothing is notified. Nothing else is refused before
  the delivery starts.
\<close>
lemma data_refusals:
  "Data E Ws s r w =
     (if length (fst r) > MaxMessageBytes then (Some (SMTPError 552 (5, 3, 4) ''message too large''), w)
      else case snd r of
        Some err \<Rightarrow> (Some (ReaderError err), w)
      | None \<Rightarrow>
          if Decide (opt_Policy (opts s)) (Check E (clientIP s) (mailFrom s) (fst r)) = ActionReject
          then (Some (SMTPError 554 (5, 7, 1) (''message rejected by policy (''
                  @ SpamStatusHeader (Check E (clientIP s) (mailFrom s) (fst r)) ActionReject @ '')'')), w)
          else Data E Ws s (fst r, None) w)"
  by (auto simp: Data_def read_limited_def Let_def split: option.splits)

lemma deliver_loop_facts:
  assumes "store_ok root F" and "\<And>n a. a \<in> set rs \<Longrightarrow> deliver_fit (T, Ws n) a"
    and "deliver_loop T Ws root rs raw F = (e, G)"
  shows "store_ok root G"
    and "\<lbrakk>\<And>n p. written (Ws n) p raw \<in> C\<rbrakk> \<Longrightarrow>
      mails root G k = mails root F k
      \<or> (\<exists>a \<in> set rs. \<exists>i. k = (mailbox_name T a, True, i)) \<and> (\<exists>c \<in> C. mails root G k = Some c)"
    and "e = None \<Longrightarrow> (\<And>n. full_writes (Ws n)) \<Longrightarrow> a \<in> set rs \<Longrightarrow>
      \<exists>i n rp. mails root G (mailbox_name T a, True, i) = Some raw \<and> i = message_id (Ws n) rp"
proof -
  have d: "deliver_each md_deliver (\<lambda>n. (T, Ws n)) rs raw (root, F) = (e, (root, G))"
    using deliver_loop_each [of T Ws rs raw root F] assms(3) by simp
  have fit: "\<forall>n. \<forall>a \<in> set rs. deliver_fit (T, Ws n) a" using assms(2) by simp
  show "store_ok root G" using maildir.deliver_each_inv [OF _ fit d] assms(1) by simp
  show "mails root G k = mails root F k
      \<or> (\<exists>a \<in> set rs. \<exists>i. k = (mailbox_name T a, True, i)) \<and> (\<exists>c \<in> C. mails root G k = Some c)"
    if "\<And>n p. written (Ws n) p raw \<in> C"
  proof -
    have "md_stored (T, Ws n) s' r' i' raw \<in> C" for n s' r' i' using that by (simp add: md_stored_def)
    from maildir.deliver_each_frame [OF _ fit d this, of k] assms(1) show ?thesis by simp
  qed
  show "\<exists>i n rp. mails root G (mailbox_name T a, True, i) = Some raw \<and> i = message_id (Ws n) rp"
    if h: "e = None" "\<And>n. full_writes (Ws n)" "a \<in> set rs"
  proof -
    obtain n i s0 s1 where "mails root G (mailbox_name T a, True, i) = Some raw" "md_deliver (T, Ws n) s0 a raw = (Inr i, s1)"
      using maildir.deliver_each_all [OF _ fit _ _ h(3), where s = "(root, F)" and s' = "(root, G)" and m = raw] d assms(1) h(1,2)
      by (auto simp: md_stored_def written_full)
    moreover from this(2) have "\<exists>rp. i = message_id (Ws n) rp"
      by (auto simp: md_deliver_def split: prod.splits dest: Deliver_id)
    ultimately show ?thesis by blast
  qed
qed

text \<open>A sample server: the sample configuration, its store empty, lookups that fail.\<close>

definition sample_conf :: config where
  "sample_conf = normal_config ascii_utab sample_config"

definition sample_session :: session where
  "sample_session = (NewSession (smtp_options ascii_utab sample_conf) None)\<lparr>rcpts := [''me@example.com'']\<rparr>"

definition sample_world :: smtp_world where
  "sample_world = \<lparr>files = [], notified = []\<rparr>"

lemma sample_conf_loaded: "loaded_config ascii_utab sample_conf"
  using normal_config_loaded [OF _ sample_config_ok] by (simp add: sample_conf_def sample_env_def)

lemma sample_conf_root: "filepath_Clean (DataDir sample_conf) = (False, [''data''])"
  by (simp add: sample_conf_def normal_config_def sample_config_def with_defaults_def filepath_Clean_def
      strings_HasPrefix_def)

lemma sample_conf_store_ok: "store_ok (filepath_Clean (DataDir sample_conf)) []"
  by (simp add: sample_conf_root store_ok_def cleaned_def fs_wf_def)

lemma failing_env_utab [simp]: "env_utab failing_env = ascii_utab"
  by (simp add: failing_env_def)

lemma failing_env_Decide: "Decide p (Check failing_env ip from raw) = Default p"
  by (simp add: Decide_def Check_sel Check_DMARC_status checkSPF_def checkDKIM_def checkDMARC_def Let_def
      failing_env_def split: option.splits)

lemma sample_mailbox_me: "mailbox_name ascii_utab ''me@example.com'' = ''me@example.com''"
  by (simp add: mailbox_name_def rune_eval)

lemma sample_accepts: "AcceptsRecipient ascii_utab sample_conf ''me@example.com''"
proof -
  have "Recipients sample_conf = [''me@example.com'', ''*@lists.example.com'']"
    by (simp add: sample_conf_def normal_config_def sample_config_def sample_addr)
  then show ?thesis by (simp add: AcceptsRecipient_def norm_addr_mailbox sample_mailbox_me)
qed

lemma sample_data_only:
  "\<exists>w' m. Data failing_env (\<lambda>_. sample_os) sample_session (''From: a@b'', None) sample_world = (None, w')
     \<and> mails (filepath_Clean (DataDir sample_conf)) (files w') = [(''me@example.com'', True, message_id sample_os ''A'') \<mapsto> m]
     \<and> only_copy (filepath_Clean (DataDir sample_conf)) (files w') (''me@example.com'', True, message_id sample_os ''A'')"
proof -
  let ?root = "filepath_Clean (DataDir sample_conf)" and ?os = "smtp_options ascii_utab sample_conf"
  let ?res = "Check failing_env None [] ''From: a@b''"
  define raw' where "raw' = injectHeaders ascii_utab ''From: a@b'' (Domain sample_conf) ?res ActionInbox"
  have pl: "plain ''me@example.com''" by (simp add: plain_def)
  obtain G where G: "Deliver ascii_utab sample_os ?root [] ''me@example.com'' raw' = (Inr (message_id sample_os ''A''), G)"
    "mails ?root G = (mails ?root [])((''me@example.com'', True, message_id sample_os ''A'') \<mapsto> raw')"
    using Deliver_succeeds [OF sample_conf_store_ok, of sample_os ascii_utab "''me@example.com''" "''A''" raw'] pl
    by (auto simp: sample_mailbox_me way_clear_def written_full)
  have s: "opts sample_session = ?os" "clientIP sample_session = None" "mailFrom sample_session = []"
    "rcpts sample_session = [''me@example.com'']" by (simp_all add: sample_session_def NewSession_def)
  have o: "opt_Domain ?os = Domain sample_conf" "opt_Policy ?os = Policy sample_conf" "opt_Store ?os = ?root"
    by (simp_all add: smtp_options_def)
  have act: "Decide (Policy sample_conf) ?res = ActionInbox"
    by (simp add: failing_env_Decide sample_conf_def normal_config_def sample_config_def sample_policy_def)
  have "deliver_loop ascii_utab (\<lambda>_. sample_os) ?root [''me@example.com''] raw' [] = (None, G)" using G by simp
  then have "\<exists>w'. Data failing_env (\<lambda>_. sample_os) sample_session (''From: a@b'', None) sample_world = (None, w')
      \<and> files w' = G"
    by (simp add: Data_def read_limited_def MaxMessageBytes_def s o act raw'_def [symmetric] sample_world_def)
  moreover have "only_copy ?root G (''me@example.com'', True, message_id sample_os ''A'')"
    unfolding only_copy_iff
  proof (intro allI impI)
    fix r u
    assume "(r, u) \<noteq> (''me@example.com'', True)"
    then show "fs_at G (mpath ?root r (subdir u) (message_id sample_os ''A'')) = None"
      using Deliver_filed [OF sample_conf_store_ok _ _ G(1)] pl by (cases u) (auto simp: sample_mailbox_me subdir_def)
  qed
  moreover have "mails ?root [] = Map.empty" by (simp add: mails_def fun_eq_iff)
  ultimately show ?thesis using G(2) by auto
qed

lemma sample_data:
  "\<exists>w' i m. Data failing_env (\<lambda>_. sample_os) sample_session (''From: a@b'', None) sample_world = (None, w')
     \<and> mails (filepath_Clean (DataDir sample_conf)) (files w') (''me@example.com'', True, i) = Some m"
proof -
  obtain w' m where "Data failing_env (\<lambda>_. sample_os) sample_session (''From: a@b'', None) sample_world = (None, w')"
    "mails (filepath_Clean (DataDir sample_conf)) (files w') = [(''me@example.com'', True, message_id sample_os ''A'') \<mapsto> m]"
    using sample_data_only by blast
  then show ?thesis by (intro exI [of _ w'] exI [of _ "message_id sample_os ''A''"] exI [of _ m]) simp
qed

text \<open>
  C17. A transaction none of whose writes stops short, and that ends in success, has filed the
  message, with the two headers in front, as a new unread message of every recipient of the session,
  has changed no other message of the store, and has notified the message once when notifications are
  on. The recipients are those the allowlist accepted. (A write that stops short is not noticed: then
  success may be reported with a truncated file, see \<open>MaildirProps\<close>.)
\<close>
theorem data_delivers_to_all:
  assumes "utab_ok (env_utab E)" and "loaded_config (env_utab E) c" and "\<forall>a \<in> set (rcpts s). AcceptsRecipient (env_utab E) c a"
    and "store_ok (opt_Store (opts s)) (files w)"
    and "\<And>n. full_writes (Ws n) \<and> SLASH \<notin> set (hostname (Ws n))"
    and "Data E Ws s r w = (None, w')"
  shows "\<exists>raw'. raw' = injectHeaders (env_utab E) (fst r) (opt_Domain (opts s)) (Check E (clientIP s) (mailFrom s) (fst r))
             (Decide (opt_Policy (opts s)) (Check E (clientIP s) (mailFrom s) (fst r)))
    \<and> (\<forall>a \<in> set (rcpts s). \<exists>i. mails (opt_Store (opts s)) (files w') (mailbox_name (env_utab E) a, True, i) = Some raw')
    \<and> (\<forall>k. mails (opt_Store (opts s)) (files w') k = mails (opt_Store (opts s)) (files w) k
         \<or> (\<exists>a \<in> set (rcpts s). \<exists>i. k = (mailbox_name (env_utab E) a, True, i))
           \<and> mails (opt_Store (opts s)) (files w') k = Some raw')
    \<and> notified w' = notified w @ (if opt_OnDeliver (opts s) then [raw'] else [])"
  using assms(6)
proof (cases rule: Data_cases)
  case (processed raw res act raw' d F)
  have fit: "deliver_fit (env_utab E, Ws n) a" if "a \<in> set (rcpts s)" for n a
    using accepted_fit [OF assms(1,2)] assms(3,5) that by simp
  have wr: "written (Ws n) p raw' \<in> {raw'}" for n p using written_full assms(5) by blast
  note f = deliver_loop_facts [OF assms(4) fit processed(7)]
  have k: "mails (opt_Store (opts s)) F k = mails (opt_Store (opts s)) (files w) k
      \<or> (\<exists>a \<in> set (rcpts s). \<exists>i. k = (mailbox_name (env_utab E) a, True, i))
         \<and> mails (opt_Store (opts s)) F k = Some raw'" for k
    using f(2) [OF _ wr, of k] by simp
  show ?thesis
    using f(3) assms(5) processed k by (intro exI [of _ raw']) (simp, blast)
qed simp

section \<open>The server over time\<close>

text \<open>
  The receiver with any number of connections, numbered: the sessions and the world they share. A
  connection opens, or one of its sessions is called; \<open>whole\<close> says whether the steps considered
  are those whose writes are complete.
\<close>

type_synonym server = "(nat \<Rightarrow> session option) \<times> smtp_world"

inductive smtp_step :: "bool \<Rightarrow> auth_env \<Rightarrow> options \<Rightarrow> server \<Rightarrow> server \<Rightarrow> bool"
  for whole E os where
  connect: "smtp_step whole E os (ss, w) (ss(n \<mapsto> NewSession os ip), w)"
| mail: "ss n = Some s \<Longrightarrow> Mail s from = (e, s') \<Longrightarrow> smtp_step whole E os (ss, w) (ss(n \<mapsto> s'), w)"
| rcpt: "ss n = Some s \<Longrightarrow> Rcpt (env_utab E) s to = (e, s') \<Longrightarrow> smtp_step whole E os (ss, w) (ss(n \<mapsto> s'), w)"
| data: "ss n = Some s \<Longrightarrow> (\<And>m. SLASH \<notin> set (hostname (Ws m))) \<Longrightarrow> (whole \<Longrightarrow> (\<And>m. full_writes (Ws m))) \<Longrightarrow>
    Data E Ws s r w = (e, w') \<Longrightarrow> smtp_step whole E os (ss, w) (ss, w')"
| reset: "ss n = Some s \<Longrightarrow> smtp_step whole E os (ss, w) (ss(n \<mapsto> Reset s), w)"
| logout: "ss n = Some s \<Longrightarrow> smtp_step whole E os (ss, w) (ss(n := None), w)"

inductive_cases smtp_stepE: "smtp_step whole E os a b"

text \<open>
  A message that may be in the store: the recipient is on the allowlist, the original is within
  the size limit, the policy did not reject it, and it carries the two headers.
\<close>

definition vetted :: "bool \<Rightarrow> auth_env \<Rightarrow> config \<Rightarrow> mail_key \<Rightarrow> bytes \<Rightarrow> bool" where
  "vetted whole E c k stored \<longleftrightarrow>
     AcceptsRecipient (env_utab E) c (fst k)
     \<and> (\<exists>ip from raw res act. length raw \<le> MaxMessageBytes \<and> res = Check E ip from raw
          \<and> act = Decide (Policy c) res \<and> act \<noteq> ActionReject
          \<and> prefix stored (injectHeaders (env_utab E) raw (Domain c) res act)
          \<and> (whole \<longrightarrow> stored = injectHeaders (env_utab E) raw (Domain c) res act))"

definition server_inv :: "bool \<Rightarrow> auth_env \<Rightarrow> config \<Rightarrow> fs \<Rightarrow> server \<Rightarrow> bool" where
  "server_inv whole E c F0 sv \<longleftrightarrow>
     (\<forall>n s. fst sv n = Some s \<longrightarrow> opts s = smtp_options (env_utab E) c
        \<and> (\<forall>a \<in> set (rcpts s). AcceptsRecipient (env_utab E) c a))
     \<and> store_ok (filepath_Clean (DataDir c)) (files (snd sv))
     \<and> (\<forall>k m. mails (filepath_Clean (DataDir c)) (files (snd sv)) k = Some m \<longrightarrow>
          mails (filepath_Clean (DataDir c)) F0 k = Some m \<or> vetted whole E c k m)"

lemma server_invD:
  assumes "server_inv whole E c F0 (ss, w)"
  shows "ss n = Some s \<Longrightarrow> opts s = smtp_options (env_utab E) c"
    and "ss n = Some s \<Longrightarrow> \<forall>a \<in> set (rcpts s). AcceptsRecipient (env_utab E) c a"
    and "store_ok (filepath_Clean (DataDir c)) (files w)"
    and "mails (filepath_Clean (DataDir c)) (files w) k = Some m \<Longrightarrow>
      mails (filepath_Clean (DataDir c)) F0 k = Some m \<or> vetted whole E c k m"
  using assms unfolding server_inv_def fst_conv snd_conv by blast+

lemma server_invI:
  assumes "\<And>n s. ss n = Some s \<Longrightarrow> opts s = smtp_options (env_utab E) c \<and> (\<forall>a \<in> set (rcpts s). AcceptsRecipient (env_utab E) c a)"
    and "store_ok (filepath_Clean (DataDir c)) (files w)"
    and "\<And>k m. mails (filepath_Clean (DataDir c)) (files w) k = Some m \<Longrightarrow>
      mails (filepath_Clean (DataDir c)) F0 k = Some m \<or> vetted whole E c k m"
  shows "server_inv whole E c F0 (ss, w)"
  using assms unfolding server_inv_def fst_conv snd_conv by blast

lemma server_inv_upd:
  assumes "server_inv whole E c F0 (ss, w)"
    and "\<And>s'. x = Some s' \<Longrightarrow> opts s' = smtp_options (env_utab E) c \<and> (\<forall>a \<in> set (rcpts s'). AcceptsRecipient (env_utab E) c a)"
  shows "server_inv whole E c F0 (ss(n := x), w)"
proof (rule server_invI)
  fix m s
  assume "(ss(n := x)) m = Some s"
  then show "opts s = smtp_options (env_utab E) c \<and> (\<forall>a \<in> set (rcpts s). AcceptsRecipient (env_utab E) c a)"
    using assms(2) server_invD(1,2) [OF assms(1)] by (cases "m = n") auto
qed (rule server_invD(3,4) [OF assms(1)], assumption?)+

lemma data_server_inv:
  assumes T: "utab_ok (env_utab E)" and c: "loaded_config (env_utab E) c" and inv: "server_inv whole E c F0 (ss, w)"
    and s: "ss n = Some s" and h: "\<And>m. SLASH \<notin> set (hostname (Ws m))" and fw: "whole \<Longrightarrow> (\<And>m. full_writes (Ws m))"
    and d: "Data E Ws s r w = (e, w')"
  shows "server_inv whole E c F0 (ss, w')"
  using d
proof (cases rule: Data_cases)
  case (refused err)
  with inv show ?thesis by simp
next
  case (processed raw res act raw' d F)
  let ?root = "filepath_Clean (DataDir c)"
  have o: "opts s = smtp_options (env_utab E) c" and a: "\<forall>a \<in> set (rcpts s). AcceptsRecipient (env_utab E) c a"
    and ok: "store_ok ?root (files w)" using server_invD [OF inv] s by blast+
  have fit: "deliver_fit (env_utab E, Ws n) a" if "a \<in> set (rcpts s)" for n a
    using accepted_fit [OF T c] a h that by simp
  have root: "opt_Store (opts s) = ?root" by (simp add: o smtp_options_def)
  have wr: "written (Ws m) p raw' \<in> {x. prefix x raw' \<and> (whole \<longrightarrow> x = raw')}" for m p
    using written_prefix [of "Ws m" p raw'] written_full [OF fw] by auto
  note f = deliver_loop_facts [OF ok fit processed(7) [unfolded root]]
  have vet: "vetted whole E c (mailbox_name (env_utab E) a, True, i) m"
    if "a \<in> set (rcpts s)" "prefix m raw' \<and> (whole \<longrightarrow> m = raw')" for a i m
  proof -
    have eq: "opt_Policy (opts s) = Policy c" "opt_Domain (opts s) = Domain c" by (simp_all add: o smtp_options_def)
    have "length raw \<le> MaxMessageBytes \<and> res = Check E (clientIP s) (mailFrom s) raw \<and> act = Decide (Policy c) res
        \<and> act \<noteq> ActionReject \<and> prefix m (injectHeaders (env_utab E) raw (Domain c) res act)
        \<and> (whole \<longrightarrow> m = injectHeaders (env_utab E) raw (Domain c) res act)"
      using processed(1-6) that(2) unfolding eq by blast
    moreover have "AcceptsRecipient (env_utab E) c (mailbox_name (env_utab E) a)"
      using accepted_mailbox [OF T c] a that(1) by blast
    ultimately show ?thesis unfolding vetted_def fst_conv by blast
  qed
  have "mails ?root F0 k = Some m \<or> vetted whole E c k m" if m: "mails ?root F k = Some m" for k m
  proof -
    have "mails ?root F k = mails ?root (files w) k \<or> vetted whole E c k m"
      using f(2) [OF _ wr, of k] m vet by auto
    with m server_invD(4) [OF inv, of k m] show ?thesis by auto
  qed
  then show ?thesis
    using f(1) server_invD(1,2) [OF inv] unfolding processed(8) [symmetric] by (intro server_invI) blast+
qed

lemma smtp_step_inv:
  assumes "smtp_step whole E (smtp_options (env_utab E) c) a b" and "server_inv whole E c F0 a"
    and "utab_ok (env_utab E)" and "loaded_config (env_utab E) c"
  shows "server_inv whole E c F0 b"
  using assms(1)
proof (cases rule: smtp_step.cases)
  case (connect ss w n ip)
  with assms(2) show ?thesis by (auto intro!: server_inv_upd simp: NewSession_def)
next
  case (mail ss n s "from" e s' w)
  with assms(2) have "opts s' = smtp_options (env_utab E) c \<and> (\<forall>a \<in> set (rcpts s'). AcceptsRecipient (env_utab E) c a)"
    by (auto simp: Mail_def dest: server_invD(1,2))
  with mail assms(2) show ?thesis by (auto intro!: server_inv_upd)
next
  case (rcpt ss n s to e s' w)
  have o: "opts s = smtp_options (env_utab E) c" and a: "\<forall>a \<in> set (rcpts s). AcceptsRecipient (env_utab E) c a"
    using rcpt assms(2) by (auto dest: server_invD(1,2))
  have "opts s' = smtp_options (env_utab E) c \<and> (\<forall>a \<in> set (rcpts s'). AcceptsRecipient (env_utab E) c a)"
    using rcpt(4) o a accepted_ToLower [OF assms(3,4), of to]
    by (auto simp: Rcpt_def smtp_options_def split: if_splits)
  with rcpt assms(2) show ?thesis by (auto intro!: server_inv_upd)
next
  case (data ss n s Ws w r e w')
  with assms(2) data_server_inv [OF assms(3,4)] show ?thesis by blast
next
  case (reset ss n s w)
  with assms(2) have "opts (Reset s) = smtp_options (env_utab E) c \<and> rcpts (Reset s) = []"
    by (auto simp: Reset_def dest: server_invD(1))
  with reset assms(2) show ?thesis by (auto intro!: server_inv_upd)
next
  case (logout ss n s w)
  with assms(2) show ?thesis by (auto intro!: server_inv_upd)
qed

lemma smtp_run_inv:
  assumes "rtranclp (smtp_step whole E (smtp_options (env_utab E) c)) a b" and "server_inv whole E c F0 a"
    and "utab_ok (env_utab E)" and "loaded_config (env_utab E) c"
  shows "server_inv whole E c F0 b"
  using assms(1,2) by (induction rule: rtranclp_induct) (auto intro: smtp_step_inv [OF _ _ assms(3,4)])

text \<open>
  Only vetted mail is stored. Whatever commands any number of clients send, in any order, with
  any failing system calls, a message the store shows later was there at the start, or its
  recipient is on the allowlist and its bytes are an original of at most 25 MiB that the policy
  did not reject, behind the two headers with the results of its own check. (When a write may
  stop early, a prefix of these bytes.) The store stays well formed.
\<close>
lemma only_vetted_mail_is_stored:
  assumes "utab_ok (env_utab E)" and "loaded_config (env_utab E) c"
    and "store_ok (filepath_Clean (DataDir c)) F0"
    and "rtranclp (smtp_step whole E (smtp_options (env_utab E) c)) (\<lambda>_. None, \<lparr>files = F0, notified = []\<rparr>) (ss, w)"
    and "mails (filepath_Clean (DataDir c)) (files w) k = Some m"
  shows "store_ok (filepath_Clean (DataDir c)) (files w)
    \<and> (mails (filepath_Clean (DataDir c)) F0 k = Some m \<or> vetted whole E c k m)"
proof -
  have "server_inv whole E c F0 (\<lambda>_. None, \<lparr>files = F0, notified = []\<rparr>)"
    using assms(3) by (intro server_invI) simp_all
  note i = smtp_run_inv [OF assms(4) this assms(1,2)]
  show ?thesis using server_invD(3,4) [OF i] assms(5) by blast
qed

theorem data_delivers_to_all_witness:
  "\<exists>w' i raw'. Data failing_env (\<lambda>_. sample_os) sample_session (''From: a@b'', None) sample_world = (None, w')
     \<and> mails (opt_Store (opts sample_session)) (files w') (''me@example.com'', True, i) = Some raw'
     \<and> suffix ''From: a@b'' raw'"
proof -
  obtain w' where d: "Data failing_env (\<lambda>_. sample_os) sample_session (''From: a@b'', None) sample_world = (None, w')"
    using sample_data by blast
  have s: "rcpts sample_session = [''me@example.com'']" "opt_Store (opts sample_session) = filepath_Clean (DataDir sample_conf)"
    by (simp_all add: sample_session_def NewSession_def smtp_options_def)
  from data_delivers_to_all [OF _ _ _ _ _ d, of sample_conf] sample_conf_loaded sample_accepts sample_conf_store_ok
  show ?thesis using d
    by (fastforce simp: s sample_world_def sample_mailbox_me injectHeaders_def suffix_def)
qed

text \<open>A client connects and names a recipient; then it sends a message.\<close>

lemma sample_steps:
  "smtp_step True failing_env (smtp_options ascii_utab sample_conf) (\<lambda>_. None, sample_world)
     ([0 \<mapsto> NewSession (smtp_options ascii_utab sample_conf) None], sample_world)"
  "smtp_step True failing_env (smtp_options ascii_utab sample_conf)
     ([0 \<mapsto> NewSession (smtp_options ascii_utab sample_conf) None], sample_world) ([0 \<mapsto> sample_session], sample_world)"
proof -
  let ?os = "smtp_options ascii_utab sample_conf"
  have lower: "strings_ToLower ascii_utab ''me@example.com'' = ''me@example.com''" by (simp add: rune_eval)
  show "smtp_step True failing_env ?os (\<lambda>_. None, sample_world) ([0 \<mapsto> NewSession ?os None], sample_world)"
    using smtp_step.connect [of True failing_env ?os "\<lambda>_. None" sample_world 0 None] by simp
  have "Rcpt (env_utab failing_env) (NewSession ?os None) ''me@example.com'' = (None, sample_session)"
    using sample_accepts by (simp add: Rcpt_def sample_session_def lower) (simp add: NewSession_def smtp_options_def)
  from smtp_step.rcpt [OF _ this, of "[0 \<mapsto> NewSession ?os None]" 0 True ?os sample_world]
  show "smtp_step True failing_env ?os ([0 \<mapsto> NewSession ?os None], sample_world) ([0 \<mapsto> sample_session], sample_world)"
    by simp
qed

lemma sample_smtp_run:
  "\<exists>ss w i m. rtranclp (smtp_step True failing_env (smtp_options ascii_utab sample_conf))
       (\<lambda>_. None, \<lparr>files = [], notified = []\<rparr>) (ss, w)
     \<and> mails (filepath_Clean (DataDir sample_conf)) (files w) (''me@example.com'', True, i) = Some m"
proof -
  let ?os = "smtp_options ascii_utab sample_conf" and ?root = "filepath_Clean (DataDir sample_conf)"
  obtain w' where d: "Data failing_env (\<lambda>_. sample_os) sample_session (''From: a@b'', None) sample_world = (None, w')"
    using sample_data by blast
  obtain i m where m: "mails ?root (files w') (''me@example.com'', True, i) = Some m"
    using d sample_data by (metis prod.inject)
  have "smtp_step True failing_env ?os ([0 \<mapsto> sample_session], sample_world) ([0 \<mapsto> sample_session], w')"
    by (rule smtp_step.data [OF _ _ _ d, of _ 0]) simp_all
  then have "rtranclp (smtp_step True failing_env ?os) (\<lambda>_. None, \<lparr>files = [], notified = []\<rparr>) ([0 \<mapsto> sample_session], w')"
    using sample_steps unfolding sample_world_def by (meson converse_rtranclp_into_rtranclp rtranclp.rtrancl_refl)
  with m show ?thesis by blast
qed

section \<open>What the store reads back\<close>



lemma header_keys [simp]:
  "CanonicalMIMEHeaderKey ''Authentication-Results'' = ''Authentication-Results''"
  "CanonicalMIMEHeaderKey ''X-Spam-Status'' = ''X-Spam-Status''"
  by (simp_all add: CanonicalMIMEHeaderKey_def is_token_char_def token_special_def ascii_upper_def ascii_lower_def
      char_of_def bit_0)


















section \<open>Recipients cannot leave the store\<close>

text \<open>
  C11. A recipient name is never a way out of the store. Under a loaded configuration, whatever
  address an SMTP client names and gets accepted (with slashes, dots or wildcards in play), a
  delivery to it, in every state it goes through, touches only the ancestors of the store's
  root and the directory under the root that bears the address in its normal form.
\<close>
theorem accepted_recipient_confined:
  assumes "utab_ok T" and "loaded_config T c" and "AcceptsRecipient T c to"
    and "store_ok root F" and "SLASH \<notin> set (hostname W)"
  shows "\<forall>G \<in> set (snd (Deliver_run T W root F (strings_ToLower T to) msg)).
     {q. fs_at G q \<noteq> fs_at F q}
       \<subseteq> {q. fst q = fst root \<and> (prefix (snd q) (snd root) \<or> prefix (snd root @ [norm_addr T to]) (snd q))}"
proof (cases "plain (norm_addr T to)")
  case True
  have n: "mailbox_name T (strings_ToLower T to) = norm_addr T to"
    using norm_addr_ToLower [OF assms(1)] by (simp add: norm_addr_mailbox)
  have p: "plain (mailbox_name T (strings_ToLower T to))" using True n by simp
  show ?thesis
    using Deliver_run_store_ok [OF assms(4,5) p, of msg "fst (Deliver_run T W root F (strings_ToLower T to) msg)"
        "snd (Deliver_run T W root F (strings_ToLower T to) msg)"]
    by (simp add: near_def subset_iff n)
next
  case False
  have n: "mailbox_name T (strings_ToLower T to) = norm_addr T to"
    using norm_addr_ToLower [OF assms(1)] by (simp add: norm_addr_mailbox)
  have "\<not> name_accepted (mailbox_name T (strings_ToLower T to))"
    using False allowlist.mailbox_not_special [of "(T, c)" to] assms(1-3) by (simp add: n plain_def name_accepted_def)
  then show ?thesis by (simp add: Deliver_run_bad_name)
qed

theorem accepted_recipient_confined_witness:
  "set (snd (Deliver_run ascii_utab sample_os sample_root [] (strings_ToLower ascii_utab ''me@example.com'') ''hi''))
     \<subseteq> {G. {q. fs_at G q \<noteq> fs_at [] q}
           \<subseteq> {q. fst q = fst sample_root \<and> (prefix (snd q) (snd sample_root)
                \<or> prefix (snd sample_root @ [norm_addr ascii_utab ''me@example.com'']) (snd q))}}"
  using accepted_recipient_confined [OF _ sample_conf_loaded sample_accepts sample_store_ok, of sample_os "''hi''"] by auto

end
