(* ===== verification/Tls.thy ===== *)
theory Tls
  imports Prelude
begin

text \<open>
  Package \<^verbatim>\<open>internal/smtpserver\<close>, tls.go: the certificate reloader. What the disk holds, the clock and
  the two library calls that load and parse a key pair are parameters (record \<open>tls_env\<close>), one
  value per moment: the disk may change between the check, the load and the reading of the
  modification times, so the operations take one environment for each.
\<close>

section \<open>Data\<close>

text \<open>Instants are nanoseconds from Go's zero time, durations nanoseconds.\<close>

record x509 =
  NotAfter :: int

text \<open>\<^verbatim>\<open>tls.Certificate\<close>: a chain that is never empty, its key, and the parsed leaf.\<close>

record certificate =
  chain_leaf :: bytes
  chain_rest :: "bytes list"
  PrivateKey :: bytes
  Leaf :: "x509 option"

record tls_env =
  LoadX509KeyPair :: "bytes \<Rightarrow> bytes \<Rightarrow> bytes + certificate"
  x509_ParseCertificate :: "bytes \<Rightarrow> bytes + x509"
  stat_ModTime :: "bytes \<Rightarrow> int option"
  time_Now :: int

record cert_reloader =
  certFile :: bytes
  keyFile :: bytes
  cert :: "certificate option"
  expiry :: int
  certMod :: int
  keyMod :: int

datatype tls_error = LoadFailed bytes | ParseFailed bytes bytes

definition reloadBeforeExpiry :: int where
  "reloadBeforeExpiry = 24 * 3600 * 10 ^ 9"

section \<open>Operations\<close>

definition fileMod :: "tls_env \<Rightarrow> bytes \<Rightarrow> int" where
  "fileMod E path = (case stat_ModTime E path of Some t \<Rightarrow> t | None \<Rightarrow> 0)"

text \<open>\<open>E1\<close> is the moment of the load, \<open>E2\<close> and \<open>E3\<close> those of the two modification times.\<close>

definition reload :: "tls_env \<Rightarrow> tls_env \<Rightarrow> tls_env \<Rightarrow> cert_reloader \<Rightarrow> tls_error option \<times> cert_reloader" where
  "reload E1 E2 E3 r =
     (case LoadX509KeyPair E1 (certFile r) (keyFile r) of
        Inl e \<Rightarrow> (Some (LoadFailed e), r)
      | Inr pair \<Rightarrow>
          (case x509_ParseCertificate E1 (chain_leaf pair) of
             Inl e \<Rightarrow> (Some (ParseFailed (certFile r) e), r)
           | Inr leaf \<Rightarrow>
               (None, r\<lparr>cert := Some (pair\<lparr>Leaf := Some leaf\<rparr>), expiry := NotAfter leaf,
                        certMod := fileMod E2 (certFile r), keyMod := fileMod E3 (keyFile r)\<rparr>)))"

definition NewCertReloader :: "tls_env \<Rightarrow> tls_env \<Rightarrow> tls_env \<Rightarrow> bytes \<Rightarrow> bytes \<Rightarrow> tls_error + cert_reloader" where
  "NewCertReloader E1 E2 E3 cf kf =
     (case reload E1 E2 E3 \<lparr>certFile = cf, keyFile = kf, cert = None, expiry = 0, certMod = 0, keyMod = 0\<rparr> of
        (Some e, _) \<Rightarrow> Inl e
      | (None, r) \<Rightarrow> Inr r)"

definition stale :: "tls_env \<Rightarrow> cert_reloader \<Rightarrow> bool" where
  "stale E r \<longleftrightarrow> cert r = None \<or> expiry r - time_Now E < reloadBeforeExpiry
     \<or> fileMod E (certFile r) \<noteq> certMod r \<or> fileMod E (keyFile r) \<noteq> keyMod r"

definition GetCertificate ::
  "tls_env \<Rightarrow> tls_env \<Rightarrow> tls_env \<Rightarrow> tls_env \<Rightarrow> cert_reloader \<Rightarrow> (tls_error + certificate option) \<times> cert_reloader" where
  "GetCertificate E0 E1 E2 E3 r =
     (if stale E0 r
      then case reload E1 E2 E3 r of
             (Some e, r') \<Rightarrow> if cert r = None then (Inl e, r') else (Inr (cert r), r')
           | (None, r') \<Rightarrow> (Inr (cert r'), r')
      else (Inr (cert r), r))"

section \<open>Invariant\<close>

text \<open>The pair a moment's disk holds for a reloader, as it would cache it.\<close>

definition disk_cert :: "tls_env \<Rightarrow> cert_reloader \<Rightarrow> certificate option" where
  "disk_cert E r =
     (case LoadX509KeyPair E (certFile r) (keyFile r) of
        Inl _ \<Rightarrow> None
      | Inr pair \<Rightarrow> (case x509_ParseCertificate E (chain_leaf pair) of
                      Inl _ \<Rightarrow> None | Inr leaf \<Rightarrow> Some (pair\<lparr>Leaf := Some leaf\<rparr>)))"

lemma reload_cases:
  obtains (kept) e where "disk_cert E1 r = None" and "reload E1 E2 E3 r = (Some e, r)"
  | (loaded) c leaf r' where "disk_cert E1 r = Some c" and "Leaf c = Some leaf" and "reload E1 E2 E3 r = (None, r')"
      and "cert r' = Some c" and "expiry r' = NotAfter leaf"
      and "certMod r' = fileMod E2 (certFile r)" and "keyMod r' = fileMod E3 (keyFile r)"
      and "certFile r' = certFile r" and "keyFile r' = keyFile r"
proof (cases "LoadX509KeyPair E1 (certFile r) (keyFile r)")
  case (Inl e)
  then show ?thesis by (intro kept) (simp_all add: reload_def disk_cert_def)
next
  case (Inr pair)
  show ?thesis
  proof (cases "x509_ParseCertificate E1 (chain_leaf pair)")
    case (Inl e)
    with Inr show ?thesis by (intro kept) (simp_all add: reload_def disk_cert_def)
  next
    case leaf: (Inr leaf)
    let ?c = "pair\<lparr>Leaf := Some leaf\<rparr>"
    have d: "disk_cert E1 r = Some ?c" using Inr leaf by (simp add: disk_cert_def)
    have "reload E1 E2 E3 r = (None, r\<lparr>cert := Some ?c, expiry := NotAfter leaf,
        certMod := fileMod E2 (certFile r), keyMod := fileMod E3 (keyFile r)\<rparr>)"
      using Inr leaf by (simp add: reload_def)
    from loaded [OF d _ this] show ?thesis by simp
  qed
qed

text \<open>
  The reloaders a server goes through: one made by \<^verbatim>\<open>NewCertReloader\<close>, then calls of \<^verbatim>\<open>GetCertificate\<close> at
  any moments. The list collects the moments at which the disk was loaded.
\<close>

inductive reloader_run :: "bytes \<Rightarrow> bytes \<Rightarrow> tls_env list \<Rightarrow> cert_reloader \<Rightarrow> bool" for cf kf where
  new: "NewCertReloader E1 E2 E3 cf kf = Inr r \<Longrightarrow> reloader_run cf kf [E1] r"
| get: "reloader_run cf kf Es r \<Longrightarrow> GetCertificate E0 E1 E2 E3 r = (res, r') \<Longrightarrow> reloader_run cf kf (E1 # Es) r'"

lemma GetCertificate_cases:
  assumes "cert r \<noteq> None" and "GetCertificate E0 E1 E2 E3 r = (res, r')"
  obtains (same) "res = Inr (cert r)" and "r' = r" and "stale E0 r \<Longrightarrow> disk_cert E1 r = None"
  | (fresh) c leaf where "stale E0 r" and "disk_cert E1 r = Some c" and "Leaf c = Some leaf" and "res = Inr (Some c)"
      and "cert r' = Some c" and "expiry r' = NotAfter leaf"
      and "certMod r' = fileMod E2 (certFile r)" and "keyMod r' = fileMod E3 (keyFile r)"
      and "certFile r' = certFile r" and "keyFile r' = keyFile r"
proof (cases "stale E0 r")
  case False
  with assms(2) show ?thesis by (intro same) (auto simp: GetCertificate_def)
next
  case True
  show ?thesis
  proof (cases rule: reload_cases [of E1 r E2 E3])
    case (kept e)
    with True assms have "res = Inr (cert r)" "r' = r" by (auto simp: GetCertificate_def)
    with kept show ?thesis by (intro same) simp_all
  next
    case (loaded c leaf r1)
    with True assms have "res = Inr (Some c)" "r' = r1" by (auto simp: GetCertificate_def)
    with loaded True show ?thesis by (intro fresh) simp_all
  qed
qed

lemma disk_cert_cong: "certFile r' = certFile r \<Longrightarrow> keyFile r' = keyFile r \<Longrightarrow> disk_cert E r' = disk_cert E r"
  by (simp add: disk_cert_def)

lemma reloader_run_inv:
  "reloader_run cf kf Es r \<Longrightarrow>
     (\<exists>E \<in> set Es. cert r \<noteq> None \<and> cert r = disk_cert E r) \<and> certFile r = cf \<and> keyFile r = kf
     \<and> (\<exists>c leaf. cert r = Some c \<and> Leaf c = Some leaf \<and> expiry r = NotAfter leaf)"
proof (induction rule: reloader_run.induct)
  case (new E1 E2 E3 r)
  let ?r0 = "\<lparr>certFile = cf, keyFile = kf, cert = None, expiry = 0, certMod = 0, keyMod = 0\<rparr>"
  show ?case
  proof (cases rule: reload_cases [of E1 ?r0 E2 E3])
    case (kept e)
    with new show ?thesis by (simp add: NewCertReloader_def)
  next
    case (loaded c leaf r1)
    then have "r1 = r" using new by (simp add: NewCertReloader_def)
    moreover have "disk_cert E1 r1 = Some c" using loaded disk_cert_cong [of r1 ?r0 E1] by simp
    ultimately show ?thesis using loaded by simp
  qed
next
  case (get Es r E0 E1 E2 E3 res r')
  then have ne: "cert r \<noteq> None" by auto
  from ne get.hyps(2) show ?case
  proof (cases rule: GetCertificate_cases)
    case same
    with get.IH show ?thesis by auto
  next
    case (fresh c leaf)
    then have "disk_cert E1 r' = Some c" by (simp add: disk_cert_def)
    with fresh get.IH show ?thesis by auto
  qed
qed

section \<open>Properties\<close>

text \<open>
  C29. Once started, the reloader never stops serving: whatever happens to the files, at every later
  handshake it answers with a certificate, never with an error, and that certificate with its
  key was a readable pair on the disk at a moment it was loaded.
\<close>
theorem tls_always_serves:
  assumes "reloader_run cf kf Es r"
  shows "\<exists>c E r'. GetCertificate E0 E1 E2 E3 r = (Inr (Some c), r') \<and> E \<in> set (E1 # Es) \<and> disk_cert E r = Some c"
proof -
  obtain E c where i: "E \<in> set Es" "cert r = Some c" "disk_cert E r = Some c"
    using reloader_run_inv [OF assms] by auto
  obtain res r' where g: "GetCertificate E0 E1 E2 E3 r = (res, r')" by fastforce
  have ne: "cert r \<noteq> None" using i by simp
  from ne g show ?thesis
  proof (cases rule: GetCertificate_cases)
    case same
    with g i show ?thesis by auto
  next
    case (fresh c' leaf)
    with g show ?thesis by auto
  qed
qed

text \<open>
  C30. A renewal on a quiet disk is picked up at once: when a file's modification time differs from
  the recorded one, or the cached certificate has less than a day left, and the disk holds a
  readable pair and does not change during the call, that pair is served and cached; and until
  the files change or the day before expiry comes, later calls serve it without loading again.
\<close>
theorem tls_renewal_picked_up:
  assumes "cert r \<noteq> None" and "disk_cert E r = Some c" and "Leaf c = Some leaf"
    and "fileMod E (certFile r) \<noteq> certMod r \<or> fileMod E (keyFile r) \<noteq> keyMod r
         \<or> expiry r - time_Now E < reloadBeforeExpiry"
  shows "\<exists>r'. GetCertificate E E E E r = (Inr (Some c), r') \<and> cert r' = Some c
    \<and> (\<forall>E' A B C. fileMod E' (certFile r) = fileMod E (certFile r) \<longrightarrow> fileMod E' (keyFile r) = fileMod E (keyFile r) \<longrightarrow>
         NotAfter leaf - time_Now E' \<ge> reloadBeforeExpiry \<longrightarrow> GetCertificate E' A B C r' = (Inr (Some c), r'))"
proof -
  obtain res r' where g: "GetCertificate E E E E r = (res, r')" by fastforce
  have st: "stale E r" using assms(4) by (auto simp: stale_def)
  from assms(1) g show ?thesis
  proof (cases rule: GetCertificate_cases)
    case same
    with st assms(2) show ?thesis by simp
  next
    case (fresh c' leaf')
    then have e: "c' = c" "leaf' = leaf" using assms(2,3) by auto
    have "GetCertificate E' A B C r' = (Inr (Some c), r')"
      if "fileMod E' (certFile r) = fileMod E (certFile r)" "fileMod E' (keyFile r) = fileMod E (keyFile r)"
        "NotAfter leaf - time_Now E' \<ge> reloadBeforeExpiry" for E' A B C
      using that fresh e by (simp add: GetCertificate_def stale_def)
    with g fresh e show ?thesis by auto
  qed
qed

text \<open>
  C37. A renewal in the middle of a reload is missed: when the files are replaced after they were
  loaded and before their modification times are read, the reloader records the new times with
  the old pair, and keeps serving the old pair until the files change again or the old
  certificate has less than a day left.
\<close>
theorem tls_renewal_race:
  assumes "cert r \<noteq> None" and "stale E0 r" and "disk_cert E1 r = Some old" and "Leaf old = Some leaf"
    and "GetCertificate E0 E1 E2 E2 r = (res, r')"
    and "fileMod E3 (certFile r) = fileMod E2 (certFile r)" and "fileMod E3 (keyFile r) = fileMod E2 (keyFile r)"
    and "NotAfter leaf - time_Now E3 \<ge> reloadBeforeExpiry"
  shows "GetCertificate E3 E3 E3 E3 r' = (Inr (Some old), r')"
  using assms(1,5)
proof (cases rule: GetCertificate_cases)
  case same
  with assms(2,3) show ?thesis by simp
next
  case (fresh c leaf')
  with assms show ?thesis by (simp add: GetCertificate_def stale_def)
qed

section \<open>Samples\<close>

text \<open>A disk with one pair whose certificate expires after ten days, and one with its successor.\<close>

definition sample_disk :: "bytes \<Rightarrow> int \<Rightarrow> tls_env" where
  "sample_disk der t = \<lparr>LoadX509KeyPair = \<lambda>_ _. Inr \<lparr>chain_leaf = der, chain_rest = [], PrivateKey = ''k'', Leaf = None\<rparr>,
     x509_ParseCertificate = \<lambda>_. Inr \<lparr>NotAfter = 240 * 3600 * 10 ^ 9\<rparr>, stat_ModTime = \<lambda>_. Some t, time_Now = t\<rparr>"

definition sample_cert :: "bytes \<Rightarrow> certificate" where
  "sample_cert der = \<lparr>chain_leaf = der, chain_rest = [], PrivateKey = ''k'', Leaf = Some \<lparr>NotAfter = 240 * 3600 * 10 ^ 9\<rparr>\<rparr>"

definition sample_reloader :: "bytes \<Rightarrow> int \<Rightarrow> cert_reloader" where
  "sample_reloader der t = \<lparr>certFile = ''c'', keyFile = ''k'', cert = Some (sample_cert der),
     expiry = 240 * 3600 * 10 ^ 9, certMod = t, keyMod = t\<rparr>"

lemmas tls_eval = sample_disk_def sample_cert_def sample_reloader_def NewCertReloader_def reload_def fileMod_def
  disk_cert_def stale_def GetCertificate_def reloadBeforeExpiry_def

lemma sample_new: "reloader_run ''c'' ''k'' [sample_disk ''A'' 1] (sample_reloader ''A'' 1)"
  by (rule reloader_run.new [where ?E2.0 = "sample_disk ''A'' 1" and ?E3.0 = "sample_disk ''A'' 1"]) (simp add: tls_eval)

theorem tls_always_serves_witness:
  "\<exists>c r'. GetCertificate (sample_disk ''B'' 2) (sample_disk ''B'' 2) (sample_disk ''B'' 2) (sample_disk ''B'' 2)
     (sample_reloader ''A'' 1) = (Inr (Some c), r')"
  using tls_always_serves [OF sample_new] by blast

theorem tls_renewal_picked_up_witness:
  "\<exists>r'. GetCertificate (sample_disk ''B'' 2) (sample_disk ''B'' 2) (sample_disk ''B'' 2) (sample_disk ''B'' 2)
     (sample_reloader ''A'' 1) = (Inr (Some (sample_cert ''B'')), r')"
  using tls_renewal_picked_up [of "sample_reloader ''A'' 1" "sample_disk ''B'' 2" "sample_cert ''B''" "\<lparr>NotAfter = 240 * 3600 * 10 ^ 9\<rparr>"]
  by (auto simp: tls_eval)

text \<open>The pair \<open>B\<close> replaced by \<open>C\<close> between load and stat: \<open>B\<close> stays in service while \<open>C\<close> is on the disk.\<close>

theorem tls_renewal_race_witness:
  "\<exists>r'. GetCertificate (sample_disk ''B'' 2) (sample_disk ''B'' 2) (sample_disk ''C'' 3) (sample_disk ''C'' 3)
       (sample_reloader ''A'' 1) = (Inr (Some (sample_cert ''B'')), r')
     \<and> GetCertificate (sample_disk ''C'' 3) (sample_disk ''C'' 3) (sample_disk ''C'' 3) (sample_disk ''C'' 3) r'
       = (Inr (Some (sample_cert ''B'')), r')
     \<and> disk_cert (sample_disk ''C'' 3) r' = Some (sample_cert ''C'')"
proof -
  let ?r = "sample_reloader ''A'' 1" and ?r' = "sample_reloader ''B'' 3"
  have g: "GetCertificate (sample_disk ''B'' 2) (sample_disk ''B'' 2) (sample_disk ''C'' 3) (sample_disk ''C'' 3) ?r
      = (Inr (Some (sample_cert ''B'')), ?r')"
    by (simp add: tls_eval)
  have "GetCertificate (sample_disk ''C'' 3) (sample_disk ''C'' 3) (sample_disk ''C'' 3) (sample_disk ''C'' 3) ?r'
      = (Inr (Some (sample_cert ''B'')), ?r')"
    by (rule tls_renewal_race [OF _ _ _ _ g, of _ "\<lparr>NotAfter = 240 * 3600 * 10 ^ 9\<rparr>"]) (simp_all add: tls_eval)
  moreover have "disk_cert (sample_disk ''C'' 3) ?r' = Some (sample_cert ''C'')" by (simp add: tls_eval)
  ultimately show ?thesis using g by blast
qed

end
