(* ===== verification/WebUtil.thy ===== *)
theory WebUtil
  imports Maildir Strconv "HOL-Library.Word"
begin

text \<open>
  The helpers of package \<^verbatim>\<open>internal/web\<close> (web.go) that the pages call: sizes, avatars, icons, dates and
  the injection of a \<^verbatim>\<open>base\<close> element into an HTML body. Machine integers keep their width: sizes
  are \<^verbatim>\<open>int64\<close> with the wrap-around written out, the hash is a 32-bit word. A slice or index out of
  range, a panic in Go, is \<open>None\<close>.
\<close>

unbundle bit_operations_syntax

section \<open>Sizes\<close>

definition wrap64 :: "int \<Rightarrow> int" where
  "wrap64 i = (i + 2 ^ 63) mod 2 ^ 64 - 2 ^ 63"

text \<open>The quotient of two numbers rounded to the nearest integer, ties to even.\<close>

definition round_even :: "nat \<Rightarrow> nat \<Rightarrow> nat" where
  "round_even a b =
     (let q = a div b; r = a mod b
      in if 2 * r < b then q else if 2 * r > b then q + 1 else if even q then q else q + 1)"

fun bit_length :: "nat \<Rightarrow> nat" where
  "bit_length n = (if n = 0 then 0 else Suc (bit_length (n div 2)))"

declare bit_length.simps [simp del]

text \<open>\<^verbatim>\<open>float64(n)\<close> of a non-negative integer: 53 significant bits, rounded to nearest even.\<close>

definition float64_int :: "nat \<Rightarrow> nat" where
  "float64_int n = (let s = bit_length n - 53 in round_even n (2 ^ s) * 2 ^ s)"

text \<open>
  The loop that finds the unit. Here \<open>v\<close> is not negative, so Go's truncating division is \<open>div\<close>.
\<close>

function size_loop :: "int \<Rightarrow> int \<Rightarrow> nat \<Rightarrow> int \<times> nat" where
  "size_loop v dv ex = (if v \<ge> 1024 then size_loop (v div 1024) (wrap64 (dv * 1024)) (Suc ex) else (dv, ex))"
  by auto
termination
  by (relation "measure (\<lambda>(v, _, _). nat v)") auto

declare size_loop.simps [simp del]

text \<open>
  \<^verbatim>\<open>%.1f\<close> of the quotient. The divisor is a power of two, so the division of the two floating point
  numbers is exact; the result is rounded to tenths, ties to even.
\<close>

definition print_size :: "nat \<Rightarrow> char \<Rightarrow> bytes" where
  "print_size tenths u = dec_digits (tenths div 10) @ ''.'' @ dec_digits (tenths mod 10) @ '' '' @ [u] @ ''B''"

definition humanSize :: "int \<Rightarrow> bytes option" where
  "humanSize n =
     (if n < 1024 then Some (strconv_FormatInt n @ '' B'')
      else case size_loop (n div 1024) 1024 0 of
             (dv, ex) \<Rightarrow>
               if ex < length ''KMGTPE''
               then Some (print_size (round_even (10 * float64_int (nat n)) (float64_int (nat dv))) (''KMGTPE'' ! ex))
               else None)"

lemma round_even_bounds:
  assumes "0 < b"
  shows "2 * a \<le> 2 * (round_even a b * b) + b" and "2 * (round_even a b * b) \<le> 2 * a + b"
proof -
  have d: "a = a div b * b + a mod b" by simp
  have l: "a mod b < b" using assms by simp
  define q r where "q = a div b" and "r = a mod b"
  have q: "a = q * b + r" "r < b" using d l by (simp_all add: q_def r_def)
  show "2 * a \<le> 2 * (round_even a b * b) + b" "2 * (round_even a b * b) \<le> 2 * a + b"
    unfolding round_even_def Let_def q_def [symmetric] r_def [symmetric]
    using q by (auto simp: algebra_simps)
qed

lemma round_even_ge: "0 < b \<Longrightarrow> c * b \<le> a \<Longrightarrow> c \<le> round_even a b"
proof -
  assume "0 < b" and "c * b \<le> a"
  then have "c \<le> a div b" by (simp add: less_eq_div_iff_mult_less_eq)
  then show ?thesis by (auto simp: round_even_def Let_def)
qed

lemma round_even_exact: "0 < b \<Longrightarrow> round_even (c * b) b = c"
  by (simp add: round_even_def)

lemma round_even_le: "0 < b \<Longrightarrow> a \<le> c * b \<Longrightarrow> round_even a b \<le> c"
proof -
  assume b: "0 < b" and a: "a \<le> c * b"
  show ?thesis
  proof (cases "a = c * b")
    case True
    with b show ?thesis by (simp add: round_even_exact)
  next
    case False
    with a b have "a div b < c" by (simp add: div_less_iff_less_mult)
    then show ?thesis by (auto simp: round_even_def Let_def)
  qed
qed

lemma bit_length_le: "bit_length n \<le> k \<longleftrightarrow> n < 2 ^ k"
proof (induction n arbitrary: k rule: bit_length.induct)
  case (1 n)
  show ?case
  proof (cases "n = 0")
    case True
    then show ?thesis by (simp add: bit_length.simps)
  next
    case False
    show ?thesis
    proof (cases k)
      case 0
      with False show ?thesis by (simp add: bit_length.simps)
    next
      case (Suc j)
      have "n div 2 < 2 ^ j \<longleftrightarrow> n < 2 ^ Suc j" by auto
      with Suc False "1.IH" [of j] show ?thesis by (subst bit_length.simps) simp
    qed
  qed
qed

lemma float64_int_dvd:
  assumes "n < 2 ^ 63" and "1024 dvd c"
  shows "c \<le> n \<Longrightarrow> c \<le> float64_int n" and "n \<le> c \<Longrightarrow> float64_int n \<le> c"
proof -
  define s where "s = bit_length n - 53"
  have "s \<le> 10" using assms(1) bit_length_le [of n 63] by (simp add: s_def)
  then have "(2::nat) ^ s dvd 2 ^ 10" by (rule le_imp_power_dvd)
  with assms(2) have "2 ^ s dvd c" using dvd_trans [of "2 ^ s" "2 ^ 10" c] by simp
  then obtain d where c: "c = d * 2 ^ s" by (metis dvd_def mult.commute)
  have f: "float64_int n = round_even n (2 ^ s) * 2 ^ s" by (simp add: float64_int_def s_def Let_def)
  show "c \<le> float64_int n" if "c \<le> n" using round_even_ge [of "2 ^ s" d n] that by (simp add: c f)
  show "float64_int n \<le> c" if "n \<le> c" using round_even_le [of "2 ^ s" n d] that by (simp add: c f)
qed

lemma float64_int_near:
  assumes "n < 2 ^ 63"
  shows "n \<le> float64_int n + 512" and "float64_int n \<le> n + 512"
proof -
  define s where "s = bit_length n - 53"
  have "s \<le> 10" using assms(1) bit_length_le [of n 63] by (simp add: s_def)
  then have "(2::nat) ^ s \<le> 2 ^ 10" by (rule power_increasing) simp
  moreover have "float64_int n = round_even n (2 ^ s) * 2 ^ s" by (simp add: float64_int_def s_def Let_def)
  ultimately show "n \<le> float64_int n + 512" "float64_int n \<le> n + 512"
    using round_even_bounds [of "2 ^ s" n] by simp_all
qed

lemma float64_int_exact: "n < 2 ^ 63 \<Longrightarrow> 1024 dvd n \<Longrightarrow> float64_int n = n"
  using float64_int_dvd [of n n] by (simp add: le_antisym)

lemma wrap64_id: "int64_ok i \<Longrightarrow> wrap64 i = i"
  by (simp add: wrap64_def int64_ok_def)

lemma int_le_div_iff: "0 < b \<Longrightarrow> c \<le> a div b \<longleftrightarrow> c * b \<le> (a :: int)"
proof
  assume b: "0 < b" and "c \<le> a div b"
  then have "c * b \<le> a div b * b" by (simp add: mult_right_mono)
  also have "\<dots> \<le> a" using b by (simp add: minus_mod_eq_div_mult [symmetric])
  finally show "c * b \<le> a" .
next
  assume b: "0 < b" and "c * b \<le> a"
  from zdiv_mono1 [OF this(2) b] b show "c \<le> a div b" by (metis less_irrefl nonzero_mult_div_cancel_right)
qed

text \<open>The loop ends with the greatest power of the unit that does not exceed the size.\<close>

lemma size_loop_result:
  assumes "n < 2 ^ 63" and "1024 ^ Suc k \<le> n"
  shows "\<exists>e. size_loop (n div 1024 ^ Suc k) (1024 ^ Suc k) k = (1024 ^ Suc e, e) \<and> 1024 ^ Suc e \<le> n \<and> n < 1024 ^ Suc (Suc e)"
  using assms
proof (induction "n div 1024 ^ Suc k" "1024 ^ Suc k :: int" k rule: size_loop.induct)
  case (1 k)
  let ?P = "1024 ^ Suc k :: int"
  show ?case
  proof (cases "n div ?P \<ge> 1024")
    case True
    then have le: "1024 ^ Suc (Suc k) \<le> n"
      using int_le_div_iff [of ?P 1024 n] by simp
    have "int64_ok (1024 ^ Suc (Suc k))"
      unfolding int64_ok_def using le 1(2) zero_less_power [of "1024 :: int" "Suc (Suc k)"] by linarith
    then have "wrap64 (?P * 1024) = 1024 ^ Suc (Suc k)" using wrap64_id by (simp add: mult.commute)
    moreover have "n div ?P div 1024 = n div 1024 ^ Suc (Suc k)" by (simp add: zdiv_zmult2_eq [symmetric] mult.commute)
    ultimately have "size_loop (n div ?P) ?P k = size_loop (n div 1024 ^ Suc (Suc k)) (1024 ^ Suc (Suc k)) (Suc k)"
      using True by (subst size_loop.simps) (simp only: if_True)
    with 1(1) [OF True] 1(2) le \<open>wrap64 _ = _\<close> \<open>n div ?P div 1024 = _\<close> show ?thesis by (simp only: )
  next
    case False
    then have "n < 1024 ^ Suc (Suc k)" using int_le_div_iff [of ?P 1024 n] by simp
    moreover have "size_loop (n div ?P) ?P k = (?P, k)" using False by (subst size_loop.simps) simp
    ultimately show ?thesis using 1(3) by blast
  qed
qed

lemma size_tenths:
  assumes "N < 2 ^ 63" and "1024 dvd D" and "D \<le> N" and "N < 1024 * D"
  defines "t \<equiv> round_even (10 * float64_int N) D"
  shows "10 \<le> t" and "t \<le> 10240" and "2 * \<bar>10 * int N - int t * int D\<bar> \<le> int D + 10240"
proof -
  define f where "f = float64_int N"
  have D: "0 < D" using assms(3,4) by simp
  have f: "D \<le> f" "f \<le> 1024 * D" "N \<le> f + 512" "f \<le> N + 512"
    using float64_int_dvd [OF assms(1), of D] float64_int_dvd [OF assms(1), of "1024 * D"] float64_int_near [OF assms(1)]
      assms(2-4) by (simp_all add: f_def)
  show "10 \<le> t" "t \<le> 10240" using round_even_ge [of D 10 "10 * f"] round_even_le [of D "10 * f" 10240] f(1,2) D
    by (simp_all add: t_def f_def)
  define p where "p = t * D"
  have "2 * (10 * f) \<le> 2 * p + D" "2 * p \<le> 2 * (10 * f) + D"
    using round_even_bounds [OF D, of "10 * f"] by (simp_all add: p_def t_def f_def)
  with f(3,4) have "20 * N \<le> 2 * p + D + 10240" "2 * p \<le> 20 * N + D + 10240" by linarith+
  then have "20 * int N \<le> 2 * int p + int D + 10240" "2 * int p \<le> 20 * int N + int D + 10240" by linarith+
  then have "2 * \<bar>10 * int N - int p\<bar> \<le> int D + 10240" by (auto simp: abs_if)
  then show "2 * \<bar>10 * int N - int t * int D\<bar> \<le> int D + 10240" by (simp add: p_def)
qed

text \<open>The unit found and the number printed in front of it.\<close>

lemma humanSize_unit:
  assumes "int64_ok n" and "\<not> n < 1024"
  obtains e where "e < 6" and "1024 ^ Suc e \<le> n" and "n < 1024 ^ Suc (Suc e)"
    and "humanSize n = Some (print_size (round_even (10 * float64_int (nat n)) (1024 ^ Suc e)) (''KMGTPE'' ! e))"
proof -
  have n: "1024 ^ Suc 0 \<le> n" "n < 2 ^ 63" using assms by (simp_all add: int64_ok_def)
  obtain e where l: "size_loop (n div 1024) 1024 0 = (1024 ^ Suc e, e)" and e: "1024 ^ Suc e \<le> n" "n < 1024 ^ Suc (Suc e)"
    using size_loop_result [OF n(2,1)] by auto
  have "e < 6"
  proof (rule ccontr)
    assume "\<not> e < 6"
    then have "(1024 :: int) ^ 7 \<le> 1024 ^ Suc e" by (intro power_increasing) auto
    with e(1) n(2) show False by simp
  qed
  have nD: "nat (1024 ^ Suc e) = 1024 ^ Suc e" by (simp add: nat_power_eq nat_mult_distrib)
  have "int (1024 ^ Suc e) < int (2 ^ 63)" using e(1) n(2) by simp
  then have "float64_int (1024 ^ Suc e) = 1024 ^ Suc e" by (intro float64_int_exact) (simp_all only: of_nat_less_iff, simp)
  with nD have "float64_int (nat (1024 ^ Suc e)) = 1024 ^ Suc e" by (simp only: )
  then show ?thesis using that [OF \<open>e < 6\<close> e] assms(2) l \<open>e < 6\<close> by (simp add: humanSize_def del: power_Suc)
qed

lemma humanSize_some: "int64_ok n \<Longrightarrow> \<exists>s. humanSize n = Some s"
  by (cases "n < 1024") (auto simp: humanSize_def elim: humanSize_unit)

section \<open>Avatars and icons\<close>

text \<open>\<^verbatim>\<open>hash/fnv\<close>, FNV-1a on 32 bits.\<close>

definition fnv32a :: "bytes \<Rightarrow> 32 word" where
  "fnv32a s = foldl (\<lambda>h c. (h XOR of_nat (byte c)) * 16777619) 2166136261 s"

definition avatarHue :: "utab \<Rightarrow> mail_env \<Rightarrow> bytes \<Rightarrow> nat" where
  "avatarHue T M from0 =
     (let from1 = (case ParseAddress M from0 of
                     Some (_, address) \<Rightarrow> if address \<noteq> [] then address else from0
                   | None \<Rightarrow> from0)
      in unat (fnv32a (strings_ToLower T (strings_TrimSpace from1)) mod 360))"

definition avatarInitial :: "utab \<Rightarrow> mail_env \<Rightarrow> bytes \<Rightarrow> bytes" where
  "avatarInitial T M from0 =
     (let from1 = (case ParseAddress M from0 of
                     Some (name, address) \<Rightarrow> if name \<noteq> [] then name else address
                   | None \<Rightarrow> from0);
          from2 = strings_TrimSpace from1
      in if from2 = [] then ''?'' else encode_rune (unicode_ToUpper T (fst (decode_rune from2))))"

definition fileIcon :: "utab \<Rightarrow> bytes \<Rightarrow> bytes" where
  "fileIcon T mt0 =
     (let mt = strings_ToLower T mt0 in
      if strings_HasPrefix mt ''image/'' then ''bi-file-earmark-image''
      else if strings_HasPrefix mt ''video/'' then ''bi-file-earmark-play''
      else if strings_HasPrefix mt ''audio/'' then ''bi-file-earmark-music''
      else if mt = ''application/pdf'' \<or> strings_HasSuffix mt ''/pdf'' then ''bi-file-earmark-pdf''
      else if strings_Contains mt ''zip'' \<or> strings_Contains mt ''compressed'' \<or> strings_Contains mt ''tar''
        then ''bi-file-earmark-zip''
      else if strings_HasPrefix mt ''text/'' \<or> strings_Contains mt ''json'' \<or> strings_Contains mt ''xml''
        then ''bi-file-earmark-text''
      else ''bi-file-earmark'')"

definition assetURL :: "bytes \<Rightarrow> bytes \<Rightarrow> bytes" where
  "assetURL version p = p @ ''?v='' @ version"

lemma avatarHue_range: "avatarHue T M s < 360"
  by (simp add: avatarHue_def unat_mod Let_def)

text \<open>The hue does not depend on the case and on surrounding space of an address that stands alone.\<close>

lemma avatarHue_spelling:
  assumes "utab_ok T" and "ParseAddress M s = None" and "ParseAddress M t = None"
    and "strings_ToLower T (strings_TrimSpace s) = strings_ToLower T (strings_TrimSpace t)"
  shows "avatarHue T M s = avatarHue T M t"
  using assms by (simp add: avatarHue_def)

lemma avatarInitial_one:
  assumes "\<And>r. utf8_ValidRune r \<Longrightarrow> utf8_ValidRune (unicode_ToUpper T r)"
  shows "length (runes (avatarInitial T M s)) = 1"
proof -
  have "utf8_ValidRune (fst (decode_rune t))" for t using decode_rune_valid [of t] by (cases "decode_rune t") auto
  note v = assms [OF this]
  have "length (runes (encode_rune (unicode_ToUpper T (fst (decode_rune t))))) = 1" for t
    using runes_encode [OF v, of t "[]"] by (simp add: runes.simps)
  moreover have "length (runes ''?'') = 1" by (simp add: runes_ascii)
  ultimately show ?thesis by (simp add: avatarInitial_def Let_def)
qed

section \<open>Dates\<close>

text \<open>The local time zone: the calendar day of an instant and its rendering in a layout.\<close>

record time_env =
  local_Date :: "instant \<Rightarrow> int \<times> int \<times> int"
  local_Format :: "instant \<Rightarrow> bytes \<Rightarrow> bytes"

definition formatListDate :: "time_env \<Rightarrow> instant \<Rightarrow> instant \<Rightarrow> bytes" where
  "formatListDate Z now t =
     (if t = zero_time then []
      else case (local_Date Z t, local_Date Z now) of
        ((y, m, d), (ny, nm, nd)) \<Rightarrow>
          if y = ny \<and> m = nm \<and> d = nd then local_Format Z t ''15:04''
          else if y = ny then local_Format Z t ''01-02''
          else local_Format Z t ''2006-01-02'')"

definition formatFullDate :: "time_env \<Rightarrow> mail_env \<Rightarrow> bytes \<Rightarrow> bytes" where
  "formatFullDate Z M s =
     (case ParseDate M s of None \<Rightarrow> s | Some t \<Rightarrow> local_Format Z t ''2006-01-02 15:04'')"

section \<open>Pages of the listing\<close>

definition listPageSize :: int where
  "listPageSize = 50"

text \<open>\<^verbatim>\<open>xs[a:b]\<close>; out of range it panics.\<close>

definition slice :: "'a list \<Rightarrow> int \<Rightarrow> int \<Rightarrow> 'a list option" where
  "slice xs a b =
     (if 0 \<le> a \<and> a \<le> b \<and> b \<le> int (length xs) then Some (take (nat (b - a)) (drop (nat a) xs)) else None)"

definition list_pages :: "int \<Rightarrow> int" where
  "list_pages tot =
     (let pages = (tot + listPageSize - 1) div listPageSize in if pages = 0 then 1 else pages)"

definition clamp_page :: "int \<Rightarrow> bytes \<Rightarrow> int" where
  "clamp_page pages q =
     (let page = fst (strconv_Atoi q);
          page = (if page < 1 then 1 else page)
      in if page > pages then pages else page)"

definition list_page :: "'a list \<Rightarrow> bytes \<Rightarrow> ('a list \<times> int \<times> int) option" where
  "list_page msgs q =
     (let tot = int (length msgs);
          pages = list_pages tot;
          page = clamp_page pages q;
          start = (page - 1) * listPageSize;
          stop = min (start + listPageSize) tot
      in case slice msgs start stop of None \<Rightarrow> None | Some xs \<Rightarrow> Some (xs, page, pages))"

lemma list_pages_bounds:
  assumes "0 \<le> n"
  shows "1 \<le> list_pages n" and "n \<le> list_pages n * 50" and "(list_pages n - 1) * 50 \<le> n"
  using assms by (auto simp: list_pages_def listPageSize_def Let_def)

lemma clamp_page_range: "1 \<le> pages \<Longrightarrow> 1 \<le> clamp_page pages q \<and> clamp_page pages q \<le> pages"
  by (simp add: clamp_page_def Let_def)

lemma clamp_page_FormatInt: "int64_ok p \<Longrightarrow> 1 \<le> p \<Longrightarrow> p \<le> pages \<Longrightarrow> clamp_page pages (strconv_FormatInt p) = p"
  by (simp add: clamp_page_def ParseInt_FormatInt)

lemma list_page_eq:
  fixes msgs :: "'a list"
  defines "n \<equiv> list_pages (int (length msgs))"
  shows "list_page msgs q = Some (take 50 (drop (50 * nat (clamp_page n q - 1)) msgs), clamp_page n q, n)"
proof -
  let ?p = "clamp_page n q" and ?t = "int (length msgs)"
  note b = list_pages_bounds [of ?t, folded n_def]
  have p: "1 \<le> ?p" "?p \<le> n" using clamp_page_range b(1) by auto
  then have "(?p - 1) * 50 \<le> ?t" using b(3) by simp
  then have "slice msgs ((?p - 1) * 50) (min ((?p - 1) * 50 + 50) ?t)
      = Some (take 50 (drop (50 * nat (?p - 1)) msgs))"
    using p by (auto simp: slice_def min_def nat_diff_distrib nat_mult_distrib mult.commute diff_mult_distrib)
  then show ?thesis by (simp add: list_page_def listPageSize_def Let_def n_def)
qed

lemma concat_chunks: "concat (map (\<lambda>i. take k (drop (k * i) xs)) [0..<n]) = take (k * n) xs"
proof (induction n)
  case (Suc n)
  have "take (k * Suc n) xs = take (k * n + k) xs" by (simp add: add.commute)
  then show ?case using Suc by (simp add: take_add del: mult_Suc_right)
qed simp

lemma map_upto_nat: "map f [1..int n] = map (\<lambda>i. f (int i + 1)) [0..<n]"
  by (induction n) (simp_all add: upto_rec2 add.commute)

section \<open>HTML bodies\<close>

definition base_tag :: bytes where
  "base_tag = ''<base target='' @ [DQUOTE] @ ''_blank'' @ [DQUOTE] @ ''>''"

text \<open>
  The position is found in the lower-case copy and used in the original: if the copy is longer,
  it may lie behind the end of the original, where slicing panics.
\<close>

definition withBaseTargetBlank :: "utab \<Rightarrow> bytes \<Rightarrow> bytes option" where
  "withBaseTargetBlank T html =
     (let lower = strings_ToLower T html in
      case strings_Index lower ''<head'' of
        None \<Rightarrow> Some (base_tag @ html)
      | Some i \<Rightarrow>
          (case strings_Index (drop i lower) ''>'' of
             None \<Rightarrow> Some (base_tag @ html)
           | Some j \<Rightarrow>
               (let k = i + j + 1
                in if k \<le> length html then Some (take k html @ base_tag @ drop k html) else None)))"

lemma strings_Index_byte: "strings_Index s [c] = Some j \<Longrightarrow> c \<notin> set (take j s) \<and> take (Suc j) s = take j s @ [c]"
  by (induction s arbitrary: j) (auto split: if_splits simp: prefix_def)

lemma strings_Index_first: "strings_Index s p = Some i \<Longrightarrow> m < i \<Longrightarrow> take (length p) (drop m s) \<noteq> p"
proof (induction s arbitrary: i m)
  case (Cons c s)
  show ?case
  proof (cases m)
    case 0
    with Cons.prems have "\<not> prefix p (c # s)" by (auto split: if_splits)
    then show ?thesis using 0 take_is_prefix [of "length p" "c # s"] by auto
  next
    case (Suc j)
    with Cons.prems obtain i' where "i = Suc i'" "strings_Index s p = Some i'" by (auto split: if_splits)
    with Cons.IH [of i' j] Cons.prems Suc show ?thesis by simp
  qed
qed (simp split: if_splits)

lemma strings_Index_not_earlier:
  assumes "strings_Index s p = Some i" and "p \<noteq> []"
  shows "\<not> sublist p (take (i + length p - 1) s)"
proof
  assume "sublist p (take (i + length p - 1) s)"
  then obtain u v where e: "take (i + length p - 1) s = u @ p @ v" by (auto simp: sublist_def)
  then have "length (u @ p @ v) \<le> i + length p - 1" by (metis length_take min.cobounded2)
  then have "length u < i" using assms(2) by (cases p) auto
  moreover have "take (length p) (drop (length u) s) = p"
    by (metis (no_types) append.assoc append_eq_conv_conj append_take_drop_id e)
  ultimately show False using strings_Index_first [OF assms(1)] by blast
qed

text \<open>Where the two searches of \<open>withBaseTargetBlank\<close> end, and that they find every head tag.\<close>

lemma head_split:
  assumes "strings_Index l ''<head'' = Some i" and "strings_Index (drop i l) ''>'' = Some j"
  shows "\<exists>u v w. l = u @ ''<head'' @ v @ ''>'' @ w \<and> i + j + 1 = length (u @ ''<head'' @ v @ ''>'')
     \<and> CHR ''>'' \<notin> set v \<and> \<not> sublist ''<head'' (u @ ''<hea'')"
proof -
  from strings_Index_SomeD [OF assms(1)] have i: "i + 5 \<le> length l" "take 5 (drop i l) = ''<head''" by (simp_all add: eval_nat_numeral)
  from strings_Index_byte [OF assms(2)] have j: "CHR ''>'' \<notin> set (take j (drop i l))" "take (Suc j) (drop i l) = take j (drop i l) @ ''>''"
    by auto
  obtain r where r: "drop i l = ''<head'' @ r" using i(2) by (metis append_take_drop_id)
  have "\<not> j < 5"
  proof
    assume "j < 5"
    then have "CHR ''>'' \<in> set (take 5 (drop i l))" using j(2) by (metis Suc_leI append_take_drop_id in_set_conv_decomp take_take min.absorb1 in_set_takeD)
    then show False using i(2) by simp
  qed
  then obtain m where m: "j = m + 5" by (metis add.commute le_Suc_ex not_less)
  have v: "CHR ''>'' \<notin> set (take m r)" "take (Suc m) r = take m r @ ''>''" using j by (simp_all add: r m eval_nat_numeral)
  then have "r = take m r @ ''>'' @ drop (Suc m) r" by (metis append.assoc append_take_drop_id)
  then have "l = take i l @ ''<head'' @ take m r @ ''>'' @ drop (Suc m) r" by (metis append_take_drop_id r)
  moreover have "length (take m r) = m" using v(2) by (metis Suc_eq_plus1 length_append_singleton length_take min_def not_less_eq_eq nat_le_linear)
  moreover have "\<not> sublist ''<head'' (take i l @ ''<hea'')"
    using strings_Index_not_earlier [OF assms(1)] take_add [of i 4 l] r by (simp add: eval_nat_numeral)
  moreover have "i + j + 1 = length (take i l @ ''<head'' @ take m r @ ''>'')"
    using i(1) m \<open>length (take m r) = m\<close> by simp
  ultimately show ?thesis using v(1) by blast
qed

lemma head_found:
  assumes "l = u @ ''<head'' @ v @ ''>'' @ w"
  shows "\<exists>i j. strings_Index l ''<head'' = Some i \<and> strings_Index (drop i l) ''>'' = Some j"
proof -
  have "sublist ''<head'' l" using assms by (auto simp: sublist_def)
  then obtain i where i: "strings_Index l ''<head'' = Some i" using strings_Index_None_iff by (cases "strings_Index l ''<head''") auto
  have "i \<le> length u"
  proof (rule ccontr)
    assume "\<not> i \<le> length u"
    then have "take 5 (drop (length u) l) \<noteq> ''<head''" using strings_Index_first [OF i, of "length u"] by (simp add: eval_nat_numeral)
    then show False by (simp add: assms)
  qed
  then have "CHR ''>'' \<in> set (drop i l)" by (simp add: assms)
  then have "strings_Index (drop i l) ''>'' \<noteq> None"
    using strings_Index_None_iff strings_Contains_single by (metis strings_Contains_def)
  with i show ?thesis by blast
qed

section \<open>Properties\<close>

text \<open>
  C32. Every size is printed, in the right unit. For each 64-bit byte count the loop ends within the six
  units and the index into the unit letters is in range. From 1024 on the unit is the greatest power
  of 1024 not above the count, the printed number is between 1.0 and 1024.0, and it is the count in
  that unit up to half a tenth and the error of the conversion to a floating point number.
\<close>
theorem human_size_total:
  assumes "int64_ok n"
  shows "if n < 1024 then humanSize n = Some (strconv_FormatInt n @ '' B'')
    else \<exists>t e. e < 6 \<and> humanSize n = Some (print_size t (''KMGTPE'' ! e)) \<and> 1024 ^ Suc e \<le> n \<and> n < 1024 ^ Suc (Suc e)
      \<and> 10 \<le> t \<and> t \<le> 10240 \<and> 2 * \<bar>10 * n - int t * 1024 ^ Suc e\<bar> \<le> 1024 ^ Suc e + 10240"
proof (cases "n < 1024")
  case False
  obtain e where e: "e < 6" "1024 ^ Suc e \<le> n" "n < 1024 ^ Suc (Suc e)"
    and h: "humanSize n = Some (print_size (round_even (10 * float64_int (nat n)) (1024 ^ Suc e)) (''KMGTPE'' ! e))"
    using humanSize_unit [OF assms False] .
  define N D where "N = nat n" and "D = (1024 :: nat) ^ Suc e"
  have iD: "int D = 1024 ^ Suc e" by (simp add: D_def)
  have N: "int N = n" "N < 2 ^ 63" using False assms by (simp_all add: N_def int64_ok_def nat_less_iff)
  have D: "int D \<le> int N" "int N < int (1024 * D)" using e(2,3) by (simp_all add: N(1) iD)
  note t = size_tenths [of N D, OF N(2) _ D [unfolded of_nat_le_iff of_nat_less_iff]]
  have "1024 dvd D" by (simp add: D_def)
  with t h e False show ?thesis by (auto simp: N_def [symmetric] D_def [symmetric] N(1) iD simp del: power_Suc)
qed (simp add: humanSize_def)

text \<open>
  C31. The pages show the whole listing. Whatever the query says, the slice is in range, the page shown
  is between the first and the last and has at most fifty messages; and the pages one after the other
  are the listing, without a gap or an overlap.
\<close>
theorem pages_partition:
  assumes "int64_ok (int (length ms))"
  shows "\<exists>n. (\<forall>q. \<exists>xs p. list_page ms q = Some (xs, p, n) \<and> 1 \<le> p \<and> p \<le> n \<and> length xs \<le> 50)
    \<and> concat (map (\<lambda>p. case list_page ms (strconv_FormatInt p) of Some (xs, _) \<Rightarrow> xs | None \<Rightarrow> []) [1..n]) = ms"
proof -
  define n where "n = list_pages (int (length ms))"
  note b = list_pages_bounds [of "int (length ms)", folded n_def]
  note e = list_page_eq [of ms, folded n_def]
  have n: "n = int (nat n)" "length ms \<le> 50 * nat n" using b(1,2) by simp_all
  have "int64_ok p" if "p \<in> {1..n}" for p using that assms b(3) by (simp add: int64_ok_def)
  then have pg: "(case list_page ms (strconv_FormatInt p) of Some (xs, _) \<Rightarrow> xs | None \<Rightarrow> []) = take 50 (drop (50 * nat (p - 1)) ms)"
    if "p \<in> set [1..n]" for p
    using that clamp_page_FormatInt [of p n] by (simp add: e)
  have "map (\<lambda>p. case list_page ms (strconv_FormatInt p) of Some (xs, _) \<Rightarrow> xs | None \<Rightarrow> []) [1..n]
      = map (\<lambda>p. take 50 (drop (50 * nat (p - 1)) ms)) [1..n]"
    by (intro map_cong refl) (rule pg)
  also have "\<dots> = map (\<lambda>i. take 50 (drop (50 * i) ms)) [0..<nat n]"
    using map_upto_nat [of "\<lambda>p. take 50 (drop (50 * nat (p - 1)) ms)" "nat n"] n(1) by simp
  finally have "concat (map (\<lambda>p. case list_page ms (strconv_FormatInt p) of Some (xs, _) \<Rightarrow> xs | None \<Rightarrow> []) [1..n]) = ms"
    using n(2) by (simp add: concat_chunks)
  moreover have "\<exists>xs p. list_page ms q = Some (xs, p, n) \<and> 1 \<le> p \<and> p \<le> n \<and> length xs \<le> 50" for q
    using clamp_page_range [OF b(1), of q] by (simp add: e)
  ultimately show ?thesis by blast
qed

text \<open>
  The \<^verbatim>\<open>base\<close> element is inserted without touching the body. When lower-casing keeps the length, as it
  does for every ASCII body, the result is the body with the element added at one place: in front
  when the lower-case body has no \<^verbatim>\<open><head\<close> followed by \<^verbatim>\<open>>\<close>, and otherwise right behind the first
  \<^verbatim>\<open>>\<close> after the first \<^verbatim>\<open><head\<close>.
\<close>
lemma base_tag_inserted:
  assumes "length (strings_ToLower T html) = length html"
  shows "\<exists>a b. html = a @ b \<and> withBaseTargetBlank T html = Some (a @ base_tag @ b)
    \<and> (if \<exists>u v w. strings_ToLower T html = u @ ''<head'' @ v @ ''>'' @ w
       then \<exists>u v w. strings_ToLower T html = u @ ''<head'' @ v @ ''>'' @ w \<and> length a = length (u @ ''<head'' @ v @ ''>'')
              \<and> CHR ''>'' \<notin> set v \<and> \<not> sublist ''<head'' (u @ ''<hea'')
       else a = [])"
proof -
  define lower where "lower = strings_ToLower T html"
  show ?thesis
  proof (cases "\<exists>i j. strings_Index lower ''<head'' = Some i \<and> strings_Index (drop i lower) ''>'' = Some j")
    case True
    then obtain i j where i: "strings_Index lower ''<head'' = Some i" and j: "strings_Index (drop i lower) ''>'' = Some j" by blast
    from head_split [OF i j] obtain u v w where l: "lower = u @ ''<head'' @ v @ ''>'' @ w" "i + j + 1 = length (u @ ''<head'' @ v @ ''>'')"
      "CHR ''>'' \<notin> set v" "\<not> sublist ''<head'' (u @ ''<hea'')" by blast
    have k: "i + j + 1 \<le> length html" using assms l(1,2) by (simp add: lower_def)
    then have "withBaseTargetBlank T html = Some (take (i + j + 1) html @ base_tag @ drop (i + j + 1) html)"
      using i j by (simp add: withBaseTargetBlank_def lower_def Let_def)
    moreover have "length (take (i + j + 1) html) = length (u @ ''<head'' @ v @ ''>'')" using k l(2) by simp
    with l have "\<exists>u v w. lower = u @ ''<head'' @ v @ ''>'' @ w" "\<exists>u v w. lower = u @ ''<head'' @ v @ ''>'' @ w
        \<and> length (take (i + j + 1) html) = length (u @ ''<head'' @ v @ ''>'')
        \<and> CHR ''>'' \<notin> set v \<and> \<not> sublist ''<head'' (u @ ''<hea'')" by blast+
    moreover have "html = take (i + j + 1) html @ drop (i + j + 1) html" by simp
    ultimately show ?thesis unfolding lower_def [symmetric] by (metis (no_types, lifting))
  next
    case False
    then have "withBaseTargetBlank T html = Some (base_tag @ html)"
      by (auto simp: withBaseTargetBlank_def lower_def Let_def split: option.splits)
    moreover have "\<not> (\<exists>u v w. lower = u @ ''<head'' @ v @ ''>'' @ w)" using False head_found by blast
    ultimately show ?thesis unfolding lower_def [symmetric] by auto
  qed
qed

lemma strings_Map_append_ascii: "byte a < 0x80 \<Longrightarrow> strings_Map f (s @ a # t) = strings_Map f s @ strings_Map f (a # t)"
  by (simp add: strings_Map_def runes_append_ascii)

lemma strings_Index_at: "c \<notin> set a \<Longrightarrow> prefix (c # p) b \<Longrightarrow> strings_Index (a @ b) (c # p) = Some (length a)"
  by (induction a) (auto simp: prefix_def)

lemma runes_stray: "runes (replicate n (CHR 0xFF)) = replicate n (RuneError, [CHR 0xFF])"
  by (induction n) (simp_all add: runes_Cons decode_multi_def)

text \<open>
  C33. A body can bring the page down. Each byte that is not UTF-8 becomes three bytes in the lower-case
  copy. If such bytes stand before the head tag and fewer than twice as many bytes follow it, the
  position found in the copy lies behind the end of the body and slicing the body panics.
\<close>
theorem base_insertion_panics:
  assumes "lower_of T RuneError = RuneError" and "length rest < 2 * n"
  shows "withBaseTargetBlank T (replicate n (CHR 0xFF) @ ''<head>'' @ rest) = None"
proof -
  let ?L = "strings_Map (unicode_ToLower T) rest" and ?a = "concat (replicate n (encode_rune RuneError))"
  have "strings_Map (unicode_ToLower T) (''<head>'' @ rest) = ''<head>'' @ ?L"
    by (simp add: strings_Map_def runes_ascii_head unicode_ToLower_def encode_rune_def char_of_def bit_0)
  moreover have "strings_Map (unicode_ToLower T) (replicate n (CHR 0xFF)) = ?a"
    using assms(1) by (simp add: strings_Map_def runes_stray map_replicate_const unicode_ToLower_def RuneError_def)
  ultimately have l: "strings_ToLower T (replicate n (CHR 0xFF) @ ''<head>'' @ rest) = ?a @ ''<head>'' @ ?L"
    by (simp add: strings_ToLower_eq_Map strings_Map_append_ascii)
  have "CHR ''<'' \<notin> set (encode_rune RuneError)" "length (encode_rune RuneError) = 3"
    by (simp_all add: encode_rune_def RuneError_def enc3_def surrogate_def char_of_def bit_0)
  then have "CHR ''<'' \<notin> set ?a" "length ?a = 3 * n" by (auto simp: length_concat sum_list_replicate)
  then have i: "strings_Index (?a @ ''<head>'' @ ?L) ''<head'' = Some (3 * n)"
    using strings_Index_at [OF \<open>CHR ''<'' \<notin> set ?a\<close>, of "''head''" "''<head>'' @ ?L"] by simp
  have j: "strings_Index (drop (3 * n) (?a @ ''<head>'' @ ?L)) ''>'' = Some 5" using \<open>length ?a = 3 * n\<close> by simp
  show ?thesis unfolding withBaseTargetBlank_def l Let_def i option.case j using assms(2) by simp
qed

section \<open>Samples\<close>

theorem human_size_total_witness: "\<exists>t e. humanSize 1536000 = Some (print_size t (''KMGTPE'' ! e)) \<and> 10 \<le> t \<and> t \<le> 10240"
proof -
  have "int64_ok 1536000" by (simp add: int64_ok_def)
  from human_size_total [OF this] show ?thesis by auto
qed

theorem pages_partition_witness:
  "\<exists>n. concat (map (\<lambda>p. case list_page [0..<120] (strconv_FormatInt p) of Some (xs, _) \<Rightarrow> xs | None \<Rightarrow> []) [1..n]) = [0..<120 :: nat]"
  using pages_partition [of "[0..<120]"] by (auto simp: int64_ok_def)

theorem base_insertion_panics_witness: "withBaseTargetBlank ascii_utab ([CHR 0xFF] @ ''<head>'' @ ''x'') = None"
  using base_insertion_panics [of ascii_utab "''x''" 1] by (simp add: ascii_utab_def)

end
