(* ===== verification/WebMime.thy ===== *)
theory WebMime
  imports WebUtil
begin

text \<open>
  The parts of a message as package \<^verbatim>\<open>internal/web\<close> (web.go) sees them: \<^verbatim>\<open>walkMessage\<close> collects the text,
  the HTML body and the attachments, \<^verbatim>\<open>handleAttach\<close> walks again to serve one of them. The MIME parser
  go-message is a parameter: \<^verbatim>\<open>message.Read\<close> gives an entity, an entity together with an error
  (an unknown charset or encoding), or only an error; an entity is the sequence of calls its \<^verbatim>\<open>Walk\<close>
  makes.
\<close>

section \<open>Entities\<close>

text \<open>
  A part with its parsed content type and disposition, each with parameters, and its body: the bytes
  that can be read and whether reading ends in an error.
\<close>

record entity =
  ContentType :: "bytes \<times> (bytes \<times> bytes) list"
  ContentDisposition :: "bytes \<times> (bytes \<times> bytes) list"
  Body :: "bytes \<times> bool"

text \<open>
  A walk: each visit hands a part, or nothing, and an error flag to the callback. Bodies are streams, so what
  the walk does next may depend on whether the callback has read the body it was handed.
\<close>

datatype mime_walk = Finished | Visit "entity option" bool "bool \<Rightarrow> mime_walk"

datatype read_result = ReadOK mime_walk | ReadWithError mime_walk | ReadFailed

record mime_env =
  message_Read :: "bytes \<Rightarrow> read_result"
  FormatMediaType :: "bytes \<Rightarrow> (bytes \<times> bytes) list \<Rightarrow> bytes"

definition param :: "(bytes \<times> bytes) list \<Rightarrow> bytes \<Rightarrow> bytes" where
  "param ps k = (case map_of ps k of Some v \<Rightarrow> v | None \<Rightarrow> [])"

section \<open>walkMessage\<close>

record attachment =
  att_N :: int
  att_Filename :: bytes
  att_Type :: bytes
  att_Size :: bytes

record walk_state =
  ws_text :: bytes
  ws_html :: bytes
  ws_attach :: "attachment list"
  ws_n :: int

definition readBody :: "entity \<Rightarrow> bytes" where
  "readBody e = (case Body e of (b, err) \<Rightarrow> if err then [] else b)"

text \<open>The number of bytes \<^verbatim>\<open>io.Copy\<close> counts, an \<^verbatim>\<open>int64\<close>.\<close>

definition io_Copy_count :: "entity \<Rightarrow> int" where
  "io_Copy_count e = wrap64 (int (length (fst (Body e))))"

definition part_filename :: "entity \<Rightarrow> bytes" where
  "part_filename e =
     (let filename = param (snd (ContentDisposition e)) ''filename''
      in if filename = [] then param (snd (ContentType e)) ''name'' else filename)"

definition part_name :: "bytes \<Rightarrow> int \<Rightarrow> bytes" where
  "part_name filename n = (if filename = [] then ''part-'' @ strconv_FormatInt n else filename)"

text \<open>The callback on a part: the new state, and whether it has read the body; \<open>None\<close> is a panic.\<close>

definition walk_part :: "entity \<Rightarrow> walk_state \<Rightarrow> (walk_state \<times> bool) option" where
  "walk_part p st =
     (let mt = fst (ContentType p);
          disp = fst (ContentDisposition p);
          filename = part_filename p;
          isAttach = (disp = ''attachment'' \<or> filename \<noteq> [])
      in if \<not> isAttach \<and> mt = ''text/plain'' \<and> ws_text st = []
         then Some (st\<lparr>ws_text := readBody p\<rparr>, True)
         else if \<not> isAttach \<and> mt = ''text/html'' \<and> ws_html st = []
         then Some (st\<lparr>ws_html := readBody p\<rparr>, True)
         else if isAttach
         then (case humanSize (io_Copy_count p) of
                 None \<Rightarrow> None
               | Some sz \<Rightarrow>
                   Some (st\<lparr>ws_attach := ws_attach st @
                             [\<lparr>att_N = ws_n st, att_Filename = part_name filename (ws_n st), att_Type = mt, att_Size = sz\<rparr>],
                           ws_n := ws_n st + 1\<rparr>, True))
         else Some (st, False))"

primrec walk_loop :: "mime_walk \<Rightarrow> walk_state \<Rightarrow> walk_state option" where
  "walk_loop Finished = (\<lambda>st. Some st)"
| "walk_loop (Visit part err next) = (\<lambda>st.
     (case part of
        None \<Rightarrow> walk_loop (next False) st
      | Some p \<Rightarrow>
          if err then walk_loop (next False) st
          else case walk_part p st of
                 None \<Rightarrow> None
               | Some (st', b) \<Rightarrow> walk_loop (next b) st'))"

text \<open>The result is the text, the HTML body and the attachments; \<open>None\<close> is a panic.\<close>

definition walkMessage :: "mime_env \<Rightarrow> bytes \<Rightarrow> (bytes \<times> bytes \<times> attachment list) option" where
  "walkMessage E raw =
     (case (case message_Read E raw of ReadOK w \<Rightarrow> Some w | ReadWithError w \<Rightarrow> Some w | ReadFailed \<Rightarrow> None) of
        None \<Rightarrow> Some ([], [], [])
      | Some w \<Rightarrow>
          (case walk_loop w \<lparr>ws_text = [], ws_html = [], ws_attach = [], ws_n = 0\<rparr> of
             None \<Rightarrow> None
           | Some st \<Rightarrow> Some (ws_text st, ws_html st, ws_attach st)))"

section \<open>Serving one attachment\<close>

text \<open>The walk of \<^verbatim>\<open>handleAttach\<close>: media type, disposition and body of the part that is found.\<close>

type_synonym served = "bytes \<times> bytes \<times> bytes"

primrec attach_loop :: "mime_env \<Rightarrow> int \<Rightarrow> mime_walk \<Rightarrow> served option \<times> int \<Rightarrow> served option" where
  "attach_loop E want Finished = (\<lambda>(found, n). found)"
| "attach_loop E want (Visit part err next) = (\<lambda>(found, n).
     (case part of
        None \<Rightarrow> attach_loop E want (next False) (found, n)
      | Some p \<Rightarrow>
          if found \<noteq> None \<or> err then attach_loop E want (next False) (found, n)
          else
            (let disp = fst (ContentDisposition p);
                 mt = fst (ContentType p);
                 filename = part_filename p
             in if disp \<noteq> ''attachment'' \<and> filename = [] then attach_loop E want (next False) (found, n)
                else if n = want
                then attach_loop E want (next True)
                       (Some (mt, FormatMediaType E ''attachment'' [(''filename'', part_name filename n)], fst (Body p)), n + 1)
                else attach_loop E want (next False) (found, n + 1))))"

text \<open>From the part number in the path to the part; \<open>None\<close> is answered with \<^verbatim>\<open>http.NotFound\<close>.\<close>

definition find_attach :: "mime_env \<Rightarrow> bytes \<Rightarrow> bytes \<Rightarrow> served option" where
  "find_attach E raw n =
     (case strconv_Atoi n of (want, err) \<Rightarrow>
        if err \<noteq> None \<or> want < 0 then None
        else case message_Read E raw of
               ReadOK w \<Rightarrow> attach_loop E want w (None, 0)
             | _ \<Rightarrow> None)"

section \<open>Both walks over the same parts\<close>

text \<open>
  A multipart entity. \<^verbatim>\<open>Walk\<close> visits it before its parts, and its body is where the parts come from, so
  after the callback has read it the parts are gone.
\<close>

definition is_multipart :: "entity \<Rightarrow> bool" where
  "is_multipart p \<longleftrightarrow> strings_HasPrefix (fst (ContentType p)) ''multipart/''"

text \<open>
  The visits of a walk, one after the other, when the bodies that may be read without an effect on
  later visits are those of the parts in \<open>quiet\<close>. A visit without a part or with an error is skipped by
  both callbacks, which then read nothing.
\<close>

primrec fixed_walk :: "(entity \<Rightarrow> bool) \<Rightarrow> mime_walk \<Rightarrow> (entity option \<times> bool) list \<Rightarrow> bool" where
  "fixed_walk quiet Finished = (\<lambda>vs. vs = [])"
| "fixed_walk quiet (Visit part err next) = (\<lambda>vs.
     (case vs of
        [] \<Rightarrow> False
      | v # vs' \<Rightarrow> v = (part, err) \<and> fixed_walk quiet (next False) vs'
          \<and> (\<not> err \<longrightarrow> (\<forall>p. part = Some p \<longrightarrow> quiet p \<longrightarrow> fixed_walk quiet (next True) vs'))))"

lemma fixed_walk_Visit:
  assumes "fixed_walk quiet (Visit part err nxt) vs"
  obtains vs' where "vs = (part, err) # vs'" and "fixed_walk quiet (nxt False) vs'"
    and "\<not> err \<longrightarrow> (\<forall>p. part = Some p \<longrightarrow> quiet p \<longrightarrow> fixed_walk quiet (nxt True) vs')"
  using assms by (cases vs) auto

text \<open>The attachments among the visits, in order.\<close>

definition is_attachment :: "entity \<Rightarrow> bool" where
  "is_attachment p \<longleftrightarrow> fst (ContentDisposition p) = ''attachment'' \<or> part_filename p \<noteq> []"

definition attached :: "(entity option \<times> bool) list \<Rightarrow> entity list" where
  "attached vs = filter is_attachment (List.map_filter (\<lambda>(p, err). if err then None else p) vs)"

definition listed :: "int \<Rightarrow> entity \<Rightarrow> attachment" where
  "listed n p =
     \<lparr>att_N = n, att_Filename = part_name (part_filename p) n, att_Type = fst (ContentType p),
      att_Size = the (humanSize (io_Copy_count p))\<rparr>"

definition served_part :: "mime_env \<Rightarrow> int \<Rightarrow> entity \<Rightarrow> served" where
  "served_part E n p =
     (fst (ContentType p), FormatMediaType E ''attachment'' [(''filename'', part_name (part_filename p) n)], fst (Body p))"

lemma attached_simps [simp]:
  "attached [] = []"
  "attached ((None, err) # vs) = attached vs"
  "attached ((part, True) # vs) = attached vs"
  "attached ((Some p, False) # vs) = (if is_attachment p then p # attached vs else attached vs)"
  by (simp_all add: attached_def List.map_filter_simps)

lemma wrap64_ok: "int64_ok (wrap64 i)"
  by (simp add: wrap64_def int64_ok_def)

lemma humanSize_count: "humanSize (io_Copy_count p) = Some (att_Size (listed n p))"
  using humanSize_some [OF wrap64_ok, of "int (length (fst (Body p)))"] by (auto simp: listed_def io_Copy_count_def)

fun listing :: "int \<Rightarrow> entity list \<Rightarrow> attachment list" where
  "listing n [] = []"
| "listing n (p # ps) = listed n p # listing (n + 1) ps"

lemma length_listing [simp]: "length (listing n ps) = length ps"
  by (induction ps arbitrary: n) auto

lemma listing_nth: "i < length ps \<Longrightarrow> listing n ps ! i = listed (n + int i) (ps ! i)"
  by (induction ps arbitrary: n i) (auto simp: nth_Cons add.assoc split: nat.split)

text \<open>
  The callback of \<^verbatim>\<open>walkMessage\<close> reads the bodies of text parts and of attachments, and of nothing else.
\<close>

definition quiet_part :: "entity \<Rightarrow> bool" where
  "quiet_part p \<longleftrightarrow> is_attachment p \<or> \<not> is_multipart p"

lemma walk_part_result:
  "\<exists>st' b. walk_part p st = Some (st', b)
     \<and> ws_attach st' = (if is_attachment p then ws_attach st @ [listed (ws_n st) p] else ws_attach st)
     \<and> ws_n st' = (if is_attachment p then ws_n st + 1 else ws_n st) \<and> (b \<longrightarrow> quiet_part p)"
proof -
  obtain sz where sz: "humanSize (io_Copy_count p) = Some sz" using humanSize_count by blast
  show ?thesis
    by (cases "is_attachment p")
      (auto simp: walk_part_def is_attachment_def listed_def Let_def sz quiet_part_def is_multipart_def strings_HasPrefix_def)
qed

text \<open>A walk is fixed for fewer parts as well, and only the parts that are visited matter.\<close>

lemma fixed_walk_mono:
  "fixed_walk quiet w vs \<Longrightarrow> (\<And>p. (Some p, False) \<in> set vs \<Longrightarrow> quiet' p \<Longrightarrow> quiet p) \<Longrightarrow> fixed_walk quiet' w vs"
proof (induction w arbitrary: vs)
  case (Visit part err nxt)
  from Visit.prems(1) obtain vs' where vs: "vs = (part, err) # vs'" and f: "fixed_walk quiet (nxt False) vs'"
    and t: "\<not> err \<longrightarrow> (\<forall>p. part = Some p \<longrightarrow> quiet p \<longrightarrow> fixed_walk quiet (nxt True) vs')"
    by (rule fixed_walk_Visit)
  have IH: "fixed_walk quiet (nxt b) vs' \<Longrightarrow> fixed_walk quiet' (nxt b) vs'" for b
    using Visit.IH [OF rangeI, of b vs'] Visit.prems(2) by (simp add: vs)
  show ?case using IH f t Visit.prems(2) by (auto simp: vs)
qed simp

lemma leaf_walk_quiet:
  assumes "fixed_walk (\<lambda>p. \<not> is_multipart p) w vs" and "\<forall>p \<in> set (attached vs). \<not> is_multipart p"
  shows "fixed_walk quiet_part w vs"
proof (rule fixed_walk_mono [OF assms(1)])
  fix p
  assume "(Some p, False) \<in> set vs" "quiet_part p"
  then show "\<not> is_multipart p"
    using assms(2) by (force simp: quiet_part_def attached_def List.map_filter_def)
qed

lemma walk_loop_attach:
  "fixed_walk quiet_part w vs \<Longrightarrow>
     \<exists>st'. walk_loop w st = Some st' \<and> ws_attach st' = ws_attach st @ listing (ws_n st) (attached vs)"
proof (induction w arbitrary: vs st)
  case (Visit part err nxt)
  from Visit.prems obtain vs' where vs: "vs = (part, err) # vs'" and f: "fixed_walk quiet_part (nxt False) vs'"
    and t: "\<not> err \<longrightarrow> (\<forall>p. part = Some p \<longrightarrow> quiet_part p \<longrightarrow> fixed_walk quiet_part (nxt True) vs')"
    by (rule fixed_walk_Visit)
  have IH: "\<exists>st'. walk_loop (nxt b) st = Some st' \<and> ws_attach st' = ws_attach st @ listing (ws_n st) (attached vs')"
    if "fixed_walk quiet_part (nxt b) vs'" for b st using Visit.IH [OF rangeI that] by blast
  show ?case
  proof (cases "part = None \<or> err")
    case True
    then show ?thesis using IH [OF f, of st] by (auto simp: vs split: option.splits)
  next
    case False
    then obtain p where p: "part = Some p" "\<not> err" by auto
    obtain st1 b where st1: "walk_part p st = Some (st1, b)"
      "ws_attach st1 = (if is_attachment p then ws_attach st @ [listed (ws_n st) p] else ws_attach st)"
      "ws_n st1 = (if is_attachment p then ws_n st + 1 else ws_n st)" "b \<longrightarrow> quiet_part p" using walk_part_result by blast
    have "fixed_walk quiet_part (nxt b) vs'" using f t p st1(4) by (cases b) auto
    from IH [OF this, of st1] st1(1-3) show ?thesis by (auto simp: vs p)
  qed
qed simp

text \<open>The walk of \<^verbatim>\<open>handleAttach\<close> reads one body only, and after that looks at no part.\<close>

lemma attach_loop_found: "attach_loop E want w (Some x, n) = Some x"
proof (induction w)
  case (Visit part err nxt)
  from Visit.IH [OF rangeI, of False] show ?case by (simp split: option.splits)
qed simp

lemma attach_loop_served:
  "fixed_walk quiet w vs \<Longrightarrow> attach_loop E want w (None, n) =
     (if n \<le> want \<and> want < n + int (length (attached vs)) then Some (served_part E want (attached vs ! nat (want - n))) else None)"
proof (induction w arbitrary: vs n)
  case (Visit part err nxt)
  from Visit.prems obtain vs' where vs: "vs = (part, err) # vs'" and f: "fixed_walk quiet (nxt False) vs'"
    by (rule fixed_walk_Visit)
  note IH = Visit.IH [OF rangeI f]
  show ?case
  proof (cases "part = None \<or> err")
    case True
    then show ?thesis using IH [of n] by (auto simp: vs split: option.splits)
  next
    case False
    then obtain p where p: "part = Some p" "\<not> err" by auto
    consider "\<not> is_attachment p" | "is_attachment p" "n = want" | "is_attachment p" "n \<noteq> want" by blast
    then show ?thesis
    proof cases
      case 1
      then show ?thesis using IH [of n] by (simp add: vs p is_attachment_def Let_def)
    next
      case 2
      then show ?thesis by (auto simp: vs p is_attachment_def Let_def served_part_def attach_loop_found)
    next
      case 3
      then have "attach_loop E want (Visit part err nxt) (None, n) = attach_loop E want (nxt False) (None, n + 1)"
        by (auto simp: p is_attachment_def Let_def)
      moreover have "nat (want - n) = Suc (nat (want - (n + 1)))" if "n + 1 \<le> want" using that by simp
      ultimately show ?thesis using IH [of "n + 1"] 3 by (auto simp: vs p)
    qed
  qed
qed simp

lemma find_attach_at:
  assumes "message_Read E raw = ReadOK w" and "fixed_walk quiet w vs" and "int64_ok (int i)"
  shows "find_attach E raw (strconv_FormatInt (int i)) =
     (if i < length (attached vs) then Some (served_part E (int i) (attached vs ! i)) else None)"
  using attach_loop_served [OF assms(2), of E "int i" 0]
  by (simp add: find_attach_def ParseInt_FormatInt [OF assms(3)] assms(1))

lemma walkMessage_listing:
  assumes "message_Read E raw \<in> {ReadOK w, ReadWithError w}" and "fixed_walk quiet_part w vs"
  shows "\<exists>t h. walkMessage E raw = Some (t, h, listing 0 (attached vs))"
  using walk_loop_attach [OF assms(2), of "\<lparr>ws_text = [], ws_html = [], ws_attach = [], ws_n = 0\<rparr>"] assms(1)
  by (auto simp: walkMessage_def)

text \<open>A walk never panics: the sizes it formats are 64-bit integers.\<close>

lemma walk_loop_total: "\<exists>st'. walk_loop w st = Some st'"
proof (induction w arbitrary: st)
  case (Visit part err nxt)
  have IH: "\<exists>st'. walk_loop (nxt b) st = Some st'" for b st by (rule Visit.IH [OF rangeI])
  show ?case
  proof (cases "part = None \<or> err")
    case True
    with IH show ?thesis by (auto split: option.split)
  next
    case False
    then obtain p where p: "part = Some p" "\<not> err" by auto
    obtain st1 b where "walk_part p st = Some (st1, b)" using walk_part_result by blast
    with IH p show ?thesis by simp
  qed
qed simp

lemma walkMessage_total: "\<exists>t h as. walkMessage E raw = Some (t, h, as)"
proof (cases "case message_Read E raw of ReadOK w \<Rightarrow> Some w | ReadWithError w \<Rightarrow> Some w | ReadFailed \<Rightarrow> None")
  case (Some w)
  obtain st where "walk_loop w \<lparr>ws_text = [], ws_html = [], ws_attach = [], ws_n = 0\<rparr> = Some st"
    using walk_loop_total by blast
  with Some show ?thesis by (simp add: walkMessage_def)
qed (simp add: walkMessage_def)

lemma Atoi_1: "strconv_Atoi ''1'' = (1, None)"
  by (simp add: strconv_ParseInt_def split_sign_def is_digit_def)

section \<open>Properties\<close>

text \<open>
  C19. The attachments shown are the attachments served. For a message that parses, of any structure,
  in which no multipart part carries a file name or is marked as an attachment, the page lists the
  attachments numbered from zero, and following the link of one serves that part: with the media type
  and the file name shown, and a body of the size shown. Any other number is not found. Of the parser
  this uses that reading the body of a part that is not a multipart does not change what the walk
  visits next; reading the body of a multipart may.
\<close>
theorem attachments_served:
  assumes "message_Read E raw = ReadOK w" and "fixed_walk (\<lambda>p. \<not> is_multipart p) w vs"
    and "\<forall>p \<in> set (attached vs). \<not> is_multipart p"
  shows "\<exists>t h as. walkMessage E raw = Some (t, h, as) \<and> length as = length (attached vs)
    \<and> (\<forall>i. int64_ok (int i) \<longrightarrow>
        (if i < length as
         then att_N (as ! i) = int i
            \<and> find_attach E raw (strconv_FormatInt (att_N (as ! i))) =
                Some (att_Type (as ! i), FormatMediaType E ''attachment'' [(''filename'', att_Filename (as ! i))],
                      fst (Body (attached vs ! i)))
            \<and> humanSize (wrap64 (int (length (fst (Body (attached vs ! i)))))) = Some (att_Size (as ! i))
         else find_attach E raw (strconv_FormatInt (int i)) = None))"
proof -
  obtain t h where w: "walkMessage E raw = Some (t, h, listing 0 (attached vs))"
    using walkMessage_listing [OF _ leaf_walk_quiet [OF assms(2,3)]] assms(1) by blast
  let ?as = "listing 0 (attached vs)"
  have "if i < length ?as
      then att_N (?as ! i) = int i
         \<and> find_attach E raw (strconv_FormatInt (att_N (?as ! i))) =
             Some (att_Type (?as ! i), FormatMediaType E ''attachment'' [(''filename'', att_Filename (?as ! i))],
                   fst (Body (attached vs ! i)))
         \<and> humanSize (wrap64 (int (length (fst (Body (attached vs ! i)))))) = Some (att_Size (?as ! i))
      else find_attach E raw (strconv_FormatInt (int i)) = None" if "int64_ok (int i)" for i
    using find_attach_at [OF assms(1,2) that] humanSize_count [of "attached vs ! i" "int i"]
    by (simp add: listing_nth) (auto simp: served_part_def listed_def io_Copy_count_def)
  then show ?thesis by (intro exI [of _ t] exI [of _ h] exI [of _ ?as] conjI allI impI) (rule w, simp)
qed

text \<open>
  C16. A multipart part with a file name breaks the numbering. When a message contains such a part,
  which \<^verbatim>\<open>walkMessage\<close> lists and whose body it reads to count its size, the parts inside are gone for the
  listing; \<^verbatim>\<open>handleAttach\<close> does not read it when it looks for another number, and counts the parts inside.
  So the first attachment inside is served under number one, while the page shows under that number
  the next attachment outside, or nothing.
\<close>
theorem named_multipart_misnumbered:
  assumes "message_Read E raw = ReadOK (Visit (Some outer) False (\<lambda>b. if b then Finished else Visit (Some m) False
      (\<lambda>b. if b then w else Visit (Some p) False inside)))"
    and "\<not> is_attachment outer" and "is_multipart outer" and "is_attachment m" and "is_multipart m" and "is_attachment p"
    and "fixed_walk quiet_part w vs"
  shows "(\<exists>t h as. walkMessage E raw = Some (t, h, as) \<and> length as = Suc (length (attached vs)) \<and> as ! 0 = listed 0 m
          \<and> (\<forall>c cs. attached vs = c # cs \<longrightarrow> as ! 1 = listed 1 c))
    \<and> find_attach E raw ''1'' = Some (served_part E 1 p)"
proof -
  let ?st = "\<lparr>ws_text = [], ws_html = [], ws_attach = [], ws_n = 0\<rparr>"
  have outer: "walk_part outer ?st = Some (?st, False)"
    using assms(2,3) by (auto simp: walk_part_def Let_def is_attachment_def is_multipart_def strings_HasPrefix_def)
  obtain sz where "humanSize (io_Copy_count m) = Some sz" using humanSize_count by blast
  with assms(4) obtain st1 where m: "walk_part m ?st = Some (st1, True)" "ws_attach st1 = [listed 0 m]" "ws_n st1 = 1"
    by (auto simp: walk_part_def is_attachment_def listed_def Let_def)
  obtain st' where "walk_loop w st1 = Some st'" "ws_attach st' = [listed 0 m] @ listing 1 (attached vs)"
    using walk_loop_attach [OF assms(7), of st1] m(2,3) by auto
  then have "\<exists>t h. walkMessage E raw = Some (t, h, listed 0 m # listing 1 (attached vs))"
    using assms(1) by (simp add: walkMessage_def outer m(1))
  moreover have "find_attach E raw ''1'' = Some (served_part E 1 p)"
    using assms(2,4,6) Atoi_1
    by (auto simp: find_attach_def assms(1) is_attachment_def Let_def served_part_def attach_loop_found)
  ultimately show ?thesis by fastforce
qed

text \<open>
  C21. Attachments of messages with an unknown charset are shown and not served. When the parser returns
  an entity together with an error, the page still lists the attachments, and every link to one of them
  ends in \<^verbatim>\<open>404 not found\<close>.
\<close>
theorem unknown_charset_not_served:
  assumes "message_Read E raw = ReadWithError w" and "fixed_walk quiet_part w vs"
  shows "(\<exists>t h as. walkMessage E raw = Some (t, h, as) \<and> length as = length (attached vs)) \<and> find_attach E raw n = None"
  using walkMessage_listing [of E raw w vs] assms by (fastforce simp: find_attach_def split: prod.splits)

section \<open>Samples\<close>

text \<open>
  A multipart message with a text and two attachments, the second of which only has a file name. The walk
  visits the multipart first; if its body is read, nothing is left to visit.
\<close>

definition sample_part :: entity where
  "sample_part = \<lparr>ContentType = (''application/pdf'', []), ContentDisposition = (''attachment'', [(''filename'', ''a.pdf'')]),
     Body = (''%PDF'', False)\<rparr>"

definition sample_image :: entity where
  "sample_image = \<lparr>ContentType = (''image/png'', [(''name'', ''b.png'')]), ContentDisposition = (''inline'', []), Body = (''PNG'', False)\<rparr>"

definition sample_text :: entity where
  "sample_text = \<lparr>ContentType = (''text/plain'', []), ContentDisposition = ([], []), Body = (''hi'', False)\<rparr>"

definition sample_multi :: entity where
  "sample_multi = \<lparr>ContentType = (''multipart/mixed'', [(''boundary'', ''b'')]), ContentDisposition = ([], []), Body = (''--b'', False)\<rparr>"

definition sample_bundle :: entity where
  "sample_bundle = \<lparr>ContentType = (''multipart/mixed'', [(''boundary'', ''c''), (''name'', ''all'')]), ContentDisposition = ([], []),
     Body = (''--c'', False)\<rparr>"

definition sample_walk :: mime_walk where
  "sample_walk = Visit (Some sample_multi) False (\<lambda>b. if b then Finished else
     Visit (Some sample_text) False (\<lambda>_. Visit (Some sample_part) False (\<lambda>_. Visit (Some sample_image) False (\<lambda>_. Finished))))"

definition sample_visits :: "(entity option \<times> bool) list" where
  "sample_visits = [(Some sample_multi, False), (Some sample_text, False), (Some sample_part, False), (Some sample_image, False)]"

text \<open>A multipart with a file name that holds the document; the image comes after it.\<close>

definition sample_nested :: mime_walk where
  "sample_nested = Visit (Some sample_multi) False (\<lambda>b. if b then Finished else
     Visit (Some sample_bundle) False (\<lambda>b. if b then Visit (Some sample_image) False (\<lambda>_. Finished)
       else Visit (Some sample_part) False (\<lambda>_. Visit (Some sample_image) False (\<lambda>_. Finished))))"

text \<open>Messages that begin with an exclamation mark are in an unknown charset, those with a plus sign are nested.\<close>

definition sample_mime :: mime_env where
  "sample_mime = \<lparr>message_Read = \<lambda>raw. if strings_HasPrefix raw ''!'' then ReadWithError sample_walk
       else if strings_HasPrefix raw ''+'' then ReadOK sample_nested else ReadOK sample_walk,
     FormatMediaType = \<lambda>t ps. t @ ''; filename='' @ param ps ''filename''\<rparr>"

lemma sample_kinds [simp]:
  "is_multipart sample_multi" "\<not> is_multipart sample_text" "\<not> is_multipart sample_part" "\<not> is_multipart sample_image"
  "is_multipart sample_bundle" "\<not> is_attachment sample_multi" "\<not> is_attachment sample_text" "is_attachment sample_part"
  "is_attachment sample_image" "is_attachment sample_bundle"
  by (simp_all add: is_multipart_def is_attachment_def part_filename_def param_def Let_def strings_HasPrefix_def
      sample_multi_def sample_text_def sample_part_def sample_image_def sample_bundle_def)

lemma sample_fixed: "fixed_walk (\<lambda>p. \<not> is_multipart p) sample_walk sample_visits"
  by (simp add: sample_walk_def sample_visits_def)

lemma sample_attached: "attached sample_visits = [sample_part, sample_image]"
  by (simp add: sample_visits_def)

theorem attachments_served_witness:
  "(\<exists>t h as mt disp. walkMessage sample_mime ''x'' = Some (t, h, as) \<and> length as = 2
      \<and> find_attach sample_mime ''x'' (strconv_FormatInt (att_N (as ! 1))) = Some (mt, disp, ''PNG''))
   \<and> find_attach sample_mime ''x'' (strconv_FormatInt (int 7)) = None"
proof -
  have r: "message_Read sample_mime ''x'' = ReadOK sample_walk" by (simp add: sample_mime_def strings_HasPrefix_def)
  have a: "\<forall>p \<in> set (attached sample_visits). \<not> is_multipart p" by (simp add: sample_attached)
  have i: "int64_ok (int 1)" "int64_ok (int 7)" by (simp_all add: int64_ok_def)
  obtain t h as where w: "walkMessage sample_mime ''x'' = Some (t, h, as)" "length as = length (attached sample_visits)"
    and s: "\<forall>i. int64_ok (int i) \<longrightarrow> (if i < length as
        then att_N (as ! i) = int i
          \<and> find_attach sample_mime ''x'' (strconv_FormatInt (att_N (as ! i))) =
              Some (att_Type (as ! i), FormatMediaType sample_mime ''attachment'' [(''filename'', att_Filename (as ! i))],
                    fst (Body (attached sample_visits ! i)))
          \<and> humanSize (wrap64 (int (length (fst (Body (attached sample_visits ! i)))))) = Some (att_Size (as ! i))
        else find_attach sample_mime ''x'' (strconv_FormatInt (int i)) = None)"
    using attachments_served [OF r sample_fixed a] by blast
  have l: "length as = 2" using w(2) by (simp add: sample_attached)
  from s i(1) l have "\<exists>mt disp. find_attach sample_mime ''x'' (strconv_FormatInt (att_N (as ! 1))) = Some (mt, disp, ''PNG'')"
    by (auto simp: sample_attached sample_image_def dest!: spec [of _ 1])
  moreover from s i(2) l have "find_attach sample_mime ''x'' (strconv_FormatInt (int 7)) = None" by (auto dest!: spec [of _ 7])
  ultimately show ?thesis using w(1) l by blast
qed

text \<open>The page shows the bundle and the image; the link of the image serves the document.\<close>

theorem named_multipart_misnumbered_witness:
  "\<exists>t h as mt disp. walkMessage sample_mime ''+'' = Some (t, h, as) \<and> length as = 2 \<and> att_Filename (as ! 1) = ''b.png''
     \<and> find_attach sample_mime ''+'' ''1'' = Some (mt, disp, ''%PDF'')"
proof -
  have r: "message_Read sample_mime ''+'' = ReadOK (Visit (Some sample_multi) False (\<lambda>b. if b then Finished else
      Visit (Some sample_bundle) False (\<lambda>b. if b then Visit (Some sample_image) False (\<lambda>_. Finished)
       else Visit (Some sample_part) False (\<lambda>_. Visit (Some sample_image) False (\<lambda>_. Finished)))))"
    by (simp add: sample_mime_def sample_nested_def strings_HasPrefix_def)
  have f: "fixed_walk quiet_part (Visit (Some sample_image) False (\<lambda>_. Finished)) [(Some sample_image, False)]" by simp
  have "att_Filename (listed 1 sample_image) = ''b.png''" "snd (snd (served_part sample_mime 1 sample_part)) = ''%PDF''"
    by (simp_all add: listed_def part_name_def part_filename_def param_def Let_def sample_image_def served_part_def sample_part_def)
  with named_multipart_misnumbered [OF r _ _ _ _ _ f] show ?thesis
    by (cases "served_part sample_mime 1 sample_part") fastforce
qed

theorem unknown_charset_not_served_witness:
  "(\<exists>t h as. walkMessage sample_mime ''!'' = Some (t, h, as) \<and> length as = 2) \<and> find_attach sample_mime ''!'' ''0'' = None"
proof -
  have "message_Read sample_mime ''!'' = ReadWithError sample_walk" by (simp add: sample_mime_def strings_HasPrefix_def)
  moreover have "fixed_walk quiet_part sample_walk sample_visits"
    by (rule leaf_walk_quiet [OF sample_fixed]) (simp add: sample_attached)
  ultimately show ?thesis using unknown_charset_not_served [of sample_mime "''!''" _ _ "''0''"] sample_attached by force
qed

end
