(* ===== verification/Base64.thy ===== *)
theory Base64
  imports Prelude
begin

text \<open>
  Go's \<^verbatim>\<open>base64.RawURLEncoding\<close>: the URL alphabet without padding. The decoder is the lenient one of
  the standard library: it skips CR and LF anywhere and ignores left-over bits.
\<close>

definition b64_char :: "nat \<Rightarrow> char" where
  "b64_char i =
     (if i < 26 then char_of (65 + i) else if i < 52 then char_of (71 + i)
      else if i < 62 then char_of (i - 4) else if i = 62 then CHR ''-'' else CHR ''_'')"

definition b64_val :: "char \<Rightarrow> nat option" where
  "b64_val c =
     (let b = byte c in
      if 65 \<le> b \<and> b \<le> 90 then Some (b - 65) else if 97 \<le> b \<and> b \<le> 122 then Some (b - 71)
      else if 48 \<le> b \<and> b \<le> 57 then Some (b + 4) else if c = CHR ''-'' then Some 62
      else if c = CHR ''_'' then Some 63 else None)"

text \<open>Three bytes as four numbers below 64, and what is left at the end.\<close>

fun sextets :: "nat list \<Rightarrow> nat list" where
  "sextets [] = []"
| "sextets [a] = [a div 4, (a mod 4) * 16]"
| "sextets [a, b] = [a div 4, (a mod 4) * 16 + b div 16, (b mod 16) * 4]"
| "sextets (a # b # c # bs) =
     [a div 4, (a mod 4) * 16 + b div 16, (b mod 16) * 4 + c div 64, c mod 64] @ sextets bs"

fun octets :: "nat list \<Rightarrow> nat list option" where
  "octets [] = Some []"
| "octets [_] = None"
| "octets [s, t] = Some [s * 4 + t div 16]"
| "octets [s, t, u] = Some [s * 4 + t div 16, (t mod 16) * 16 + u div 4]"
| "octets (s # t # u # v # ss) =
     map_option (\<lambda>bs. [s * 4 + t div 16, (t mod 16) * 16 + u div 4, (u mod 4) * 64 + v] @ bs) (octets ss)"

fun traverse :: "('a \<Rightarrow> 'b option) \<Rightarrow> 'a list \<Rightarrow> 'b list option" where
  "traverse f [] = Some []"
| "traverse f (x # xs) =
     (case f x of None \<Rightarrow> None | Some y \<Rightarrow> map_option (\<lambda>ys. y # ys) (traverse f xs))"

definition base64_EncodeToString :: "bytes \<Rightarrow> bytes" where
  "base64_EncodeToString bs = map b64_char (sextets (map byte bs))"

definition base64_DecodeString :: "bytes \<Rightarrow> bytes option" where
  "base64_DecodeString s =
     (case traverse b64_val (filter (\<lambda>c. c \<noteq> LF \<and> c \<noteq> CR) s) of
        None \<Rightarrow> None
      | Some ss \<Rightarrow> map_option (map char_of) (octets ss))"

section \<open>Round trip\<close>

lemma b64_val_break [simp]: "b64_val LF = None" "b64_val CR = None"
  by (simp_all add: b64_val_def Let_def)

lemma b64_val_b64_char: "i < 64 \<Longrightarrow> b64_val (b64_char i) = Some i"
proof -
  assume "i < 64"
  then consider "i < 26" | "26 \<le> i" "i < 52" | "52 \<le> i" "i < 62" | "i = 62" | "i = 63" by linarith
  then show ?thesis by cases (auto simp: b64_char_def b64_val_def Let_def)
qed

lemma b64_val_char: "i < 64 \<Longrightarrow> b64_val (b64_char i) = Some i \<and> b64_char i \<noteq> LF \<and> b64_char i \<noteq> CR"
  using b64_val_b64_char b64_val_break by (metis option.distinct(1))

lemma sextets_lt: "\<forall>b \<in> set bs. b < 256 \<Longrightarrow> \<forall>s \<in> set (sextets bs). s < 64"
  by (induction bs rule: sextets.induct) auto

lemma octets_sextets: "\<forall>b \<in> set bs. b < 256 \<Longrightarrow> octets (sextets bs) = Some bs"
proof (induction bs rule: sextets.induct)
  case (4 a b c bs)
  have "b div 16 < 16" "c div 64 < 4" using 4(2) by (simp_all add: less_mult_imp_div_less)
  then have "a div 4 * 4 + ((a mod 4) * 16 + b div 16) div 16 = a" by simp
  moreover have "((a mod 4) * 16 + b div 16) mod 16 * 16 + ((b mod 16) * 4 + c div 64) div 4 = b"
    using \<open>b div 16 < 16\<close> \<open>c div 64 < 4\<close> by simp
  moreover have "((b mod 16) * 4 + c div 64) mod 4 * 64 + c mod 64 = c" using \<open>c div 64 < 4\<close> by simp
  ultimately show ?case using 4 by simp
qed auto

lemma traverse_chars: "\<forall>s \<in> set ss. s < 64 \<Longrightarrow>
  traverse b64_val (filter (\<lambda>c. c \<noteq> LF \<and> c \<noteq> CR) (map b64_char ss)) = Some ss"
  by (induction ss) (use b64_val_char in auto)

lemma base64_roundtrip: "base64_DecodeString (base64_EncodeToString bs) = Some bs"
proof -
  have lt: "\<forall>b \<in> set (map byte bs). b < 256" by auto
  have "map char_of (map byte bs) = bs" by (simp add: map_idI)
  then show ?thesis
    using octets_sextets [OF lt] traverse_chars [OF sextets_lt [OF lt]]
    by (simp add: base64_EncodeToString_def base64_DecodeString_def)
qed

interpretation base64: codec base64_EncodeToString base64_DecodeString "\<lambda>_. True"
  by unfold_locales (rule base64_roundtrip)

end
