(* ===== verification/Http.thy ===== *)
theory Http
  imports NetMail
begin

text \<open>
  Requests and responses of package \<^verbatim>\<open>net/http\<close>, as far as the handlers of package \<^verbatim>\<open>internal/web\<close>
  look at them. A response records the status, the headers set, the cookies set and a body; a
  redirect records the target it was called with.
\<close>

text \<open>
  The path comes decoded (\<^verbatim>\<open>URL.Path\<close>) and escaped (\<^verbatim>\<open>URL.EscapedPath()\<close>).
  A form that fails to parse is \<open>None\<close>; the body of a request is what can be read of it, with the
  error the reader ends with, if any.
\<close>

record request =
  req_Method :: bytes
  req_Path :: bytes
  req_EscapedPath :: bytes
  req_Host :: bytes
  req_TLS :: bool
  req_Header :: header
  req_Cookies :: "(bytes \<times> bytes) list"
  req_Query :: "(bytes \<times> bytes) list"
  req_PostForm :: "(bytes \<times> bytes) list option"
  req_Body :: "bytes \<times> bytes option"

record cookie =
  c_Name :: bytes
  c_Value :: bytes
  c_Path :: bytes
  c_MaxAge :: int
  c_HttpOnly :: bool
  c_Secure :: bool
  c_SameSiteLax :: bool

record 'b response =
  resp_Code :: nat
  resp_Header :: "(bytes \<times> bytes) list"
  resp_Cookies :: "cookie list"
  resp_Body :: 'b

text \<open>\<^verbatim>\<open>Request.Cookie\<close>: the first cookie of a name; \<^verbatim>\<open>url.Values.Get\<close>: the first value, or nothing.\<close>

definition Request_Cookie :: "request \<Rightarrow> bytes \<Rightarrow> bytes option" where
  "Request_Cookie r name = map_of (req_Cookies r) name"

definition Values_Get :: "(bytes \<times> bytes) list \<Rightarrow> bytes \<Rightarrow> bytes" where
  "Values_Get vs k = (case map_of vs k of Some v \<Rightarrow> v | None \<Rightarrow> [])"

text \<open>
  \<^verbatim>\<open>strings.EqualFold\<close> against an ASCII string: rune by rune, up to the case of ASCII letters and the two
  other runes that fold to one, the long s and the Kelvin sign.
\<close>

definition fold_rune :: "rune \<Rightarrow> rune" where
  "fold_rune r = (if 65 \<le> r \<and> r \<le> 90 then r + 32 else if r = 0x17F then 115 else if r = 0x212A then 107 else r)"

definition strings_EqualFold :: "bytes \<Rightarrow> bytes \<Rightarrow> bool" where
  "strings_EqualFold s t \<longleftrightarrow> map (fold_rune \<circ> fst) (runes s) = map (fold_rune \<circ> fst) (runes t)"

definition isHTTPS :: "request \<Rightarrow> bool" where
  "isHTTPS r \<longleftrightarrow> req_TLS r \<or> strings_EqualFold (Header_Get (req_Header r) ''X-Forwarded-Proto'') ''https''"

text \<open>The responses of \<^verbatim>\<open>http.Error\<close>, \<^verbatim>\<open>http.NotFound\<close> and \<^verbatim>\<open>http.Redirect\<close>, with the body left to the caller.\<close>

definition respond :: "nat \<Rightarrow> (bytes \<times> bytes) list \<Rightarrow> 'b \<Rightarrow> 'b response" where
  "respond code hs body = \<lparr>resp_Code = code, resp_Header = hs, resp_Cookies = [], resp_Body = body\<rparr>"

definition redirect :: "bytes \<Rightarrow> 'b \<Rightarrow> 'b response" where
  "redirect target body = respond 303 [(''Location'', target)] body"

end
