(* ===== verification/WebAuth.thy ===== *)
theory WebAuth
  imports Base64 Http
begin

text \<open>
  Package \<^verbatim>\<open>internal/web\<close>, auth.go: the session cookie. SHA-256, AES-GCM and bcrypt are parameters
  (record \<open>crypto_env\<close>); the key has 32 bytes by its Go type, so \<^verbatim>\<open>aes.NewCipher\<close> and \<^verbatim>\<open>cipher.NewGCM\<close>
  do not fail. The clock and the random nonce are arguments. The login handlers are in \<open>Web\<close>.
\<close>

section \<open>Data\<close>

record crypto_env =
  sha256_Sum256 :: "bytes \<Rightarrow> bytes"
  gcm_Seal :: "bytes \<Rightarrow> bytes \<Rightarrow> bytes \<Rightarrow> bytes"
  gcm_Open :: "bytes \<Rightarrow> bytes \<Rightarrow> bytes \<Rightarrow> bytes option"
  bcrypt_Matches :: "bytes \<Rightarrow> bytes \<Rightarrow> bool"

record web_auth =
  username :: bytes
  passwordHash :: bytes

definition sessionCookieName :: bytes where
  "sessionCookieName = ''airmx_session''"

text \<open>Seven days, in seconds.\<close>

definition sessionMaxAge :: int where
  "sessionMaxAge = 7 * 24 * 3600"

definition NonceSize :: nat where
  "NonceSize = 12"

section \<open>Operations\<close>

definition sessionKey :: "crypto_env \<Rightarrow> ('a) web_auth_scheme \<Rightarrow> bytes" where
  "sessionKey C s = sha256_Sum256 C (''airmx-session:'' @ passwordHash s)"

text \<open>The nonce is \<open>None\<close> when the random source fails.\<close>

definition seal :: "crypto_env \<Rightarrow> ('a) web_auth_scheme \<Rightarrow> bytes option \<Rightarrow> bytes \<Rightarrow> bytes + bytes" where
  "seal C s nonce payload =
     (case nonce of
        None \<Rightarrow> Inl ''rand''
      | Some n \<Rightarrow> Inr (base64_EncodeToString (n @ gcm_Seal C (sessionKey C s) n payload)))"

definition open_value :: "crypto_env \<Rightarrow> ('a) web_auth_scheme \<Rightarrow> bytes \<Rightarrow> bytes + bytes" where
  "open_value C s value =
     (case base64_DecodeString value of
        None \<Rightarrow> Inl ''base64''
      | Some raw \<Rightarrow>
          if length raw < NonceSize then Inl ''cookie too short''
          else case gcm_Open C (sessionKey C s) (take NonceSize raw) (drop NonceSize raw) of
                 None \<Rightarrow> Inl ''authentication failed''
               | Some plain \<Rightarrow> Inr plain)"

definition validSession :: "crypto_env \<Rightarrow> ('a) web_auth_scheme \<Rightarrow> int \<Rightarrow> bytes \<Rightarrow> bool" where
  "validSession C s now value =
     (case open_value C s value of
        Inl _ \<Rightarrow> False
      | Inr payload \<Rightarrow>
          (case strings_Cut payload CHR ''|'' of
             None \<Rightarrow> False
           | Some (user, expiry) \<Rightarrow>
               (case strconv_ParseInt expiry of
                  (exp, err) \<Rightarrow> if err \<noteq> None \<or> now > exp then False else user = username s)))"

definition session_payload :: "('a) web_auth_scheme \<Rightarrow> int \<Rightarrow> bytes" where
  "session_payload s now = username s @ ''|'' @ strconv_FormatInt (now + sessionMaxAge)"

definition session_cookie :: "request \<Rightarrow> bytes \<Rightarrow> int \<Rightarrow> cookie" where
  "session_cookie r value age =
     \<lparr>c_Name = sessionCookieName, c_Value = value, c_Path = ''/'', c_MaxAge = age, c_HttpOnly = True,
      c_Secure = isHTTPS r, c_SameSiteLax = True\<rparr>"

definition setSessionCookie :: "crypto_env \<Rightarrow> ('a) web_auth_scheme \<Rightarrow> bytes option \<Rightarrow> int \<Rightarrow> request \<Rightarrow> bytes + cookie" where
  "setSessionCookie C s nonce now r =
     (case seal C s nonce (session_payload s now) of
        Inl e \<Rightarrow> Inl e
      | Inr value \<Rightarrow> Inr (session_cookie r value sessionMaxAge))"

definition clearSessionCookie :: "request \<Rightarrow> cookie" where
  "clearSessionCookie r = session_cookie r [] (-1)"

section \<open>Sealing\<close>

text \<open>
  What an authenticated cipher gives: under one key and nonce, opening succeeds exactly on the sealed
  form of a text and gives that text.
\<close>

definition crypto_ok :: "crypto_env \<Rightarrow> bool" where
  "crypto_ok C \<longleftrightarrow> (\<forall>k n c p. gcm_Open C k n c = Some p \<longleftrightarrow> c = gcm_Seal C k n p)"

lemma crypto_okD: "crypto_ok C \<Longrightarrow> gcm_Open C k n c = Some p \<longleftrightarrow> c = gcm_Seal C k n p"
  by (simp add: crypto_ok_def)

lemma open_seal:
  assumes "crypto_ok C" and "length n = NonceSize" and "seal C s (Some n) payload = Inr v"
  shows "open_value C s v = Inr payload"
proof -
  have v: "v = base64_EncodeToString (n @ gcm_Seal C (sessionKey C s) n payload)" using assms(3) by (simp add: seal_def)
  have "gcm_Open C (sessionKey C s) n (gcm_Seal C (sessionKey C s) n payload) = Some payload"
    using crypto_okD [OF assms(1)] by simp
  then show ?thesis using assms(2) base64.dec_enc by (simp add: open_value_def v)
qed

lemma open_value_sealed:
  assumes "crypto_ok C" and "open_value C s v = Inr payload"
  shows "\<exists>n. length n = NonceSize \<and> base64_DecodeString v = Some (n @ gcm_Seal C (sessionKey C s) n payload)"
proof -
  obtain raw where raw: "base64_DecodeString v = Some raw" "\<not> length raw < NonceSize"
    and g: "gcm_Open C (sessionKey C s) (take NonceSize raw) (drop NonceSize raw) = Some payload"
    using assms(2) by (auto simp: open_value_def split: option.splits if_splits)
  then have "drop NonceSize raw = gcm_Seal C (sessionKey C s) (take NonceSize raw) payload"
    using crypto_okD [OF assms(1)] by simp
  then have "raw = take NonceSize raw @ gcm_Seal C (sessionKey C s) (take NonceSize raw) payload"
    by (metis append_take_drop_id)
  with raw show ?thesis by (intro exI [of _ "take NonceSize raw"]) simp
qed

section \<open>Properties\<close>

text \<open>
  The cookie a login sets is accepted at a time \<open>t\<close> exactly when at most seven days have passed and the
  configured user name has no vertical bar.
\<close>

lemma session_valid_iff:
  assumes "crypto_ok C" and "length n = NonceSize" and "int64_ok (now + sessionMaxAge)"
    and "setSessionCookie C s (Some n) now r = Inr c"
  shows "validSession C s t (c_Value c) \<longleftrightarrow> t \<le> now + sessionMaxAge \<and> CHR ''|'' \<notin> set (username s)"
proof -
  obtain v where "seal C s (Some n) (session_payload s now) = Inr v" and c: "c_Value c = v"
    using assms(4) by (auto simp: setSessionCookie_def session_cookie_def split: sum.splits)
  then have o: "open_value C s (c_Value c) = Inr (session_payload s now)" using open_seal [OF assms(1,2)] by simp
  show ?thesis
  proof (cases "CHR ''|'' \<in> set (username s)")
    case False
    then have "strings_Cut (session_payload s now) CHR ''|'' = Some (username s, strconv_FormatInt (now + sessionMaxAge))"
      using strings_Cut_append [of "CHR ''|''" "username s"] by (simp add: session_payload_def)
    with o False ParseInt_FormatInt [OF assms(3)] show ?thesis by (auto simp: validSession_def)
  next
    case True
    then obtain u x where cut: "strings_Cut (session_payload s now) CHR ''|'' = Some (u, x)"
      by (auto simp: strings_Cut_def session_payload_def)
    from strings_Cut_SomeD [OF cut] have "u \<noteq> username s" using True by auto
    with o cut show ?thesis using True by (auto simp: validSession_def split: prod.splits)
  qed
qed

text \<open>
  Only sealed cookies open a session: a value that is accepted holds, behind its nonce, the text
  sealed under the key derived from the configured password hash, naming the configured user
  and a time that has not passed.
\<close>
lemma valid_session_sealed:
  assumes "crypto_ok C" and "validSession C s t v"
  shows "\<exists>n x e. length n = NonceSize \<and> base64_DecodeString v =
           Some (n @ gcm_Seal C (sha256_Sum256 C (''airmx-session:'' @ passwordHash s)) n (username s @ ''|'' @ x))
         \<and> strconv_ParseInt x = (e, None) \<and> t \<le> e \<and> CHR ''|'' \<notin> set (username s)"
proof -
  obtain p u x e where o: "open_value C s v = Inr p" and cut: "strings_Cut p CHR ''|'' = Some (u, x)"
    and e: "strconv_ParseInt x = (e, None)" "t \<le> e" "u = username s"
    using assms(2) by (auto simp: validSession_def split: sum.splits option.splits prod.splits if_splits)
  have "p = username s @ ''|'' @ x" "CHR ''|'' \<notin> set (username s)" using strings_Cut_SomeD [OF cut] e(3) by auto
  with open_value_sealed [OF assms(1) o] e show ?thesis by (auto simp: sessionKey_def)
qed

section \<open>Samples\<close>

text \<open>A cipher that keeps the law without hiding anything: key, nonce and text side by side.\<close>

definition sample_crypto :: crypto_env where
  "sample_crypto = \<lparr>sha256_Sum256 = \<lambda>_. ''K'', gcm_Seal = \<lambda>k n p. k @ n @ p,
     gcm_Open = \<lambda>k n c. if take (length (k @ n)) c = k @ n then Some (drop (length (k @ n)) c) else None,
     bcrypt_Matches = \<lambda>_ p. p = ''pw''\<rparr>"

lemma sample_crypto_ok: "crypto_ok sample_crypto"
proof -
  have "(if take (length (k @ n)) c = k @ n then Some (drop (length (k @ n)) c) else None) = Some p \<longleftrightarrow> c = k @ n @ p"
    for k n c p :: bytes
    by (auto simp: append_eq_conv_conj) (metis append.assoc append_take_drop_id length_append)
  then show ?thesis unfolding crypto_ok_def sample_crypto_def by simp
qed

definition sample_auth :: web_auth where
  "sample_auth = \<lparr>username = ''admin'', passwordHash = ''$2a$''\<rparr>"

definition sample_get :: request where
  "sample_get = \<lparr>req_Method = ''GET'', req_Path = ''/'', req_EscapedPath = ''/'', req_Host = ''h'', req_TLS = True, req_Header = [],
     req_Cookies = [], req_Query = [], req_PostForm = None, req_Body = ([], None)\<rparr>"

end
