(* ===== verification/I18n.thy ===== *)
theory I18n
  imports Http Complex_Main
begin

text \<open>
  Package \<^verbatim>\<open>internal/web\<close>, i18n.go: the two catalogues of strings, the choice of the language from
  the cookie and the Accept-Language header, and the handler that records a choice.
  \<^verbatim>\<open>strconv.ParseFloat\<close> and \<^verbatim>\<open>url.Parse\<close> are parameters.
\<close>

section \<open>The catalogues\<close>

record catalog =
  cat_Lang :: bytes
  cat_Logout :: bytes
  cat_LangSwitch :: bytes
  cat_Inbox :: bytes
  cat_ListCount :: bytes
  cat_ColSubject :: bytes
  cat_ColFrom :: bytes
  cat_ColDate :: bytes
  cat_SpamBadge :: bytes
  cat_NoSubject :: bytes
  cat_Empty :: bytes
  cat_PrevPage :: bytes
  cat_NextPage :: bytes
  cat_PageInfo :: bytes
  cat_PushToggle :: bytes
  cat_PushOn :: bytes
  cat_PushOff :: bytes
  cat_PushErrDenied :: bytes
  cat_PushErrDeniedHint :: bytes
  cat_PushErrFailed :: bytes
  cat_ModalOK :: bytes
  cat_ModalCancel :: bytes
  cat_LoginTitle :: bytes
  cat_LoginHeading :: bytes
  cat_LoginHint :: bytes
  cat_Username :: bytes
  cat_Password :: bytes
  cat_ShowPassword :: bytes
  cat_HidePassword :: bytes
  cat_SignIn :: bytes
  cat_ErrInvalidRequest :: bytes
  cat_ErrBadCredentials :: bytes
  cat_Back :: bytes
  cat_ToLabel :: bytes
  cat_TabText :: bytes
  cat_Delete :: bytes
  cat_ConfirmDeleteTitle :: bytes
  cat_ConfirmDelete :: bytes
  cat_NoTextContent :: bytes
  cat_Attachments :: bytes

definition catalog_zh :: catalog where
  "catalog_zh =
     \<lparr>cat_Lang = ''zh'',
      cat_Logout = [CHR 0xE9, CHR 0x80, CHR 0x80, CHR 0xE5, CHR 0x87, CHR 0xBA],
      cat_LangSwitch = ''EN'',
      cat_Inbox = [CHR 0xE6, CHR 0x94, CHR 0xB6, CHR 0xE4, CHR 0xBB, CHR 0xB6, CHR 0xE7, CHR 0xAE, CHR 0xB1],
      cat_ListCount = [CHR 0xE5, CHR 0x85, CHR 0xB1] @ '' %d '' @ [CHR 0xE5, CHR 0xB0, CHR 0x81],
      cat_ColSubject = [CHR 0xE4, CHR 0xB8, CHR 0xBB, CHR 0xE9, CHR 0xA2, CHR 0x98],
      cat_ColFrom = [CHR 0xE5, CHR 0x8F, CHR 0x91, CHR 0xE4, CHR 0xBB, CHR 0xB6, CHR 0xE4, CHR 0xBA, CHR 0xBA],
      cat_ColDate = [CHR 0xE6, CHR 0x97, CHR 0xA5, CHR 0xE6, CHR 0x9C, CHR 0x9F],
      cat_SpamBadge = [CHR 0xE5, CHR 0x9E, CHR 0x83, CHR 0xE5, CHR 0x9C, CHR 0xBE],
      cat_NoSubject = ''('' @ [CHR 0xE6, CHR 0x97, CHR 0xA0, CHR 0xE4, CHR 0xB8, CHR 0xBB, CHR 0xE9, CHR 0xA2, CHR 0x98] @ '')'',
      cat_Empty = [CHR 0xE6, CHR 0xB2, CHR 0xA1, CHR 0xE6, CHR 0x9C, CHR 0x89, CHR 0xE9, CHR 0x82, CHR 0xAE, CHR 0xE4, CHR 0xBB, CHR 0xB6],
      cat_PrevPage = [CHR 0xE4, CHR 0xB8, CHR 0x8A, CHR 0xE4, CHR 0xB8, CHR 0x80, CHR 0xE9, CHR 0xA1, CHR 0xB5],
      cat_NextPage = [CHR 0xE4, CHR 0xB8, CHR 0x8B, CHR 0xE4, CHR 0xB8, CHR 0x80, CHR 0xE9, CHR 0xA1, CHR 0xB5],
      cat_PageInfo = [CHR 0xE7, CHR 0xAC, CHR 0xAC] @ '' %d / %d '' @ [CHR 0xE9, CHR 0xA1, CHR 0xB5] @ '' '' @ [CHR 0xC2, CHR 0xB7] @ '' '' @ [CHR 0xE5, CHR 0x85, CHR 0xB1] @ '' %d '' @ [CHR 0xE5, CHR 0xB0, CHR 0x81],
      cat_PushToggle = ''Web '' @ [CHR 0xE9, CHR 0x80, CHR 0x9A, CHR 0xE7, CHR 0x9F, CHR 0xA5],
      cat_PushOn = [CHR 0xE6, CHR 0x89, CHR 0x93, CHR 0xE5, CHR 0xBC, CHR 0x80] @ '' Web '' @ [CHR 0xE9, CHR 0x80, CHR 0x9A, CHR 0xE7, CHR 0x9F, CHR 0xA5],
      cat_PushOff = [CHR 0xE5, CHR 0x85, CHR 0xB3, CHR 0xE9, CHR 0x97, CHR 0xAD] @ '' Web '' @ [CHR 0xE9, CHR 0x80, CHR 0x9A, CHR 0xE7, CHR 0x9F, CHR 0xA5],
      cat_PushErrDenied = [CHR 0xE9, CHR 0x80, CHR 0x9A, CHR 0xE7, CHR 0x9F, CHR 0xA5, CHR 0xE6, CHR 0x9D, CHR 0x83, CHR 0xE9, CHR 0x99, CHR 0x90, CHR 0xE8, CHR 0xA2, CHR 0xAB, CHR 0xE6, CHR 0x8B, CHR 0x92, CHR 0xE7, CHR 0xBB, CHR 0x9D],
      cat_PushErrDeniedHint = [CHR 0xE8, CHR 0xAF, CHR 0xB7, CHR 0xE5, CHR 0x9C, CHR 0xA8, CHR 0xE6, CHR 0xB5, CHR 0x8F, CHR 0xE8, CHR 0xA7, CHR 0x88, CHR 0xE5, CHR 0x99, CHR 0xA8, CHR 0xE8, CHR 0xAE, CHR 0xBE, CHR 0xE7, CHR 0xBD, CHR 0xAE, CHR 0xE9, CHR 0x87, CHR 0x8C, CHR 0xE5, CHR 0x85, CHR 0x81, CHR 0xE8, CHR 0xAE, CHR 0xB8, CHR 0xE6, CHR 0x9C, CHR 0xAC, CHR 0xE7, CHR 0xAB, CHR 0x99, CHR 0xE9, CHR 0x80, CHR 0x9A, CHR 0xE7, CHR 0x9F, CHR 0xA5, CHR 0xEF, CHR 0xBC, CHR 0x8C, CHR 0xE7, CHR 0x84, CHR 0xB6, CHR 0xE5, CHR 0x90, CHR 0x8E, CHR 0xE5, CHR 0x86, CHR 0x8D, CHR 0xE8, CHR 0xAF, CHR 0x95, CHR 0xE4, CHR 0xB8, CHR 0x80, CHR 0xE6, CHR 0xAC, CHR 0xA1, CHR 0xE3, CHR 0x80, CHR 0x82],
      cat_PushErrFailed = [CHR 0xE6, CHR 0x93, CHR 0x8D, CHR 0xE4, CHR 0xBD, CHR 0x9C, CHR 0xE5, CHR 0xA4, CHR 0xB1, CHR 0xE8, CHR 0xB4, CHR 0xA5],
      cat_ModalOK = [CHR 0xE7, CHR 0xA1, CHR 0xAE, CHR 0xE5, CHR 0xAE, CHR 0x9A],
      cat_ModalCancel = [CHR 0xE5, CHR 0x8F, CHR 0x96, CHR 0xE6, CHR 0xB6, CHR 0x88],
      cat_LoginTitle = [CHR 0xE7, CHR 0x99, CHR 0xBB, CHR 0xE5, CHR 0xBD, CHR 0x95] @ '' - AirMX'',
      cat_LoginHeading = ''AirMX '' @ [CHR 0xE9, CHR 0x82, CHR 0xAE, CHR 0xE7, CHR 0xAE, CHR 0xB1],
      cat_LoginHint = [CHR 0xE7, CHR 0x99, CHR 0xBB, CHR 0xE5, CHR 0xBD, CHR 0x95, CHR 0xE4, CHR 0xBB, CHR 0xA5, CHR 0xE6, CHR 0x9F, CHR 0xA5, CHR 0xE7, CHR 0x9C, CHR 0x8B, CHR 0xE4, CHR 0xBD, CHR 0xA0, CHR 0xE7, CHR 0x9A, CHR 0x84, CHR 0xE9, CHR 0x82, CHR 0xAE, CHR 0xE4, CHR 0xBB, CHR 0xB6],
      cat_Username = [CHR 0xE7, CHR 0x94, CHR 0xA8, CHR 0xE6, CHR 0x88, CHR 0xB7, CHR 0xE5, CHR 0x90, CHR 0x8D],
      cat_Password = [CHR 0xE5, CHR 0xAF, CHR 0x86, CHR 0xE7, CHR 0xA0, CHR 0x81],
      cat_ShowPassword = [CHR 0xE6, CHR 0x98, CHR 0xBE, CHR 0xE7, CHR 0xA4, CHR 0xBA, CHR 0xE5, CHR 0xAF, CHR 0x86, CHR 0xE7, CHR 0xA0, CHR 0x81],
      cat_HidePassword = [CHR 0xE9, CHR 0x9A, CHR 0x90, CHR 0xE8, CHR 0x97, CHR 0x8F, CHR 0xE5, CHR 0xAF, CHR 0x86, CHR 0xE7, CHR 0xA0, CHR 0x81],
      cat_SignIn = [CHR 0xE7, CHR 0x99, CHR 0xBB, CHR 0xE5, CHR 0xBD, CHR 0x95],
      cat_ErrInvalidRequest = [CHR 0xE8, CHR 0xAF, CHR 0xB7, CHR 0xE6, CHR 0xB1, CHR 0x82, CHR 0xE6, CHR 0x97, CHR 0xA0, CHR 0xE6, CHR 0x95, CHR 0x88],
      cat_ErrBadCredentials = [CHR 0xE7, CHR 0x94, CHR 0xA8, CHR 0xE6, CHR 0x88, CHR 0xB7, CHR 0xE5, CHR 0x90, CHR 0x8D, CHR 0xE6, CHR 0x88, CHR 0x96, CHR 0xE5, CHR 0xAF, CHR 0x86, CHR 0xE7, CHR 0xA0, CHR 0x81, CHR 0xE9, CHR 0x94, CHR 0x99, CHR 0xE8, CHR 0xAF, CHR 0xAF],
      cat_Back = [CHR 0xE8, CHR 0xBF, CHR 0x94, CHR 0xE5, CHR 0x9B, CHR 0x9E],
      cat_ToLabel = [CHR 0xE5, CHR 0x8F, CHR 0x91, CHR 0xE7, CHR 0xBB, CHR 0x99],
      cat_TabText = [CHR 0xE7, CHR 0xBA, CHR 0xAF, CHR 0xE6, CHR 0x96, CHR 0x87, CHR 0xE6, CHR 0x9C, CHR 0xAC],
      cat_Delete = [CHR 0xE5, CHR 0x88, CHR 0xA0, CHR 0xE9, CHR 0x99, CHR 0xA4],
      cat_ConfirmDeleteTitle = [CHR 0xE5, CHR 0x88, CHR 0xA0, CHR 0xE9, CHR 0x99, CHR 0xA4, CHR 0xE8, CHR 0xBF, CHR 0x99, CHR 0xE5, CHR 0xB0, CHR 0x81, CHR 0xE9, CHR 0x82, CHR 0xAE, CHR 0xE4, CHR 0xBB, CHR 0xB6],
      cat_ConfirmDelete = [CHR 0xE5, CHR 0x88, CHR 0xA0, CHR 0xE9, CHR 0x99, CHR 0xA4, CHR 0xE5, CHR 0x90, CHR 0x8E, CHR 0xE6, CHR 0x97, CHR 0xA0, CHR 0xE6, CHR 0xB3, CHR 0x95, CHR 0xE6, CHR 0x81, CHR 0xA2, CHR 0xE5, CHR 0xA4, CHR 0x8D, CHR 0xE3, CHR 0x80, CHR 0x82],
      cat_NoTextContent = ''('' @ [CHR 0xE6, CHR 0x97, CHR 0xA0, CHR 0xE6, CHR 0xB3, CHR 0x95, CHR 0xE6, CHR 0x8F, CHR 0x90, CHR 0xE5, CHR 0x8F, CHR 0x96, CHR 0xE7, CHR 0xBA, CHR 0xAF, CHR 0xE6, CHR 0x96, CHR 0x87, CHR 0xE6, CHR 0x9C, CHR 0xAC, CHR 0xE5, CHR 0x86, CHR 0x85, CHR 0xE5, CHR 0xAE, CHR 0xB9] @ '')'',
      cat_Attachments = [CHR 0xE9, CHR 0x99, CHR 0x84, CHR 0xE4, CHR 0xBB, CHR 0xB6]\<rparr>"

definition catalog_en :: catalog where
  "catalog_en =
     \<lparr>cat_Lang = ''en'',
      cat_Logout = ''Log out'',
      cat_LangSwitch = [CHR 0xE4, CHR 0xB8, CHR 0xAD, CHR 0xE6, CHR 0x96, CHR 0x87],
      cat_Inbox = ''Inbox'',
      cat_ListCount = ''%d messages'',
      cat_ColSubject = ''Subject'',
      cat_ColFrom = ''From'',
      cat_ColDate = ''Date'',
      cat_SpamBadge = ''Spam'',
      cat_NoSubject = ''(no subject)'',
      cat_Empty = ''No mail'',
      cat_PrevPage = ''Prev'',
      cat_NextPage = ''Next'',
      cat_PageInfo = ''Page %d of %d '' @ [CHR 0xC2, CHR 0xB7] @ '' %d messages'',
      cat_PushToggle = ''Notifications'',
      cat_PushOn = ''Enable notifications'',
      cat_PushOff = ''Disable notifications'',
      cat_PushErrDenied = ''Notification permission denied'',
      cat_PushErrDeniedHint = ''Allow notifications for this site in your browser settings, then try again.'',
      cat_PushErrFailed = ''Operation failed'',
      cat_ModalOK = ''OK'',
      cat_ModalCancel = ''Cancel'',
      cat_LoginTitle = ''Log in - AirMX'',
      cat_LoginHeading = ''AirMX Mail'',
      cat_LoginHint = ''Sign in to read your mail'',
      cat_Username = ''Username'',
      cat_Password = ''Password'',
      cat_ShowPassword = ''Show password'',
      cat_HidePassword = ''Hide password'',
      cat_SignIn = ''Log in'',
      cat_ErrInvalidRequest = ''Invalid request'',
      cat_ErrBadCredentials = ''Invalid username or password'',
      cat_Back = ''Back'',
      cat_ToLabel = ''To'',
      cat_TabText = ''Plain text'',
      cat_Delete = ''Delete'',
      cat_ConfirmDeleteTitle = ''Delete this message'',
      cat_ConfirmDelete = ''This cannot be undone.'',
      cat_NoTextContent = ''(could not extract plain text)'',
      cat_Attachments = ''Attachments''\<rparr>"

text \<open>The zero value, which a lookup of a missing key gives.\<close>

definition zero_catalog :: catalog where
  "zero_catalog =
     \<lparr>cat_Lang = [], cat_Logout = [], cat_LangSwitch = [], cat_Inbox = [], cat_ListCount = [],
      cat_ColSubject = [], cat_ColFrom = [], cat_ColDate = [], cat_SpamBadge = [], cat_NoSubject = [],
      cat_Empty = [], cat_PrevPage = [], cat_NextPage = [], cat_PageInfo = [], cat_PushToggle = [],
      cat_PushOn = [], cat_PushOff = [], cat_PushErrDenied = [], cat_PushErrDeniedHint = [],
      cat_PushErrFailed = [], cat_ModalOK = [], cat_ModalCancel = [], cat_LoginTitle = [],
      cat_LoginHeading = [], cat_LoginHint = [], cat_Username = [], cat_Password = [],
      cat_ShowPassword = [], cat_HidePassword = [], cat_SignIn = [], cat_ErrInvalidRequest = [],
      cat_ErrBadCredentials = [], cat_Back = [], cat_ToLabel = [], cat_TabText = [], cat_Delete = [],
      cat_ConfirmDeleteTitle = [], cat_ConfirmDelete = [], cat_NoTextContent = [], cat_Attachments = []\<rparr>"

definition defaultLang :: bytes where
  "defaultLang = ''zh''"

definition langCookieName :: bytes where
  "langCookieName = ''airmx_lang''"

definition catalogs :: "bytes \<Rightarrow> catalog option" where
  "catalogs = [''zh'' \<mapsto> catalog_zh, ''en'' \<mapsto> catalog_en]"

section \<open>Choosing a language\<close>

text \<open>The values of a \<^verbatim>\<open>float64\<close>, with their order; NaN compares with nothing.\<close>

datatype f64 = NaN | NegInf | Fin rat | PosInf

fun f64_gt :: "f64 \<Rightarrow> f64 \<Rightarrow> bool" where
  "f64_gt (Fin a) (Fin b) \<longleftrightarrow> a > b"
| "f64_gt PosInf (Fin _) \<longleftrightarrow> True"
| "f64_gt PosInf NegInf \<longleftrightarrow> True"
| "f64_gt (Fin _) NegInf \<longleftrightarrow> True"
| "f64_gt _ _ \<longleftrightarrow> False"

record i18n_env =
  i18n_utab :: utab
  strconv_ParseFloat :: "bytes \<Rightarrow> f64"
  url_HostURI :: "bytes \<Rightarrow> (bytes \<times> bytes) option"

text \<open>The parameters of one part: the last q counts; none is zero.\<close>

fun q_param :: "i18n_env \<Rightarrow> f64 \<Rightarrow> bytes list \<Rightarrow> f64" where
  "q_param E q [] = q"
| "q_param E q (p # ps) =
     (let p = strings_TrimSpace p
      in q_param E (if strings_HasPrefix p ''q='' then strconv_ParseFloat E (drop 2 p) else q) ps)"

text \<open>One part of the header: the language it asks for, if it is one of the two, and its weight.\<close>

definition lang_part :: "i18n_env \<Rightarrow> bytes \<Rightarrow> (bytes \<times> f64) option" where
  "lang_part E part0 =
     (let part = strings_TrimSpace part0
      in if part = [] then None
         else let (tag, q) =
                (case strings_Cut part CHR '';'' of
                   None \<Rightarrow> (part, Fin 1)
                 | Some (t, rest) \<Rightarrow> (strings_TrimSpace t, q_param E (Fin 0) (strings_Split rest CHR '';'')));
                tag = strings_ToLower (i18n_utab E) tag
              in if strings_HasPrefix tag ''zh'' then Some (''zh'', q)
                 else if strings_HasPrefix tag ''en'' then Some (''en'', q)
                 else None)"

fun negotiate_loop :: "i18n_env \<Rightarrow> bytes \<Rightarrow> f64 \<Rightarrow> bytes list \<Rightarrow> bytes" where
  "negotiate_loop E bestLang bestQ [] = bestLang"
| "negotiate_loop E bestLang bestQ (part # parts) =
     (case lang_part E part of
        None \<Rightarrow> negotiate_loop E bestLang bestQ parts
      | Some (lang, q) \<Rightarrow>
          if f64_gt q bestQ then negotiate_loop E lang q parts else negotiate_loop E bestLang bestQ parts)"

definition negotiateLang :: "i18n_env \<Rightarrow> bytes \<Rightarrow> bytes" where
  "negotiateLang E header = negotiate_loop E [] (Fin (-1)) (strings_Split header CHR '','')"

definition the_catalog :: "bytes \<Rightarrow> catalog" where
  "the_catalog l = (case catalogs l of Some c \<Rightarrow> c | None \<Rightarrow> zero_catalog)"

definition catalogFor :: "i18n_env \<Rightarrow> request \<Rightarrow> catalog" where
  "catalogFor E r =
     (let fallback =
        (let l = negotiateLang E (Header_Get (req_Header r) ''Accept-Language'')
         in if l \<noteq> [] then the_catalog l else the_catalog defaultLang)
      in case Request_Cookie r langCookieName of
           None \<Rightarrow> fallback
         | Some v \<Rightarrow> (case catalogs v of Some cat \<Rightarrow> cat | None \<Rightarrow> fallback))"

definition handleLang :: "i18n_env \<Rightarrow> request \<Rightarrow> 'b \<Rightarrow> 'b response" where
  "handleLang E r nobody =
     (let l = Values_Get (req_Query r) ''set'';
          l = (if catalogs l = None then defaultLang else l);
          ref = Header_Get (req_Header r) ''Referer'';
          back = (if ref \<noteq> [] then
                    (case url_HostURI E ref of
                       Some (host, uri) \<Rightarrow> if host = req_Host r then uri else ''/''
                     | None \<Rightarrow> ''/'')
                  else ''/'')
      in (redirect back nobody)\<lparr>resp_Cookies :=
           [\<lparr>c_Name = langCookieName, c_Value = l, c_Path = ''/'', c_MaxAge = 365 * 24 * 3600, c_HttpOnly = True,
             c_Secure = isHTTPS r, c_SameSiteLax = True\<rparr>]\<rparr>)"

section \<open>The catalogues are complete\<close>

text \<open>All texts of a catalogue, and the number of integer verbs of a format.\<close>

definition cat_texts :: "catalog \<Rightarrow> bytes list" where
  "cat_texts c =
     [cat_Lang c, cat_Logout c, cat_LangSwitch c, cat_Inbox c, cat_ListCount c, cat_ColSubject c,
      cat_ColFrom c, cat_ColDate c, cat_SpamBadge c, cat_NoSubject c, cat_Empty c, cat_PrevPage c,
      cat_NextPage c, cat_PageInfo c, cat_PushToggle c, cat_PushOn c, cat_PushOff c,
      cat_PushErrDenied c, cat_PushErrDeniedHint c, cat_PushErrFailed c, cat_ModalOK c,
      cat_ModalCancel c, cat_LoginTitle c, cat_LoginHeading c, cat_LoginHint c, cat_Username c,
      cat_Password c, cat_ShowPassword c, cat_HidePassword c, cat_SignIn c, cat_ErrInvalidRequest c,
      cat_ErrBadCredentials c, cat_Back c, cat_ToLabel c, cat_TabText c, cat_Delete c,
      cat_ConfirmDeleteTitle c, cat_ConfirmDelete c, cat_NoTextContent c, cat_Attachments c]"

definition verbs :: "bytes \<Rightarrow> nat" where
  "verbs s = length (filter (\<lambda>i. take 2 (drop i s) = ''%d'') [0..<length s])"

definition catalog_ok :: "catalog \<Rightarrow> bool" where
  "catalog_ok c \<longleftrightarrow> list_all (\<lambda>t. t \<noteq> []) (cat_texts c) \<and> verbs (cat_ListCount c) = 1 \<and> verbs (cat_PageInfo c) = 3"

lemma catalog_ok_zh: "catalog_ok catalog_zh"
  by (simp add: catalog_ok_def cat_texts_def catalog_zh_def verbs_def upt_rec)

lemma catalog_ok_en: "catalog_ok catalog_en"
  by (simp add: catalog_ok_def cat_texts_def catalog_en_def verbs_def upt_rec)

lemma catalogs_Some: "catalogs l = Some c \<longleftrightarrow> l = ''zh'' \<and> c = catalog_zh \<or> l = ''en'' \<and> c = catalog_en"
  by (auto simp: catalogs_def)

lemma catalogs_ok: "catalogs l = Some c \<Longrightarrow> catalog_ok c \<and> cat_Lang c = l"
  using catalog_ok_zh catalog_ok_en by (auto simp: catalogs_Some catalog_zh_def catalog_en_def)

section \<open>Negotiation\<close>

text \<open>What the header offers, in order, and the choice among the offers.\<close>

definition offers :: "i18n_env \<Rightarrow> bytes list \<Rightarrow> (bytes \<times> f64) list" where
  "offers E parts = List.map_filter (lang_part E) parts"

fun pick :: "bytes \<Rightarrow> f64 \<Rightarrow> (bytes \<times> f64) list \<Rightarrow> bytes" where
  "pick l b [] = l"
| "pick l b ((l', q) # qs) = (if f64_gt q b then pick l' q qs else pick l b qs)"

lemma negotiate_loop_pick: "negotiate_loop E l b parts = pick l b (offers E parts)"
  by (induction E l b parts rule: negotiate_loop.induct) (auto simp: offers_def List.map_filter_simps split: option.splits)

lemma f64_gt_trans: "f64_gt a b \<Longrightarrow> f64_gt b c \<Longrightarrow> f64_gt a c"
  by (cases a; cases b; cases c) auto

lemma f64_not_gt: "\<not> f64_gt q b \<Longrightarrow> f64_gt x b \<Longrightarrow> \<not> f64_gt q x"
  by (cases q; cases b; cases x) auto

lemma f64_gt_irrefl [simp]: "\<not> f64_gt a a"
  by (cases a) auto

text \<open>The offer at position \<open>i\<close> wins: none weighs more, and none before it as much.\<close>

definition wins :: "(bytes \<times> f64) list \<Rightarrow> nat \<Rightarrow> bool" where
  "wins qs i \<longleftrightarrow> i < length qs \<and> list_all (\<lambda>x. \<not> f64_gt (snd x) (snd (qs ! i))) qs
     \<and> list_all (\<lambda>x. snd x \<noteq> snd (qs ! i)) (take i qs)"

lemma pick_spec:
  "pick l b qs = l \<and> list_all (\<lambda>x. \<not> f64_gt (snd x) b) qs
   \<or> (\<exists>i. wins qs i \<and> f64_gt (snd (qs ! i)) b \<and> pick l b qs = fst (qs ! i))"
proof (induction l b qs rule: pick.induct)
  case (1 l b)
  then show ?case by simp
next
  case (2 l b l' q qs)
  show ?case
  proof (cases "f64_gt q b")
    case True
    then have "pick l' q qs = l' \<and> list_all (\<lambda>x. \<not> f64_gt (snd x) q) qs
        \<or> (\<exists>i. wins qs i \<and> f64_gt (snd (qs ! i)) q \<and> pick l' q qs = fst (qs ! i))"
      using 2 by simp
    then show ?thesis
    proof
      assume "pick l' q qs = l' \<and> list_all (\<lambda>x. \<not> f64_gt (snd x) q) qs"
      then have "wins ((l', q) # qs) 0 \<and> f64_gt (snd (((l', q) # qs) ! 0)) b \<and> pick l b ((l', q) # qs) = fst (((l', q) # qs) ! 0)"
        using True by (simp add: wins_def)
      then show ?thesis by blast
    next
      assume "\<exists>i. wins qs i \<and> f64_gt (snd (qs ! i)) q \<and> pick l' q qs = fst (qs ! i)"
      then obtain i where i: "wins qs i" "f64_gt (snd (qs ! i)) q" "pick l' q qs = fst (qs ! i)" by blast
      have "\<not> f64_gt q (snd (qs ! i))" using i(2) f64_gt_trans f64_gt_irrefl by blast
      then have "wins ((l', q) # qs) (Suc i) \<and> f64_gt (snd (((l', q) # qs) ! Suc i)) b
          \<and> pick l b ((l', q) # qs) = fst (((l', q) # qs) ! Suc i)"
        using i True f64_gt_trans by (auto simp: wins_def)
      then show ?thesis by blast
    qed
  next
    case False
    then have "pick l b qs = l \<and> list_all (\<lambda>x. \<not> f64_gt (snd x) b) qs
        \<or> (\<exists>i. wins qs i \<and> f64_gt (snd (qs ! i)) b \<and> pick l b qs = fst (qs ! i))"
      using 2 by simp
    then show ?thesis
    proof
      assume "pick l b qs = l \<and> list_all (\<lambda>x. \<not> f64_gt (snd x) b) qs"
      then show ?thesis using False by simp
    next
      assume "\<exists>i. wins qs i \<and> f64_gt (snd (qs ! i)) b \<and> pick l b qs = fst (qs ! i)"
      then obtain i where i: "wins qs i" "f64_gt (snd (qs ! i)) b" "pick l b qs = fst (qs ! i)" by blast
      have "\<not> f64_gt q (snd (qs ! i))" "q \<noteq> snd (qs ! i)" using i(2) False f64_not_gt by blast+
      then have "wins ((l', q) # qs) (Suc i) \<and> f64_gt (snd (((l', q) # qs) ! Suc i)) b
          \<and> pick l b ((l', q) # qs) = fst (((l', q) # qs) ! Suc i)"
        using i False by (auto simp: wins_def)
      then show ?thesis by blast
    qed
  qed
qed

lemma lang_part_langs: "lang_part E part = Some x \<Longrightarrow> fst x = ''zh'' \<or> fst x = ''en''"
  unfolding lang_part_def Let_def split_beta by (auto split: if_splits)

lemma offers_langs: "x \<in> set (offers E parts) \<Longrightarrow> fst x = ''zh'' \<or> fst x = ''en''"
  using lang_part_langs by (fastforce simp: offers_def List.map_filter_def)

lemma catalogs_known [simp]: "catalogs ''zh'' = Some catalog_zh" "catalogs ''en'' = Some catalog_en"
  by (simp_all add: catalogs_def)

lemma the_catalog_known: "catalogs l \<noteq> None \<Longrightarrow> catalogs l = Some (the_catalog l)"
  by (auto simp: the_catalog_def)

section \<open>Properties\<close>

text \<open>
  The language with the greatest weight wins, the first of several with that weight: either no
  part of the header that asks for Chinese or English weighs more than minus one and nothing
  is chosen, or the choice is the language of an offer that none outweighs and none before it
  equals.
\<close>
lemma negotiate_best:
  "negotiateLang E header = [] \<and> list_all (\<lambda>x. \<not> f64_gt (snd x) (Fin (-1))) (offers E (strings_Split header CHR '',''))
   \<or> (\<exists>i. wins (offers E (strings_Split header CHR '','')) i
        \<and> negotiateLang E header = fst (offers E (strings_Split header CHR '','') ! i)
        \<and> (negotiateLang E header = ''zh'' \<or> negotiateLang E header = ''en''))"
proof -
  let ?qs = "offers E (strings_Split header CHR '','')"
  have p: "negotiateLang E header = pick [] (Fin (-1)) ?qs" by (simp add: negotiateLang_def negotiate_loop_pick)
  have "fst (?qs ! i) = ''zh'' \<or> fst (?qs ! i) = ''en''" if "wins ?qs i" for i
    using that offers_langs [OF nth_mem, of i E] by (simp add: wins_def)
  with pick_spec [of "[]" "Fin (-1)" ?qs] show ?thesis unfolding p by metis
qed

lemma negotiateLang_known: "negotiateLang E h = [] \<or> catalogs (negotiateLang E h) \<noteq> None"
proof -
  let ?qs = "offers E (strings_Split h CHR '','')"
  have p: "negotiateLang E h = pick [] (Fin (-1)) ?qs" by (simp add: negotiateLang_def negotiate_loop_pick)
  from pick_spec [of "[]" "Fin (-1)" ?qs] show ?thesis
  proof
    assume "\<exists>i. wins ?qs i \<and> f64_gt (snd (?qs ! i)) (Fin (-1)) \<and> pick [] (Fin (-1)) ?qs = fst (?qs ! i)"
    then obtain i where "i < length ?qs" "negotiateLang E h = fst (?qs ! i)" by (auto simp: wins_def p)
    with offers_langs [OF nth_mem, of i E "strings_Split h CHR '',''"] show ?thesis by auto
  qed (simp add: p)
qed

text \<open>
  C39. Every request gets a complete catalogue: whatever its cookies and headers, the catalogue is the
  Chinese or the English one, no text in it is missing, and its formats take the numbers the
  pages give them.
\<close>
theorem catalogFor_complete:
  "catalog_ok (catalogFor E r) \<and> catalogs (cat_Lang (catalogFor E r)) = Some (catalogFor E r)"
proof -
  let ?l = "negotiateLang E (Header_Get (req_Header r) ''Accept-Language'')"
  have "\<exists>l. catalogs l = Some (if ?l \<noteq> [] then the_catalog ?l else the_catalog defaultLang)"
  proof (cases "?l = []")
    case True
    with the_catalog_known [of defaultLang] show ?thesis by (intro exI [of _ defaultLang]) (simp add: defaultLang_def)
  next
    case False
    with the_catalog_known [of ?l] negotiateLang_known [of E "Header_Get (req_Header r) ''Accept-Language''"]
    show ?thesis by (intro exI [of _ ?l]) simp
  qed
  then have "\<exists>l. catalogs l = Some (catalogFor E r)"
    unfolding catalogFor_def Let_def by (auto split: option.splits)
  then show ?thesis using catalogs_ok by metis
qed

text \<open>
  A language choice sticks: the cookie that \<^verbatim>\<open>handleLang\<close> sets holds a known language, a later request
  that sends it back gets that language's catalogue whatever its Accept-Language header says,
  and the redirect goes to the front page or to the path of a referring page on the same host.
\<close>
lemma lang_choice_sticks:
  assumes "Request_Cookie r2 langCookieName = Some (c_Value c)" and "c \<in> set (resp_Cookies (handleLang E r b))"
  shows "cat_Lang (catalogFor E r2) = c_Value c
    \<and> (catalogs (Values_Get (req_Query r) ''set'') \<noteq> None \<longrightarrow> c_Value c = Values_Get (req_Query r) ''set'')
    \<and> (\<exists>back. resp_Header (handleLang E r b) = [(''Location'', back)]
         \<and> (back = ''/'' \<or> url_HostURI E (Header_Get (req_Header r) ''Referer'') = Some (req_Host r, back)))"
proof -
  let ?set = "Values_Get (req_Query r) ''set''"
  have v: "c_Value c = (if catalogs ?set = None then defaultLang else ?set)"
    using assms(2) by (simp add: handleLang_def Let_def)
  then obtain cat where cat: "catalogs (c_Value c) = Some cat"
    by (cases "catalogs ?set") (auto simp: defaultLang_def)
  then have "catalogFor E r2 = cat" using assms(1) by (simp add: catalogFor_def)
  then have "cat_Lang (catalogFor E r2) = c_Value c" using catalogs_ok [OF cat] by simp
  moreover have "\<exists>back. resp_Header (handleLang E r b) = [(''Location'', back)]
         \<and> (back = ''/'' \<or> url_HostURI E (Header_Get (req_Header r) ''Referer'') = Some (req_Host r, back))"
    by (auto simp: handleLang_def Let_def redirect_def respond_def split: option.splits)
  ultimately show ?thesis using v by auto
qed

definition sample_i18n :: i18n_env where
  "sample_i18n = \<lparr>i18n_utab = ascii_utab, strconv_ParseFloat = \<lambda>s. if s = ''0.9'' then Fin (9/10) else Fin (6/10),
     url_HostURI = \<lambda>_. None\<rparr>"

end
