(* ===== verification/Textify.thy ===== *)
theory Textify
  imports GoStrings
begin

text \<open>
  Package \<^verbatim>\<open>internal/web\<close>, textify.go: the plain-text rendering of an HTML body. \<^verbatim>\<open>html.Parse\<close> is a
  parameter; the document it returns is a tree of nodes. \<^verbatim>\<open>strings.Fields\<close> of the standard library
  is modelled here.
\<close>

section \<open>strings.Fields\<close>

text \<open>The maximal runs of elements that are not separators.\<close>

function words :: "('a \<Rightarrow> bool) \<Rightarrow> 'a list \<Rightarrow> 'a list list" where
  "words p [] = []"
| "words p (x # xs) =
     (if p x then words p xs
      else (x # takeWhile (\<lambda>y. \<not> p y) xs) # words p (dropWhile (\<lambda>y. \<not> p y) xs))"
  by pat_completeness auto
termination
  by (relation "measure (\<lambda>(_, xs). length xs)") (auto simp: le_imp_less_Suc length_dropWhile_le)

definition strings_Fields :: "bytes \<Rightarrow> bytes list" where
  "strings_Fields s = map (\<lambda>w. concat (map snd w)) (words (\<lambda>x. unicode_IsSpace (fst x)) (runes s))"

section \<open>Operations\<close>

datatype node_type = ErrorNode | TextNode | DocumentNode | ElementNode | CommentNode | DoctypeNode | RawNode

datatype html_node = Node (Type: node_type) (NodeData: bytes) (Children: "html_node list")

definition textifyBlockTags :: "bytes list" where
  "textifyBlockTags =
     [''p'', ''div'', ''blockquote'', ''pre'', ''hr'', ''h1'', ''h2'', ''h3'', ''h4'', ''h5'', ''h6'', ''ul'', ''ol'', ''li'',
      ''table'', ''thead'', ''tbody'', ''tr'', ''section'', ''article'', ''header'', ''footer'']"

definition droppedTags :: "bytes list" where
  "droppedTags = [''script'', ''style'', ''head'', ''noscript'', ''template'', ''svg'']"

text \<open>The loop over the runes of a text node; \<open>space\<close> says that white space is pending.\<close>

fun collapse_loop :: "bool \<Rightarrow> rune list \<Rightarrow> bytes" where
  "collapse_loop space [] = (if space then '' '' else [])"
| "collapse_loop space (r # rs) =
     (if unicode_IsSpace r then collapse_loop True rs
      else (if space then '' '' else []) @ encode_rune r @ collapse_loop False rs)"

definition collapseSpace :: "bytes \<Rightarrow> bytes" where
  "collapseSpace s = collapse_loop False (map fst (runes s))"

definition normalizeText :: "bytes \<Rightarrow> bytes" where
  "normalizeText s =
     strings_Join (filter (\<lambda>ln. ln \<noteq> []) (map (\<lambda>ln. strings_Join (strings_Fields ln) '' '') (strings_Split s LF))) [LF]"

fun walk :: "html_node \<Rightarrow> bytes" where
  "walk (Node t d cs) =
     (if t = ElementNode \<and> d \<in> set droppedTags then []
      else if t = ElementNode \<and> d = ''br'' then [LF]
      else (if t = ElementNode \<and> (d = ''td'' \<or> d = ''th'') then ''  '' else [])
         @ (if t = ElementNode \<and> d \<in> set textifyBlockTags then [LF] else [])
         @ (if t = ElementNode \<and> d = ''li'' then ''- '' else [])
         @ (if t = TextNode then collapseSpace d else [])
         @ concat (map walk cs)
         @ (if t = ElementNode \<and> d \<in> set textifyBlockTags then [LF] else []))"

definition htmlToText :: "(bytes \<Rightarrow> html_node option) \<Rightarrow> bytes \<Rightarrow> bytes" where
  "htmlToText html_Parse s = (case html_Parse s of None \<Rightarrow> [] | Some doc \<Rightarrow> normalizeText (walk doc))"

section \<open>Words\<close>

lemma words_prefix: "w \<noteq> [] \<Longrightarrow> \<forall>x \<in> set w. \<not> p x \<Longrightarrow> p y \<Longrightarrow> words p (w @ y # xs) = w # words p xs"
  by (cases w) (auto simp: takeWhile_append dropWhile_append)

lemma words_single: "w \<noteq> [] \<Longrightarrow> \<forall>x \<in> set w. \<not> p x \<Longrightarrow> words p w = [w]"
  by (cases w) (auto simp: takeWhile_eq_all_conv [THEN iffD2] dropWhile_eq_Nil_conv [THEN iffD2])

lemma words_part:
  "w \<in> set (words p xs) \<Longrightarrow> w \<noteq> [] \<and> (\<forall>x \<in> set w. \<not> p x) \<and> (\<exists>a b. xs = a @ w @ b)"
proof (induction p xs rule: words.induct)
  case (1 p)
  then show ?case by simp
next
  case (2 p x xs)
  show ?case
  proof (cases "p x")
    case True
    with 2 have "w \<noteq> [] \<and> (\<forall>x \<in> set w. \<not> p x) \<and> (\<exists>a b. xs = a @ w @ b)" by simp
    then show ?thesis by (metis append_Cons)
  next
    case False
    let ?t = "takeWhile (\<lambda>y. \<not> p y) xs" and ?d = "dropWhile (\<lambda>y. \<not> p y) xs"
    have xs: "x # xs = (x # ?t) @ ?d" by simp
    have "w \<in> set ((x # ?t) # words p ?d)" using "2.prems" False by simp
    then consider "w = x # ?t" | "w \<in> set (words p ?d)" by (metis set_ConsD)
    then show ?thesis
    proof cases
      case 1
      have "\<forall>y \<in> set w. \<not> p y" using 1 False by (auto dest: set_takeWhileD)
      moreover have "x # xs = [] @ w @ ?d" using 1 by simp
      ultimately show ?thesis using 1 by blast
    next
      case 2
      note ih = "2.IH"(2) [OF False 2]
      then obtain a b where "?d = a @ w @ b" by blast
      then have "x # xs = ((x # ?t) @ a) @ w @ b" unfolding xs by simp
      then show ?thesis using ih by blast
    qed
  qed
qed

text \<open>A field: not empty and free of white space.\<close>

definition field :: "bytes \<Rightarrow> bool" where
  "field w \<longleftrightarrow> w \<noteq> [] \<and> (\<forall>x \<in> set (runes w). \<not> unicode_IsSpace (fst x))"

lemma Fields_field: "w \<in> set (strings_Fields s) \<Longrightarrow> field w"
proof -
  assume "w \<in> set (strings_Fields s)"
  then obtain ys where ys: "ys \<in> set (words (\<lambda>x. unicode_IsSpace (fst x)) (runes s))" and w: "w = concat (map snd ys)"
    by (auto simp: strings_Fields_def)
  obtain a b where ab: "runes s = a @ ys @ b" and n: "ys \<noteq> []" "\<forall>x \<in> set ys. \<not> unicode_IsSpace (fst x)"
    using words_part [OF ys] by auto
  have "runes (concat (map snd (ys @ b))) = ys @ b" by (rule runes_suffix [OF ab])
  then have "runes w = ys" unfolding w by (rule runes_prefix)
  with n show "field w" unfolding field_def by auto
qed

lemma space_ascii: "byte CHR '' '' < 0x80" "unicode_IsSpace (byte CHR '' '')" "unicode_IsSpace (byte LF)"
  by (simp_all add: unicode_IsSpace_def)

lemma Fields_Join: "\<forall>w \<in> set ws. field w \<Longrightarrow> strings_Fields (strings_Join ws '' '') = ws"
proof (induction ws rule: induct_list012)
  case 1
  then show ?case by (simp add: strings_Fields_def)
next
  case (2 w)
  then have "w \<noteq> []" "\<forall>x \<in> set (runes w). \<not> unicode_IsSpace (fst x)" by (simp_all add: field_def)
  then show ?case using words_single [of "runes w" "\<lambda>x. unicode_IsSpace (fst x)"] by (simp add: strings_Fields_def)
next
  case (3 w v ws)
  let ?rest = "strings_Join (v # ws) '' ''"
  have w: "runes w \<noteq> []" "\<forall>x \<in> set (runes w). \<not> unicode_IsSpace (fst x)" using 3 by (simp_all add: field_def)
  have "runes (strings_Join (w # v # ws) '' '') = runes w @ (byte CHR '' '', '' '') # runes ?rest"
    using runes_append_ascii [OF space_ascii(1), of w ?rest] runes_ascii_head [OF space_ascii(1), of ?rest] by simp
  then have "strings_Fields (strings_Join (w # v # ws) '' '') = concat (map snd (runes w)) # strings_Fields ?rest"
    using words_prefix [OF w, of "(byte CHR '' '', '' '')" "runes ?rest"] space_ascii(2) by (simp add: strings_Fields_def)
  then show ?case using 3 by simp
qed

lemma field_no_LF: "field w \<Longrightarrow> LF \<notin> set w"
  using ascii_byte_rune_iff [of LF w] space_ascii(3) by (auto simp: field_def)

section \<open>Lines\<close>

text \<open>A clean line: fields with single spaces between them.\<close>

definition clean_line :: "bytes \<Rightarrow> bool" where
  "clean_line l \<longleftrightarrow> l \<noteq> [] \<and> (\<exists>ws. l = strings_Join ws '' '' \<and> (\<forall>w \<in> set ws. field w))"

lemma clean_line_fix: "clean_line l \<Longrightarrow> strings_Join (strings_Fields l) '' '' = l"
  by (auto simp: clean_line_def Fields_Join)

lemma clean_line_no_LF: "clean_line l \<Longrightarrow> LF \<notin> set l"
proof -
  assume "clean_line l"
  then obtain ws where l: "l = strings_Join ws '' ''" and f: "\<forall>w \<in> set ws. field w" by (auto simp: clean_line_def)
  then show "LF \<notin> set l" using set_strings_Join [of ws "'' ''"] field_no_LF by fastforce
qed

definition text_lines :: "bytes \<Rightarrow> bytes list" where
  "text_lines s = filter (\<lambda>ln. ln \<noteq> []) (map (\<lambda>ln. strings_Join (strings_Fields ln) '' '') (strings_Split s LF))"

lemma normalizeText_lines: "normalizeText s = strings_Join (text_lines s) [LF]"
  by (simp add: normalizeText_def text_lines_def)

lemma text_lines_clean: "l \<in> set (text_lines s) \<Longrightarrow> clean_line l"
  using Fields_field by (fastforce simp: text_lines_def clean_line_def)

lemma text_lines_fix: "\<forall>l \<in> set ls. clean_line l \<Longrightarrow> text_lines (strings_Join ls [LF]) = ls"
proof (cases "ls = []")
  case False
  assume c: "\<forall>l \<in> set ls. clean_line l"
  then have "strings_Split (strings_Join ls [LF]) LF = ls"
    using False clean_line_no_LF by (intro strings_Split_Join) auto
  moreover have "map (\<lambda>ln. strings_Join (strings_Fields ln) '' '') ls = ls" using c clean_line_fix by (auto intro: map_idI)
  moreover have "filter (\<lambda>ln. ln \<noteq> []) ls = ls" using c by (auto simp: clean_line_def filter_id_conv)
  ultimately show ?thesis by (simp add: text_lines_def)
qed (simp add: text_lines_def strings_Fields_def)

lemma normalizeText_idem: "normalizeText (normalizeText s) = normalizeText s"
  using text_lines_fix text_lines_clean by (simp add: normalizeText_lines)

interpretation plain_text: normaliser normalizeText
  by unfold_locales (rule normalizeText_idem)

text \<open>Normalising loses no word: the fields of a text are those of its lines.\<close>

lemma words_append_sep: "p y \<Longrightarrow> words p (xs @ y # ys) = words p xs @ words p ys"
proof (induction p xs rule: words.induct)
  case (1 p)
  then show ?case by simp
next
  case (2 p x xs)
  show ?case
  proof (cases "p x")
    case True
    with 2 show ?thesis by simp
  next
    case False
    have t: "takeWhile (\<lambda>z. \<not> p z) (xs @ y # ys) = takeWhile (\<lambda>z. \<not> p z) xs"
      using "2.prems" by (induction xs) auto
    have d: "dropWhile (\<lambda>z. \<not> p z) (xs @ y # ys) = dropWhile (\<lambda>z. \<not> p z) xs @ y # ys"
      using "2.prems" by (induction xs) auto
    from 2 False show ?thesis by (simp add: t d)
  qed
qed

lemma Fields_append_space:
  "byte c < 0x80 \<Longrightarrow> unicode_IsSpace (byte c) \<Longrightarrow> strings_Fields (s @ c # t) = strings_Fields s @ strings_Fields t"
  using words_append_sep [of "\<lambda>x. unicode_IsSpace (fst x)" "(byte c, [c])" "runes s" "runes t"]
  by (simp add: strings_Fields_def runes_append_ascii runes_ascii_head)

lemma Fields_Join_lines: "strings_Fields (strings_Join ls [LF]) = concat (map strings_Fields ls)"
proof (induction ls rule: induct_list012)
  case (3 x y zs)
  then show ?case using Fields_append_space [of LF x "strings_Join (y # zs) [LF]"] space_ascii(3) by simp
qed (simp_all add: strings_Fields_def)

lemma Fields_text_lines: "concat (map strings_Fields (text_lines s)) = strings_Fields s"
proof -
  have "concat (map strings_Fields (filter (\<lambda>ln. ln \<noteq> []) (map (\<lambda>ln. strings_Join (strings_Fields ln) '' '') ls)))
      = concat (map strings_Fields ls)" for ls
  proof (induction ls)
    case (Cons l ls)
    have e: "strings_Fields (strings_Join (strings_Fields l) '' '') = strings_Fields l"
      using Fields_Join Fields_field by blast
    then have "strings_Join (strings_Fields l) '' '' = [] \<Longrightarrow> strings_Fields l = []" by (simp add: strings_Fields_def)
    with Cons e show ?case by auto
  qed simp
  then show ?thesis using Fields_Join_lines [of "strings_Split s LF"] by (simp add: text_lines_def)
qed

section \<open>Properties\<close>

text \<open>
  The text of a message is tidy and complete: every line of it is one or more words with single
  spaces between them (no line is empty, none starts or ends with white space), rendering the
  text again changes nothing, and the words are exactly the words the walk over the document
  produced, in their order.
\<close>
lemma html_text_tidy:
  assumes "html_Parse s = Some doc"
  shows "strings_Fields (htmlToText html_Parse s) = strings_Fields (walk doc)
    \<and> normalizeText (htmlToText html_Parse s) = htmlToText html_Parse s
    \<and> (\<exists>ls. htmlToText html_Parse s = strings_Join ls [LF] \<and> list_all clean_line ls)"
proof -
  have h: "htmlToText html_Parse s = normalizeText (walk doc)" using assms by (simp add: htmlToText_def)
  have "strings_Fields (normalizeText (walk doc)) = strings_Fields (walk doc)"
    by (simp add: normalizeText_lines Fields_Join_lines Fields_text_lines)
  moreover have "\<exists>ls. normalizeText (walk doc) = strings_Join ls [LF] \<and> list_all clean_line ls"
    using text_lines_clean by (intro exI [of _ "text_lines (walk doc)"]) (simp add: normalizeText_lines list_all_iff)
  ultimately show ?thesis unfolding h by (simp add: plain_text.nf_idem)
qed

text \<open>The document with everything inside dropped elements and line breaks cut away.\<close>

fun prune :: "html_node \<Rightarrow> html_node" where
  "prune (Node t d cs) =
     (if t = ElementNode \<and> (d \<in> set droppedTags \<or> d = ''br'') then Node t d [] else Node t d (map prune cs))"

lemma walk_prune: "walk (prune n) = walk n"
proof (induction n)
  case (Node t d cs)
  then have e: "map (walk \<circ> prune) cs = map walk cs" by simp
  consider "t = ElementNode" "d \<in> set droppedTags" | "t = ElementNode" "d \<notin> set droppedTags" "d = ''br''"
    | "\<not> (t = ElementNode \<and> (d \<in> set droppedTags \<or> d = ''br''))" by blast
  then show ?case
  proof cases
    case 3
    then have "prune (Node t d cs) = Node t d (map prune cs)" by (simp only: prune.simps if_False)
    then show ?thesis by (simp only: walk.simps map_map e)
  qed simp_all
qed

text \<open>
  Nothing inside scripts, styles, the head, templates, noscript and svg elements reaches the
  text: documents that agree outside those elements have the same text.
\<close>
lemma html_text_ignores_dropped:
  assumes "html_Parse s = Some doc" and "html_Parse s' = Some doc'" and "prune doc = prune doc'"
  shows "htmlToText html_Parse s = htmlToText html_Parse s'"
  using assms walk_prune [of doc] walk_prune [of doc'] by (simp add: htmlToText_def)

definition sample_doc :: "bytes \<Rightarrow> html_node" where
  "sample_doc script = Node DocumentNode [] [Node ElementNode ''html'' [
     Node ElementNode ''script'' [Node TextNode script []],
     Node ElementNode ''p'' [Node TextNode '' a  b '' []], Node ElementNode ''p'' [Node TextNode ''c'' []]]]"

lemma sample_doc_walk: "walk (sample_doc x) = [LF] @ '' a b '' @ [LF, LF] @ ''c'' @ [LF]"
  by (simp add: sample_doc_def droppedTags_def textifyBlockTags_def collapseSpace_def runes_ascii unicode_IsSpace_def
      encode_rune_def char_of_def bit_0)

end
