(* ===== verification/Push.thy ===== *)
theory Push
  imports FileSystem "HOL-Library.Multiset"
begin

text \<open>
  Package \<^verbatim>\<open>internal/push\<close> (push.go): the push subscriptions kept in memory and in a JSON file. The
  JSON codec, \<^verbatim>\<open>url.Parse\<close>, the order of Go's map iteration and the push service are parameters
  (record \<open>push_env\<close>). A save keeps the states it goes through, as a delivery does.
\<close>

section \<open>Data\<close>

record subscription =
  Endpoint :: bytes
  P256dh :: bytes
  Auth :: bytes

text \<open>The map from endpoints to subscriptions, as an association list.\<close>

record service =
  sub_file :: path
  vapidPublicKey :: bytes
  vapidPrivateKey :: bytes
  subscriber :: bytes
  subs :: "(bytes \<times> subscription) list"

datatype push_error =
    EmptyKeys | FileError io_error | JSONError bytes | BadSubscription bytes | BadEndpoint | BadKeys

text \<open>The response of the push service to one notification: an error or a status code.\<close>

record push_env =
  json_sub :: "bytes \<Rightarrow> bytes + subscription"
  json_subs :: "bytes \<Rightarrow> bytes + subscription option list"
  json_MarshalIndent :: "subscription list \<Rightarrow> bytes + bytes"
  url_Parse :: "bytes \<Rightarrow> bytes + bytes \<times> bytes"
  iter :: "subscription list \<Rightarrow> subscription list"
  json_payload :: "bytes \<Rightarrow> bytes \<Rightarrow> bytes \<Rightarrow> bytes + bytes"
  SendNotification :: "bytes \<Rightarrow> subscription \<Rightarrow> bytes + nat"

section \<open>Operations\<close>

text \<open>The loop that fills the map from the file.\<close>

fun load_subs :: "subscription option list \<Rightarrow> (bytes \<times> subscription) list \<Rightarrow> (bytes \<times> subscription) list" where
  "load_subs [] m = m"
| "load_subs (None # ss) m = load_subs ss m"
| "load_subs (Some s # ss) m = load_subs ss (if Endpoint s \<noteq> [] then AList.update (Endpoint s) s m else m)"

definition New :: "push_env \<Rightarrow> os_env \<Rightarrow> fs \<Rightarrow> path \<Rightarrow> bytes \<Rightarrow> bytes \<Rightarrow> bytes \<Rightarrow> (push_error + service) \<times> fs" where
  "New P W F file pub priv sbr =
     (if pub = [] \<or> priv = [] then (Inl EmptyKeys, F)
      else case os_MkdirAll W F (filepath_Dir file) of
        Inl e \<Rightarrow> (Inl (FileError e), F)
      | Inr F1 \<Rightarrow>
          let s = \<lparr>sub_file = file, vapidPublicKey = pub, vapidPrivateKey = priv, subscriber = sbr, subs = []\<rparr>
          in case os_ReadFile_at SysReadFile W F1 file of
               Inl ErrNotExist \<Rightarrow> (Inr s, F1)
             | Inl e \<Rightarrow> (Inl (FileError e), F1)
             | Inr data \<Rightarrow>
                 (case json_subs P data of
                    Inl e \<Rightarrow> (Inl (JSONError e), F1)
                  | Inr ss \<Rightarrow> (Inr (s\<lparr>subs := load_subs ss []\<rparr>), F1)))"

definition PublicKey :: "service \<Rightarrow> bytes" where
  "PublicKey s = vapidPublicKey s"

definition Count :: "service \<Rightarrow> nat" where
  "Count s = length (subs s)"

text \<open>
  \<^verbatim>\<open>os.WriteFile\<close>: create or truncate, write, close; the first error of writing or closing is
  returned. The states after the creation and after the write are kept.
\<close>

definition os_WriteFile_run :: "os_env \<Rightarrow> fs \<Rightarrow> path \<Rightarrow> bytes \<Rightarrow> io_error option \<times> fs list" where
  "os_WriteFile_run W F p data =
     (case guarded W SysCreate p
             (if is_dir F p then Inl (ErrOther ''is a directory'')
              else if \<not> is_dir F (filepath_Dir p) then Inl ErrNotExist
              else Inr (AList.update p (FileNode []) F)) of
        Inl e \<Rightarrow> (Some e, [])
      | Inr F1 \<Rightarrow>
          (case os_Write W F1 p data of
             (Some e, F2) \<Rightarrow> (Some e, [F1, F2])
           | (None, F2) \<Rightarrow> (sys_fail W SysClose p, [F1, F2])))"

definition tmp_path :: "path \<Rightarrow> path" where
  "tmp_path p = (fst p, butlast (snd p) @ [last (snd p) @ ''.tmp''])"

definition saveLocked_run :: "push_env \<Rightarrow> os_env \<Rightarrow> fs \<Rightarrow> service \<Rightarrow> push_error option \<times> fs list" where
  "saveLocked_run P W F s =
     (case json_MarshalIndent P (iter P (map snd (subs s))) of
        Inl e \<Rightarrow> (Some (JSONError e), [F])
      | Inr data \<Rightarrow>
          let tmp = tmp_path (sub_file s)
          in case os_WriteFile_run W F tmp data of
               (Some e, Fs) \<Rightarrow> (Some (FileError e), F # Fs)
             | (None, Fs) \<Rightarrow>
                 (case os_Rename W (last (F # Fs)) tmp (sub_file s) of
                    Inl e \<Rightarrow> (Some (FileError e), F # Fs)
                  | Inr F' \<Rightarrow> (None, F # Fs @ [F'])))"

definition saveLocked :: "push_env \<Rightarrow> os_env \<Rightarrow> fs \<Rightarrow> service \<Rightarrow> push_error option \<times> fs" where
  "saveLocked P W F s = (case saveLocked_run P W F s of (e, Fs) \<Rightarrow> (e, last Fs))"

definition Subscribe :: "push_env \<Rightarrow> os_env \<Rightarrow> fs \<Rightarrow> service \<Rightarrow> bytes \<Rightarrow> push_error option \<times> service \<times> fs" where
  "Subscribe P W F s raw =
     (case json_sub P raw of
        Inl e \<Rightarrow> (Some (BadSubscription e), s, F)
      | Inr sub \<Rightarrow>
          (case url_Parse P (Endpoint sub) of
             Inl _ \<Rightarrow> (Some BadEndpoint, s, F)
           | Inr (scheme, host) \<Rightarrow>
               if scheme \<noteq> ''https'' \<or> host = [] then (Some BadEndpoint, s, F)
               else if P256dh sub = [] \<or> Auth sub = [] then (Some BadKeys, s, F)
               else let s' = s\<lparr>subs := AList.update (Endpoint sub) sub (subs s)\<rparr>
                    in case saveLocked P W F s' of (e, F') \<Rightarrow> (e, s', F')))"

definition Unsubscribe :: "push_env \<Rightarrow> os_env \<Rightarrow> fs \<Rightarrow> service \<Rightarrow> bytes \<Rightarrow> push_error option \<times> service \<times> fs" where
  "Unsubscribe P W F s endpoint =
     (let s' = s\<lparr>subs := AList.delete endpoint (subs s)\<rparr>
      in case saveLocked P W F s' of (e, F') \<Rightarrow> (e, s', F'))"

text \<open>
  One goroutine of \<^verbatim>\<open>Notify\<close>; the mutex makes the calls of \<^verbatim>\<open>Unsubscribe\<close> follow one another, in the
  order in which the responses come in, which is the order of the list \<open>ss\<close>.
\<close>

definition gone :: "nat \<Rightarrow> bool" where
  "gone status \<longleftrightarrow> status = 404 \<or> status = 410"

fun notify_each :: "push_env \<Rightarrow> (nat \<Rightarrow> os_env) \<Rightarrow> bytes \<Rightarrow> subscription list \<Rightarrow> service \<times> fs \<Rightarrow> service \<times> fs" where
  "notify_each P Ws payload [] st = st"
| "notify_each P Ws payload (sub # ss) st =
     notify_each P (\<lambda>n. Ws (Suc n)) payload ss
       (case SendNotification P payload sub of
          Inl _ \<Rightarrow> st
        | Inr status \<Rightarrow>
            if gone status then snd (Unsubscribe P (Ws 0) (snd st) (fst st) (Endpoint sub)) else st)"

definition Notify ::
  "push_env \<Rightarrow> (nat \<Rightarrow> os_env) \<Rightarrow> (subscription list \<Rightarrow> subscription list) \<Rightarrow> bytes \<Rightarrow> bytes \<Rightarrow> bytes \<Rightarrow>
   service \<times> fs \<Rightarrow> service \<times> fs" where
  "Notify P Ws arrival titleZH titleEN body st =
     (let ss = iter P (map snd (subs (fst st)))
      in if ss = [] then st
         else case json_payload P titleZH titleEN body of
                Inl _ \<Rightarrow> st
              | Inr payload \<Rightarrow> notify_each P Ws payload (arrival ss) st)"

section \<open>The invariant of a service\<close>

text \<open>What JSON decoding yields: strings of valid UTF-8.\<close>

definition utf8_ValidString :: "bytes \<Rightarrow> bool" where
  "utf8_ValidString s \<longleftrightarrow> concat (map (\<lambda>(r, _). encode_rune r) (runes s)) = s"

definition sub_valid :: "subscription \<Rightarrow> bool" where
  "sub_valid s \<longleftrightarrow> utf8_ValidString (Endpoint s) \<and> utf8_ValidString (P256dh s) \<and> utf8_ValidString (Auth s)"

definition service_ok :: "service \<Rightarrow> bool" where
  "service_ok s \<longleftrightarrow> distinct (map fst (subs s))
     \<and> (\<forall>(k, v) \<in> set (subs s). k = Endpoint v \<and> k \<noteq> [] \<and> sub_valid v) \<and> snd (sub_file s) \<noteq> []"

text \<open>
  What the program relies on: encoding/json decodes what it encoded (for valid UTF-8), decodes to
  valid UTF-8 only; map iteration visits every entry once; an empty URL has no scheme.
\<close>

definition push_env_ok :: "push_env \<Rightarrow> bool" where
  "push_env_ok P \<longleftrightarrow>
     (\<forall>ss d. list_all sub_valid ss \<longrightarrow> json_MarshalIndent P ss = Inr d \<longrightarrow> json_subs P d = Inr (map Some ss))
     \<and> (\<forall>raw s. json_sub P raw = Inr s \<longrightarrow> sub_valid s)
     \<and> (\<forall>d ss s. json_subs P d = Inr ss \<longrightarrow> Some s \<in> set ss \<longrightarrow> sub_valid s)
     \<and> (\<forall>ss. mset (iter P ss) = mset ss)
     \<and> (\<forall>h. url_Parse P [] \<noteq> Inr (''https'', h))"

lemma push_env_okD:
  assumes "push_env_ok P"
  shows "list_all sub_valid ss \<Longrightarrow> json_MarshalIndent P ss = Inr d \<Longrightarrow> json_subs P d = Inr (map Some ss)"
    and "json_sub P raw = Inr s \<Longrightarrow> sub_valid s"
    and "json_subs P d = Inr os \<Longrightarrow> Some s \<in> set os \<Longrightarrow> sub_valid s"
    and "mset (iter P ss) = mset ss"
    and "url_Parse P [] \<noteq> Inr (''https'', h)"
  using assms unfolding push_env_ok_def by blast+

lemma service_okI:
  "distinct (map fst (subs s)) \<Longrightarrow> (\<And>k v. (k, v) \<in> set (subs s) \<Longrightarrow> k = Endpoint v \<and> k \<noteq> [] \<and> sub_valid v) \<Longrightarrow>
   snd (sub_file s) \<noteq> [] \<Longrightarrow> service_ok s"
  by (auto simp: service_ok_def)

lemma service_okD:
  assumes "service_ok s"
  shows "distinct (map fst (subs s))" and "(k, v) \<in> set (subs s) \<Longrightarrow> k = Endpoint v \<and> k \<noteq> [] \<and> sub_valid v"
    and "snd (sub_file s) \<noteq> []"
  using assms by (auto simp: service_ok_def)

lemma service_ok_update:
  assumes "service_ok s" and "Endpoint v \<noteq> []" and "sub_valid v"
  shows "service_ok (s\<lparr>subs := AList.update (Endpoint v) v (subs s)\<rparr>)"
proof (rule service_okI)
  show "distinct (map fst (subs (s\<lparr>subs := AList.update (Endpoint v) v (subs s)\<rparr>)))"
    using service_okD(1) [OF assms(1)] by (simp add: distinct_update)
next
  fix k u
  assume "(k, u) \<in> set (subs (s\<lparr>subs := AList.update (Endpoint v) v (subs s)\<rparr>))"
  then have "map_of (AList.update (Endpoint v) v (subs s)) k = Some u"
    using service_okD(1) [OF assms(1)] by (simp add: distinct_update)
  then show "k = Endpoint u \<and> k \<noteq> [] \<and> sub_valid u"
    using assms service_okD(2) [OF assms(1)] by (auto simp: update_conv' split: if_splits dest: map_of_SomeD)
qed (use service_okD(3) [OF assms(1)] in simp)

lemma service_ok_delete: "service_ok s \<Longrightarrow> service_ok (s\<lparr>subs := AList.delete k (subs s)\<rparr>)"
  by (auto simp: service_ok_def AList.delete_eq distinct_map_filter)

section \<open>Saving\<close>

lemma tmp_path_neq: "snd p \<noteq> [] \<Longrightarrow> tmp_path p \<noteq> p"
proof
  assume "snd p \<noteq> []" and "tmp_path p = p"
  then have "last (snd p) @ ''.tmp'' = last (snd p)" by (metis last_snoc snd_conv tmp_path_def)
  then show False by simp
qed

lemma Dir_tmp_path: "filepath_Dir (tmp_path p) = filepath_Dir p"
  by (simp add: tmp_path_def filepath_Dir_def)

lemma WriteFile_states:
  assumes "os_WriteFile_run W F p data = (e, Fs)"
  shows "\<forall>G \<in> set Fs. \<forall>q. q \<noteq> p \<longrightarrow> fs_at G q = fs_at F q"
    and "e = None \<Longrightarrow> Fs \<noteq> [] \<and> fs_at (last Fs) p = Some (FileNode data) \<and> is_dir F (filepath_Dir p)"
proof -
  show "\<forall>G \<in> set Fs. \<forall>q. q \<noteq> p \<longrightarrow> fs_at G q = fs_at F q"
    using assms by (auto simp: os_WriteFile_run_def os_Write_def dest!: guarded_Inr
        split: sum.splits option.splits if_splits)
  show "Fs \<noteq> [] \<and> fs_at (last Fs) p = Some (FileNode data) \<and> is_dir F (filepath_Dir p)" if "e = None"
    using assms that by (auto simp: os_WriteFile_run_def os_Write_def dest!: guarded_Inr
        split: sum.splits option.splits if_splits)
qed

lemma saveLocked_run_states:
  assumes "snd (sub_file s) \<noteq> []" and "saveLocked_run P W F s = (e, Fs)"
  obtains (failed) err where "e = Some err" and "Fs \<noteq> []" and "\<forall>G \<in> set Fs. fs_at G (sub_file s) = fs_at F (sub_file s)"
  | (saved) data where "e = None" and "Fs \<noteq> []" and "json_MarshalIndent P (iter P (map snd (subs s))) = Inr data"
      and "\<forall>G \<in> set (butlast Fs). fs_at G (sub_file s) = fs_at F (sub_file s)"
      and "fs_at (last Fs) (sub_file s) = Some (FileNode data)"
      and "\<forall>q. q \<noteq> sub_file s \<longrightarrow> q \<noteq> tmp_path (sub_file s) \<longrightarrow> fs_at (last Fs) q = fs_at F q"
proof (cases "json_MarshalIndent P (iter P (map snd (subs s)))")
  case (Inl err)
  with assms(2) show ?thesis by (intro failed [of "JSONError err"]) (auto simp: saveLocked_run_def)
next
  case (Inr data)
  let ?f = "sub_file s"
  let ?t = "tmp_path ?f"
  obtain we Gs where w: "os_WriteFile_run W F ?t data = (we, Gs)" by fastforce
  have same: "\<forall>G \<in> set (F # Gs). fs_at G ?f = fs_at F ?f"
    using WriteFile_states(1) [OF w] tmp_path_neq [OF assms(1)] by (metis set_ConsD)
  show ?thesis
  proof (cases we)
    case (Some err)
    with assms(2) Inr w same show ?thesis
      by (intro failed [of "FileError err"]) (auto simp: saveLocked_run_def Let_def)
  next
    case None
    note ok = WriteFile_states(2) [OF w None]
    show ?thesis
    proof (cases "os_Rename W (last (F # Gs)) ?t ?f")
      case (Inl err)
      with assms(2) Inr w None same show ?thesis
        by (intro failed [of "FileError err"]) (auto simp: saveLocked_run_def Let_def)
    next
      case r: (Inr F')
      have F': "F' = AList.update ?f (FileNode data) (AList.delete ?t (last Gs))"
        using r ok by (auto simp: os_Rename_def dest!: guarded_Inr split: if_splits)
      have Fs: "e = None" "Fs = F # Gs @ [F']" using assms(2) Inr w None r by (auto simp: saveLocked_run_def Let_def)
      show ?thesis
      proof (rule saved [OF Fs(1) _ Inr])
        show "\<forall>G \<in> set (butlast Fs). fs_at G ?f = fs_at F ?f" using same Fs(2) by (simp add: butlast_append)
        show "\<forall>q. q \<noteq> ?f \<longrightarrow> q \<noteq> ?t \<longrightarrow> fs_at (last Fs) q = fs_at F q"
          using WriteFile_states(1) [OF w] ok Fs(2) F' last_in_set [of Gs] by simp
      qed (use Fs F' in simp_all)
    qed
  qed
qed

text \<open>
  C28. Saving is atomic. In every state a save goes through, and so wherever the process stops, the
  subscription file holds its old contents, and only after a save that reports success it holds
  the complete encoding of the subscriptions in memory.
\<close>
theorem push_save_atomic:
  assumes "snd (sub_file s) \<noteq> []"
  shows "case saveLocked_run P W F s of
      (Some err, Fs) \<Rightarrow> \<forall>G \<in> set Fs. fs_at G (sub_file s) = fs_at F (sub_file s)
    | (None, Fs) \<Rightarrow> \<exists>data. json_MarshalIndent P (iter P (map snd (subs s))) = Inr data
        \<and> (\<forall>G \<in> set (butlast Fs). fs_at G (sub_file s) = fs_at F (sub_file s))
        \<and> fs_at (last Fs) (sub_file s) = Some (FileNode data)"
proof (cases "saveLocked_run P W F s")
  case (Pair e Fs)
  show ?thesis by (cases rule: saveLocked_run_states [OF assms Pair]) (auto simp: Pair)
qed

lemma saveLocked_ok:
  assumes "snd (sub_file s) \<noteq> []" and "saveLocked P W F s = (None, F')"
  shows "\<exists>data. json_MarshalIndent P (iter P (map snd (subs s))) = Inr data
    \<and> fs_at F' (sub_file s) = Some (FileNode data)
    \<and> (\<forall>q. q \<noteq> sub_file s \<longrightarrow> q \<noteq> tmp_path (sub_file s) \<longrightarrow> fs_at F' q = fs_at F q)"
proof -
  obtain Fs where run: "saveLocked_run P W F s = (None, Fs)" and F': "F' = last Fs"
    using assms(2) by (auto simp: saveLocked_def split: prod.splits)
  show ?thesis
    using assms(1) run by (cases rule: saveLocked_run_states) (auto simp: F')
qed

section \<open>Loading what was saved\<close>

lemma load_subs_map_of:
  "distinct (map Endpoint ss) \<Longrightarrow> \<forall>s \<in> set ss. Endpoint s \<noteq> [] \<Longrightarrow>
   map_of (load_subs (map Some ss) m) = map_of m ++ map_of (map (\<lambda>s. (Endpoint s, s)) ss)"
proof (induction ss arbitrary: m)
  case (Cons s ss)
  have "Endpoint s \<notin> set (map Endpoint ss)" using Cons.prems(1) by simp
  then have "map_of (map (\<lambda>s. (Endpoint s, s)) ss) (Endpoint s) = None"
    by (auto simp: map_of_eq_None_iff)
  then show ?case using Cons by (auto simp: update_conv' map_add_def fun_eq_iff split: option.splits)
qed simp

lemma service_values:
  assumes "service_ok s" and "mset ss = mset (map snd (subs s))"
  shows "distinct (map Endpoint ss)" and "\<forall>v \<in> set ss. Endpoint v \<noteq> [] \<and> sub_valid v"
    and "map_of (map (\<lambda>v. (Endpoint v, v)) ss) = map_of (subs s)"
proof -
  have e: "map (\<lambda>v. (Endpoint v, v)) (map snd (subs s)) = subs s"
    using service_okD(2) [OF assms(1)] by (auto intro!: map_idI simp: o_def)
  have k: "map Endpoint (map snd (subs s)) = map fst (subs s)"
    using arg_cong [OF e, of "map fst"] by (simp add: o_def)
  have "mset (map Endpoint ss) = mset (map fst (subs s))"
    using assms(2) k by (metis mset_map)
  then show d: "distinct (map Endpoint ss)"
    using service_okD(1) [OF assms(1)] mset_eq_imp_distinct_iff by blast
  show "\<forall>v \<in> set ss. Endpoint v \<noteq> [] \<and> sub_valid v"
    using service_okD(2) [OF assms(1)] mset_eq_setD [OF assms(2)] by fastforce
  have "set (map (\<lambda>v. (Endpoint v, v)) ss) = set (subs s)"
    using mset_eq_setD [OF assms(2)] e by (metis set_map)
  then show "map_of (map (\<lambda>v. (Endpoint v, v)) ss) = map_of (subs s)"
    using d service_okD(1) [OF assms(1)] by (intro map_of_inject_set [THEN iffD2]) (simp_all add: o_def)
qed

text \<open>The file in the way of the directory a service needs.\<close>

definition dirs_clear :: "fs \<Rightarrow> path \<Rightarrow> bool" where
  "dirs_clear F p \<longleftrightarrow> (\<forall>xs m. xs \<noteq> [] \<longrightarrow> prefix xs (snd p) \<longrightarrow> fs_at F (fst p, xs) \<noteq> Some (FileNode m))"

lemma New_loads:
  assumes "no_faults W" and "pub \<noteq> []" and "priv \<noteq> []" and "dirs_clear F (filepath_Dir file)"
    and "fs_at F file = Some (FileNode data)" and "json_subs P data = Inr os"
  shows "\<exists>G. New P W F file pub priv sbr =
    (Inr \<lparr>sub_file = file, vapidPublicKey = pub, vapidPrivateKey = priv, subscriber = sbr, subs = load_subs os []\<rparr>, G)"
proof -
  obtain G where G: "mkdir_all F (fst (filepath_Dir file)) [] (snd (filepath_Dir file)) = Inr G"
    using mkdir_all_succeeds [of "snd (filepath_Dir file)" F "fst (filepath_Dir file)" "[]"] assms(4)
    by (auto simp: dirs_clear_def)
  then have "os_MkdirAll W F (filepath_Dir file) = Inr G" using assms(1) by (simp add: os_MkdirAll_def)
  moreover have "fs_at G file = Some (FileNode data)" using mkdir_all_keeps [OF G assms(5)] .
  ultimately show ?thesis using assms by (simp add: New_def os_ReadFile_at_def Let_def)
qed

lemma saved_loads:
  assumes "push_env_ok P" and "service_ok s" and "saveLocked P W F s = (None, F')"
    and "no_faults W'" and "pub \<noteq> []" and "priv \<noteq> []" and "dirs_clear F' (filepath_Dir (sub_file s))"
  shows "\<exists>s2 G. New P W' F' (sub_file s) pub priv sbr = (Inr s2, G) \<and> map_of (subs s2) = map_of (subs s)"
proof -
  let ?ss = "iter P (map snd (subs s))"
  obtain data where d: "json_MarshalIndent P ?ss = Inr data" and f: "fs_at F' (sub_file s) = Some (FileNode data)"
    using saveLocked_ok [OF service_okD(3) [OF assms(2)] assms(3)] by blast
  note v = service_values [OF assms(2) push_env_okD(4) [OF assms(1), of "map snd (subs s)"]]
  have "json_subs P data = Inr (map Some ?ss)"
    using push_env_okD(1) [OF assms(1) _ d] v(2) by (simp add: list_all_iff)
  from New_loads [OF assms(4-7) f this, of sbr]
  obtain G where n: "New P W' F' (sub_file s) pub priv sbr = (Inr \<lparr>sub_file = sub_file s, vapidPublicKey = pub,
      vapidPrivateKey = priv, subscriber = sbr, subs = load_subs (map Some ?ss) []\<rparr>, G)" by blast
  have "map_of (load_subs (map Some ?ss) []) = map_of (subs s)"
    using load_subs_map_of [of ?ss "[]"] v by simp
  with n show ?thesis by simp
qed

section \<open>Properties\<close>

lemma Subscribe_ok:
  assumes "push_env_ok P" and "service_ok s" and "Subscribe P W F s raw = (e, s', F')"
  shows "service_ok s' \<and> sub_file s' = sub_file s
    \<and> (e = None \<longrightarrow> (\<exists>v. json_sub P raw = Inr v \<and> map_of (subs s') = (map_of (subs s))(Endpoint v \<mapsto> v)
          \<and> saveLocked P W F s' = (None, F')))"
proof -
  consider (refused) err where "e = Some err" "s' = s"
    | (stored) v h where "json_sub P raw = Inr v" "url_Parse P (Endpoint v) = Inr (''https'', h)"
        "s' = s\<lparr>subs := AList.update (Endpoint v) v (subs s)\<rparr>" "saveLocked P W F s' = (e, F')"
    using assms(3) by (auto simp: Subscribe_def Let_def split: sum.splits prod.splits if_splits)
  then show ?thesis
  proof cases
    case refused
    with assms(2) show ?thesis by simp
  next
    case (stored v h)
    have "Endpoint v \<noteq> []" using stored(2) push_env_okD(5) [OF assms(1)] by auto
    then have "service_ok s'"
      using service_ok_update [OF assms(2)] push_env_okD(2) [OF assms(1) stored(1)] stored(3) by simp
    with stored show ?thesis by (simp add: update_conv')
  qed
qed

text \<open>
  C27. Subscriptions survive a restart. When \<^verbatim>\<open>Subscribe\<close> reports success, a service started later on the
  same file knows exactly the subscriptions of the running one, the new one included.
\<close>
theorem subscribe_persists:
  assumes "push_env_ok P" and "service_ok s" and "Subscribe P W F s raw = (None, s', F')"
    and "no_faults W'" and "pub \<noteq> []" and "priv \<noteq> []" and "dirs_clear F' (filepath_Dir (sub_file s))"
  shows "\<exists>v s2 G. json_sub P raw = Inr v \<and> New P W' F' (sub_file s) pub priv sbr = (Inr s2, G)
    \<and> map_of (subs s2) = map_of (subs s') \<and> map_of (subs s') = (map_of (subs s))(Endpoint v \<mapsto> v)"
proof -
  note o = Subscribe_ok [OF assms(1-3)]
  then have "saveLocked P W F s' = (None, F')" "service_ok s'" "sub_file s' = sub_file s" by auto
  with saved_loads [OF assms(1) _ this(1) assms(4-6)] o assms(7) show ?thesis by force
qed

lemma Unsubscribe_subs: "subs (fst (snd (Unsubscribe P W F s k))) = AList.delete k (subs s)"
  by (simp add: Unsubscribe_def Let_def split: prod.splits)

text \<open>
  Unsubscribing is durable: when it reports success, a service started later on the same file
  knows exactly the other subscriptions.
\<close>
lemma unsubscribe_persists:
  assumes "push_env_ok P" and "service_ok s" and "Unsubscribe P W F s k = (None, s', F')"
    and "no_faults W'" and "pub \<noteq> []" and "priv \<noteq> []" and "dirs_clear F' (filepath_Dir (sub_file s))"
  shows "\<exists>s2 G. New P W' F' (sub_file s) pub priv sbr = (Inr s2, G) \<and> map_of (subs s2) = (map_of (subs s))(k := None)"
proof -
  have s': "s' = s\<lparr>subs := AList.delete k (subs s)\<rparr>" and "saveLocked P W F s' = (None, F')"
    using assms(3) by (auto simp: Unsubscribe_def Let_def split: prod.splits)
  moreover have "service_ok s'" using service_ok_delete [OF assms(2)] s' by simp
  ultimately show ?thesis
    using saved_loads [OF assms(1), of s' W F F' W' pub priv sbr] assms(4-7) by (simp add: delete_conv')
qed

lemma notify_each_subs:
  "map_of (subs (fst (notify_each P Ws payload ss st))) k =
     (if \<exists>v \<in> set ss. Endpoint v = k \<and> (\<exists>c. SendNotification P payload v = Inr c \<and> gone c) then None
      else map_of (subs (fst st)) k)"
proof (induction ss arbitrary: Ws st)
  case (Cons v ss)
  show ?case
    by (cases "SendNotification P payload v")
      (auto simp: Cons.IH Unsubscribe_subs delete_conv')
qed simp

text \<open>
  C38. A notification prunes exactly the endpoints that are gone. Whatever order the responses come
  in, and whether or not the file can be saved, afterwards a subscription is known exactly when it
  was known before and its push service did not answer 404 or 410.
\<close>
theorem notify_prunes_gone:
  assumes "push_env_ok P" and "service_ok (fst st)" and "\<And>ss. mset (arrival ss) = mset ss"
    and "json_payload P zh en body = Inr payload"
  shows "map_of (subs (fst (Notify P Ws arrival zh en body st))) k =
    (case map_of (subs (fst st)) k of
       None \<Rightarrow> None
     | Some v \<Rightarrow> (case SendNotification P payload v of
                   Inl _ \<Rightarrow> Some v
                 | Inr c \<Rightarrow> if c = 404 \<or> c = 410 then None else Some v))"
proof -
  let ?ss = "iter P (map snd (subs (fst st)))"
  have m: "set (arrival ?ss) = snd ` set (subs (fst st))" "set ?ss = snd ` set (subs (fst st))"
    using mset_eq_setD [OF assms(3), of ?ss] mset_eq_setD [OF push_env_okD(4) [OF assms(1)], of "map snd (subs (fst st))"]
    by simp_all
  have kv: "v \<in> snd ` set (subs (fst st)) \<and> Endpoint v = k \<longleftrightarrow> map_of (subs (fst st)) k = Some v" for v
    using service_okD(1,2) [OF assms(2)] by (force dest: map_of_SomeD)
  show ?thesis
  proof (cases "?ss = []")
    case True
    then have "subs (fst st) = []" using m(2) by auto
    with True show ?thesis by (simp add: Notify_def)
  next
    case False
    then have "Notify P Ws arrival zh en body st = notify_each P Ws payload (arrival ?ss) st"
      using assms(4) by (simp add: Notify_def)
    moreover have "(\<exists>v \<in> set (arrival ?ss). Endpoint v = k \<and> G v) \<longleftrightarrow> (\<exists>v. map_of (subs (fst st)) k = Some v \<and> G v)" for G
      using kv m(1) by blast
    ultimately show ?thesis by (auto simp: notify_each_subs gone_def split: option.splits sum.splits)
  qed
qed

section \<open>Samples\<close>

definition sample_sub :: subscription where
  "sample_sub = \<lparr>Endpoint = ''https://p/1'', P256dh = ''k'', Auth = ''a''\<rparr>"

definition sample_push_env :: push_env where
  "sample_push_env =
     \<lparr>json_sub = \<lambda>_. Inr sample_sub,
      json_subs = \<lambda>d. if d = ''[s]'' then Inr [Some sample_sub] else if d = ''[]'' then Inr [] else Inl ''syntax'',
      json_MarshalIndent = \<lambda>ss. if ss = [sample_sub] then Inr ''[s]'' else if ss = [] then Inr ''[]'' else Inl ''size'',
      url_Parse = \<lambda>u. if u = [] then Inr ([], []) else Inr (''https'', ''p''),
      iter = \<lambda>ss. ss, json_payload = \<lambda>_ _ _. Inr ''payload'', SendNotification = \<lambda>_ _. Inr 410\<rparr>"

definition sample_service :: service where
  "sample_service = \<lparr>sub_file = (True, [''d'', ''s'']), vapidPublicKey = ''pub'', vapidPrivateKey = ''priv'',
     subscriber = ''mailto:x'', subs = []\<rparr>"

definition sample_dir :: fs where
  "sample_dir = [((True, [''d'']), DirNode)]"

lemma sample_sub_valid: "sub_valid sample_sub"
  by (simp add: sub_valid_def sample_sub_def utf8_ValidString_def runes_ascii encode_rune_def char_of_def bit_0)

lemma sample_push_env_ok: "push_env_ok sample_push_env"
  using sample_sub_valid by (auto simp: push_env_ok_def sample_push_env_def split: if_splits)

lemma sample_service_ok: "service_ok sample_service"
  by (simp add: service_ok_def sample_service_def)

lemmas push_eval = Subscribe_def Unsubscribe_def saveLocked_def saveLocked_run_def os_WriteFile_run_def tmp_path_def
  os_Write_def os_Rename_def guarded_def is_dir_def filepath_Dir_def Let_def
  sample_push_env_def sample_service_def sample_dir_def sample_sub_def sample_os_def

definition sample_full :: service where
  "sample_full = sample_service\<lparr>subs := [(''https://p/1'', sample_sub)]\<rparr>"

definition sample_saved :: fs where
  "sample_saved = [((True, [''d'']), DirNode), ((True, [''d'', ''s'']), FileNode ''[s]'')]"

lemma sample_subscribe: "Subscribe sample_push_env sample_os sample_dir sample_service ''{}'' = (None, sample_full, sample_saved)"
  by (simp add: push_eval sample_full_def sample_saved_def)

lemma sample_unsubscribe:
  "\<exists>F'. Unsubscribe sample_push_env sample_os sample_saved sample_full ''https://p/1'' = (None, sample_service, F')
     \<and> dirs_clear F' (True, [''d''])"
  by (simp add: push_eval sample_full_def sample_saved_def dirs_clear_def prefix_Cons)

theorem push_save_atomic_witness:
  "\<exists>Fs. saveLocked_run sample_push_env sample_os sample_dir sample_full = (None, Fs)
     \<and> (\<forall>G \<in> set (butlast Fs). fs_at G (sub_file sample_full) = None)
     \<and> fs_at (last Fs) (sub_file sample_full) = Some (FileNode ''[s]'')"
  using push_save_atomic [where s = sample_full and P = sample_push_env and W = sample_os and F = sample_dir]
  by (simp add: push_eval sample_full_def)

theorem subscribe_persists_witness:
  "\<exists>s2 G. New sample_push_env sample_os sample_saved (True, [''d'', ''s'']) ''pub'' ''priv'' ''mailto:x'' = (Inr s2, G)
     \<and> map_of (subs s2) = [''https://p/1'' \<mapsto> sample_sub]"
proof -
  have "dirs_clear sample_saved (filepath_Dir (sub_file sample_service))"
    by (simp add: dirs_clear_def sample_saved_def sample_service_def filepath_Dir_def prefix_Cons)
  from subscribe_persists [OF sample_push_env_ok sample_service_ok sample_subscribe _ _ _ this, of sample_os "''pub''" "''priv''" "''mailto:x''"]
  show ?thesis by (auto simp: sample_full_def) (auto simp: sample_service_def)
qed

lemma sample_full_ok: "service_ok sample_full"
  using Subscribe_ok [OF sample_push_env_ok sample_service_ok sample_subscribe] by simp

theorem notify_prunes_gone_witness:
  "map_of (subs (fst (Notify sample_push_env (\<lambda>_. sample_os) rev ''t'' ''t'' ''b'' (sample_full, sample_saved)))) ''https://p/1'' = None"
  using notify_prunes_gone [OF sample_push_env_ok, of "(sample_full, sample_saved)" rev "''t''" "''t''" "''b''" "''payload''"
      "\<lambda>_. sample_os" "''https://p/1''"] sample_full_ok
  by (simp add: sample_full_def sample_push_env_def)

end
