(* ===== verification/Web.thy ===== *)
theory Web
  imports WebMime WebAuth I18n Textify Push MaildirProps
begin

text \<open>
  Package \<^verbatim>\<open>internal/web\<close>: the handlers of web.go and auth.go over the message store, the push service
  and the session cookie, the middleware and the routing table of \<^verbatim>\<open>New\<close>. A page is the name of its
  template with the data it is given; the rendering of the templates is not modelled. A handler takes
  the state of the server (its files and push service) to a response and a new state; no response
  means that the handler panicked, in which case \<^verbatim>\<open>net/http\<close> drops the connection.
\<close>

section \<open>Data\<close>

record listData =
  ld_T :: catalog
  ld_Messages :: "message list"
  ld_Page :: int
  ld_Pages :: int
  ld_Total :: int
  ld_PushKey :: bytes

record viewData =
  vd_T :: catalog
  vd_ID :: bytes
  vd_Subject :: bytes
  vd_From :: bytes
  vd_To :: bytes
  vd_Date :: bytes
  vd_Spam :: bool
  vd_TextBody :: bytes
  vd_HasHTML :: bool
  vd_Attach :: "attachment list"

datatype web_body =
    NoBody
  | PlainText bytes
  | Content bytes
  | LoginPage catalog "bytes option"
  | ListPage listData
  | ViewPage viewData

text \<open>
  The server: the credentials of \<^verbatim>\<open>web_auth\<close>, the root of its store, the service worker script, and
  the version its template functions put into the addresses of static files.
\<close>

record web_server = web_auth +
  store_root :: path
  swJS :: bytes
  asset_version :: bytes

text \<open>What the handlers change: the files, and the push service if there is one.\<close>

record web_world =
  ww_files :: fs
  ww_push :: "service option"

text \<open>
  What surrounds a request: the operating system, the parsers and codecs of the other packages, the
  clock (Unix time and instant) and the nonce a login draws. \<open>http_FileServer\<close> and \<open>http_ServeContent\<close>
  are the two calls of \<^verbatim>\<open>net/http\<close> that serve a file, by their status and bytes; the headers they set
  on success describe the content only and are not recorded. The two codes are those the router
  redirects with, which differ between releases of Go.
\<close>

record web_env =
  we_utab :: utab
  we_os :: os_env
  we_mail :: mail_env
  we_mime :: mime_env
  we_push :: push_env
  we_crypto :: crypto_env
  we_i18n :: i18n_env
  we_time :: time_env
  we_DecodeHeader :: "bytes \<Rightarrow> bytes option"
  we_html_Parse :: "bytes \<Rightarrow> html_node option"
  we_json_endpoint :: "bytes \<times> bytes option \<Rightarrow> bytes option"
  we_io_text :: "io_error \<Rightarrow> bytes"
  we_push_text :: "push_error \<Rightarrow> bytes"
  http_FileServer :: "request \<Rightarrow> nat \<times> bytes"
  http_ServeContent :: "request \<Rightarrow> bytes \<Rightarrow> nat \<times> bytes"
  mux_slash_code :: nat
  mux_clean_code :: nat
  we_now :: int
  we_nonce :: "bytes option"

type_synonym outcome = "web_body response option \<times> web_world"

section \<open>Responses\<close>

definition http_Error :: "bytes \<Rightarrow> nat \<Rightarrow> web_body response" where
  "http_Error msg code =
     respond code [(''Content-Type'', ''text/plain; charset=utf-8''), (''X-Content-Type-Options'', ''nosniff'')] (PlainText msg)"

text \<open>When serving a file fails, \<^verbatim>\<open>net/http\<close> removes the caching headers set before and answers as \<^verbatim>\<open>http.Error\<close>.\<close>

definition file_error :: "nat \<Rightarrow> bytes \<Rightarrow> web_body response" where
  "file_error code content =
     respond code [(''Content-Type'', ''text/plain; charset=utf-8''), (''X-Content-Type-Options'', ''nosniff'')] (Content content)"

definition http_NotFound :: "web_body response" where
  "http_NotFound = http_Error ''404 page not found'' 404"

definition render :: "web_body \<Rightarrow> web_body response" where
  "render page = respond 200 [(''Content-Type'', ''text/html; charset=utf-8'')] page"

text \<open>
  A middleware sets a header before it calls the next handler, so it stands unless that handler sets
  the same header.
\<close>

definition preset :: "bytes \<Rightarrow> bytes \<Rightarrow> 'b response \<Rightarrow> 'b response" where
  "preset k v resp =
     (if map_of (resp_Header resp) k = None then resp\<lparr>resp_Header := (k, v) # resp_Header resp\<rparr> else resp)"

definition withSecurityHeaders :: "outcome \<Rightarrow> outcome" where
  "withSecurityHeaders out =
     (map_option (preset ''X-Content-Type-Options'' ''nosniff'' \<circ> preset ''X-Frame-Options'' ''SAMEORIGIN''
        \<circ> preset ''Referrer-Policy'' ''same-origin'') (fst out), snd out)"

definition withCache :: "outcome \<Rightarrow> outcome" where
  "withCache out = (map_option (preset ''Cache-Control'' ''public, max-age=604800'') (fst out), snd out)"

section \<open>Sessions\<close>

definition authenticated :: "web_env \<Rightarrow> ('a) web_auth_scheme \<Rightarrow> request \<Rightarrow> bool" where
  "authenticated E s r =
     (case Request_Cookie r sessionCookieName of
        None \<Rightarrow> False
      | Some v \<Rightarrow> validSession (we_crypto E) s (we_now E) v)"

definition requireAuth ::
  "web_env \<Rightarrow> web_server \<Rightarrow> (request \<Rightarrow> web_world \<Rightarrow> outcome) \<Rightarrow> request \<Rightarrow> web_world \<Rightarrow> outcome" where
  "requireAuth E s next r w =
     (if \<not> authenticated E s r
      then if strings_HasPrefix (req_Path r) ''/api/'' then (Some (http_Error ''unauthorized'' 401), w)
           else (Some (redirect ''/login'' NoBody), w)
      else case next r w of (resp, w') \<Rightarrow> (map_option (preset ''Cache-Control'' ''no-store'') resp, w'))"

definition handleLogin :: "web_env \<Rightarrow> web_server \<Rightarrow> request \<Rightarrow> web_body response" where
  "handleLogin E s r =
     (let cat = catalogFor (we_i18n E) r in
      if req_Method r = ''GET'' then render (LoginPage cat None)
      else case req_PostForm r of
             None \<Rightarrow> render (LoginPage cat (Some (cat_ErrInvalidRequest cat)))
           | Some form \<Rightarrow>
               (let u = Values_Get form ''username''; p = Values_Get form ''password'' in
                if u \<noteq> username s \<or> \<not> bcrypt_Matches (we_crypto E) (passwordHash s) p
                then render (LoginPage cat (Some (cat_ErrBadCredentials cat)))
                else case setSessionCookie (we_crypto E) s (we_nonce E) (we_now E) r of
                       Inl _ \<Rightarrow> http_Error ''internal error'' 500
                     | Inr c \<Rightarrow> (redirect ''/'' NoBody)\<lparr>resp_Cookies := [c]\<rparr>))"

definition handleLogout :: "request \<Rightarrow> web_body response" where
  "handleLogout r = (redirect ''/login'' NoBody)\<lparr>resp_Cookies := [clearSessionCookie r]\<rparr>"

section \<open>Pages\<close>

definition web_decodeHeader :: "web_env \<Rightarrow> bytes \<Rightarrow> bytes" where
  "web_decodeHeader E s = (case we_DecodeHeader E s of Some d \<Rightarrow> d | None \<Rightarrow> s)"

definition headerOf :: "bytes \<Rightarrow> header" where
  "headerOf raw = (case mail_ReadMessage raw of None \<Rightarrow> [] | Some (h, _) \<Rightarrow> h)"

definition handleList :: "web_env \<Rightarrow> web_server \<Rightarrow> request \<Rightarrow> web_world \<Rightarrow> outcome" where
  "handleList E s r w =
     (case Store_List (we_mail E) (we_os E) (store_root s) (ww_files w) of
        Inl e \<Rightarrow> (Some (http_Error (we_io_text E e) 500), w)
      | Inr msgs \<Rightarrow>
          (case list_page msgs (Values_Get (req_Query r) ''p'') of
             None \<Rightarrow> (None, w)
           | Some (xs, page, pages) \<Rightarrow>
               (Some (render (ListPage \<lparr>ld_T = catalogFor (we_i18n E) r, ld_Messages = xs, ld_Page = page, ld_Pages = pages,
                  ld_Total = int (length msgs),
                  ld_PushKey = (case ww_push w of None \<Rightarrow> [] | Some svc \<Rightarrow> PublicKey svc)\<rparr>)), w)))"

definition handleView :: "web_env \<Rightarrow> web_server \<Rightarrow> bytes \<Rightarrow> request \<Rightarrow> web_world \<Rightarrow> outcome" where
  "handleView E s mid r w =
     (case Store_Open (we_os E) (store_root s) (ww_files w) mid of
        (Inl _, F) \<Rightarrow> (Some http_NotFound, w\<lparr>ww_files := F\<rparr>)
      | (Inr raw, F) \<Rightarrow>
          (let h = headerOf raw in
           case walkMessage (we_mime E) raw of
             None \<Rightarrow> (None, w\<lparr>ww_files := F\<rparr>)
           | Some (txt, htmlBody, attach) \<Rightarrow>
               (let txt = (if txt = [] \<and> htmlBody \<noteq> [] then htmlToText (we_html_Parse E) htmlBody else txt)
                in (Some (render (ViewPage
                     \<lparr>vd_T = catalogFor (we_i18n E) r,
                      vd_ID = mid,
                      vd_Subject = web_decodeHeader E (Header_Get h ''Subject''),
                      vd_From = web_decodeHeader E (Header_Get h ''From''),
                      vd_To = web_decodeHeader E (Header_Get h ''To''),
                      vd_Date = formatFullDate (we_time E) (we_mail E) (Header_Get h ''Date''),
                      vd_Spam = strings_Contains (Header_Get h ''X-Spam-Status'') ''action=spam'',
                      vd_TextBody = txt,
                      vd_HasHTML = (htmlBody \<noteq> []),
                      vd_Attach = attach\<rparr>)), w\<lparr>ww_files := F\<rparr>))))"

definition html_csp :: bytes where
  "html_csp =
     ''default-src '' @ [CHR 0x27] @ ''none'' @ [CHR 0x27] @ ''; img-src data: https:; style-src '' @ [CHR 0x27] @ ''unsafe-inline''
     @ [CHR 0x27] @ ''; form-action '' @ [CHR 0x27] @ ''none'' @ [CHR 0x27]"

definition handleHTML :: "web_env \<Rightarrow> web_server \<Rightarrow> bytes \<Rightarrow> request \<Rightarrow> web_world \<Rightarrow> outcome" where
  "handleHTML E s mid r w =
     (case Store_Open (we_os E) (store_root s) (ww_files w) mid of
        (Inl _, F) \<Rightarrow> (Some http_NotFound, w\<lparr>ww_files := F\<rparr>)
      | (Inr raw, F) \<Rightarrow>
          (case walkMessage (we_mime E) raw of
             None \<Rightarrow> (None, w\<lparr>ww_files := F\<rparr>)
           | Some (_, htmlBody, _) \<Rightarrow>
               if htmlBody = [] then (Some http_NotFound, w\<lparr>ww_files := F\<rparr>)
               else (map_option
                       (\<lambda>page. respond 200 [(''Content-Type'', ''text/html; charset=utf-8''), (''Content-Security-Policy'', html_csp)]
                                 (Content page))
                       (withBaseTargetBlank (we_utab E) htmlBody), w\<lparr>ww_files := F\<rparr>)))"

definition handleAttach :: "web_env \<Rightarrow> web_server \<Rightarrow> bytes \<Rightarrow> bytes \<Rightarrow> request \<Rightarrow> web_world \<Rightarrow> outcome" where
  "handleAttach E s mid n r w =
     (case Store_Open (we_os E) (store_root s) (ww_files w) mid of
        (Inl _, F) \<Rightarrow> (Some http_NotFound, w\<lparr>ww_files := F\<rparr>)
      | (Inr raw, F) \<Rightarrow>
          (Some (case find_attach (we_mime E) raw n of
                   None \<Rightarrow> http_NotFound
                 | Some (mt, disp, body) \<Rightarrow>
                     respond 200 [(''Content-Type'', mt), (''Content-Disposition'', disp)] (Content body)),
           w\<lparr>ww_files := F\<rparr>))"

definition handleDelete :: "web_env \<Rightarrow> web_server \<Rightarrow> bytes \<Rightarrow> request \<Rightarrow> web_world \<Rightarrow> outcome" where
  "handleDelete E s mid r w =
     (case Store_Delete (we_os E) (store_root s) (ww_files w) mid of
        (Some _, F) \<Rightarrow> (Some http_NotFound, w\<lparr>ww_files := F\<rparr>)
      | (None, F) \<Rightarrow> (Some (redirect ''/'' NoBody), w\<lparr>ww_files := F\<rparr>))"

definition handleServiceWorker :: "web_env \<Rightarrow> web_server \<Rightarrow> request \<Rightarrow> web_body response" where
  "handleServiceWorker E s r =
     (case http_ServeContent E r (swJS s) of
        (code, content) \<Rightarrow>
          if 400 \<le> code then file_error code content
          else respond code [(''Content-Type'', ''application/javascript; charset=utf-8''), (''Cache-Control'', ''no-cache'')] (Content content))"

section \<open>Push subscriptions\<close>

text \<open>
  \<^verbatim>\<open>io.LimitReader(r.Body, 1<<16)\<close>: at the limit the reader reports the end of the input, so an error
  of the body counts only before it.
\<close>

definition limit_body :: "bytes \<times> bytes option \<Rightarrow> bytes \<times> bytes option" where
  "limit_body b = (if length (fst b) < 2 ^ 16 then b else (take (2 ^ 16) (fst b), None))"

definition handlePushSubscribe :: "web_env \<Rightarrow> request \<Rightarrow> web_world \<Rightarrow> outcome" where
  "handlePushSubscribe E r w =
     (case ww_push w of
        None \<Rightarrow> (Some http_NotFound, w)
      | Some svc \<Rightarrow>
          (case limit_body (req_Body r) of
             (_, Some _) \<Rightarrow> (Some (http_Error ''invalid request'' 400), w)
           | (body, None) \<Rightarrow>
               (case Subscribe (we_push E) (we_os E) (ww_files w) svc body of
                  (err, svc', F) \<Rightarrow>
                    ((case err of
                        Some e \<Rightarrow> Some (http_Error (we_push_text E e) 400)
                      | None \<Rightarrow> Some (respond 204 [] NoBody)),
                     w\<lparr>ww_files := F, ww_push := Some svc'\<rparr>))))"

definition handlePushUnsubscribe :: "web_env \<Rightarrow> request \<Rightarrow> web_world \<Rightarrow> outcome" where
  "handlePushUnsubscribe E r w =
     (case ww_push w of
        None \<Rightarrow> (Some http_NotFound, w)
      | Some svc \<Rightarrow>
          (case we_json_endpoint E (limit_body (req_Body r)) of
             None \<Rightarrow> (Some (http_Error ''invalid request'' 400), w)
           | Some endpoint \<Rightarrow>
               if endpoint = [] then (Some (http_Error ''invalid request'' 400), w)
               else (case Unsubscribe (we_push E) (we_os E) (ww_files w) svc endpoint of
                       (err, svc', F) \<Rightarrow>
                         ((case err of
                             Some _ \<Rightarrow> Some (http_Error ''internal error'' 500)
                           | None \<Rightarrow> Some (respond 204 [] NoBody)),
                          w\<lparr>ww_files := F, ww_push := Some svc'\<rparr>))))"

section \<open>Routing\<close>

text \<open>
  \<^verbatim>\<open>http.ServeMux\<close>: the segments of the escaped path are unescaped one by one, so an escaped slash stays
  inside its segment. A wildcard stands for one segment that is not empty and not just a slash, which
  the router takes for the end of the path; a pattern for \<^verbatim>\<open>GET\<close> also answers \<^verbatim>\<open>HEAD\<close>.
\<close>

definition hex_val :: "char \<Rightarrow> nat option" where
  "hex_val c =
     (if 48 \<le> byte c \<and> byte c \<le> 57 then Some (byte c - 48)
      else if 65 \<le> byte c \<and> byte c \<le> 70 then Some (byte c - 55)
      else if 97 \<le> byte c \<and> byte c \<le> 102 then Some (byte c - 87)
      else None)"

fun percent_decode :: "bytes \<Rightarrow> bytes option" where
  "percent_decode [] = Some []"
| "percent_decode (c # s) =
     (if c = CHR ''%'' then
        (case s of
           a # b # t \<Rightarrow>
             (case (hex_val a, hex_val b, percent_decode t) of
                (Some x, Some y, Some u) \<Rightarrow> Some (char_of (16 * x + y) # u)
              | _ \<Rightarrow> None)
         | _ \<Rightarrow> None)
      else map_option (Cons c) (percent_decode s))"

definition pathUnescape :: "bytes \<Rightarrow> bytes" where
  "pathUnescape s = (case percent_decode s of None \<Rightarrow> s | Some u \<Rightarrow> u)"

definition cleanPath :: "bytes \<Rightarrow> bytes" where
  "cleanPath p0 =
     (let p = (if p0 = [] then ''/'' else if hd p0 \<noteq> SLASH then SLASH # p0 else p0);
          np = SLASH # strings_Join (snd (filepath_Clean p)) ''/''
      in if last p = SLASH \<and> np \<noteq> ''/'' then np @ ''/'' else np)"

definition segments :: "bytes \<Rightarrow> bytes list" where
  "segments p = map pathUnescape (strings_Split (tl p) SLASH)"

datatype route =
    Static | ServiceWorker | Login | LogoutRoute | Lang | ListRoute | View bytes | Html bytes | Attach bytes bytes
  | DeleteRoute bytes | SubscribeRoute | UnsubscribeRoute

definition wildcard :: "bytes \<Rightarrow> bool" where
  "wildcard seg \<longleftrightarrow> seg \<noteq> [] \<and> seg \<noteq> ''/''"

text \<open>The patterns of \<^verbatim>\<open>New\<close> that match a path, each with its method.\<close>

definition route_table :: "bytes list \<Rightarrow> (bytes \<times> route) list" where
  "route_table segs =
     (if segs = [[]] \<or> segs = [''/''] then [(''GET'', ListRoute)]
      else if 2 \<le> length segs \<and> hd segs = ''static'' then [(''GET'', Static)]
      else if segs = [''sw.js''] then [(''GET'', ServiceWorker)]
      else if segs = [''login''] then [(''GET'', Login), (''POST'', Login)]
      else if segs = [''logout''] then [(''GET'', LogoutRoute)]
      else if segs = [''lang''] then [(''GET'', Lang)]
      else if segs = [''api'', ''push'', ''subscribe''] then [(''POST'', SubscribeRoute)]
      else if segs = [''api'', ''push'', ''unsubscribe''] then [(''POST'', UnsubscribeRoute)]
      else if segs \<noteq> [] \<and> hd segs = ''mail'' then
        (case tl segs of
           [mid] \<Rightarrow> if wildcard mid then [(''GET'', View mid)] else []
         | [mid, act] \<Rightarrow>
             if wildcard mid \<and> act = ''html'' then [(''GET'', Html mid)]
             else if wildcard mid \<and> act = ''delete'' then [(''POST'', DeleteRoute mid)]
             else []
         | [mid, act, n] \<Rightarrow> if wildcard mid \<and> act = ''attach'' \<and> wildcard n then [(''GET'', Attach mid n)] else []
         | _ \<Rightarrow> [])
      else [])"

definition method_matches :: "bytes \<Rightarrow> bytes \<Rightarrow> bool" where
  "method_matches pat m \<longleftrightarrow> pat = m \<or> pat = ''GET'' \<and> m = ''HEAD''"

definition mux_match :: "bytes \<Rightarrow> bytes \<Rightarrow> route option" where
  "mux_match m p = map_option snd (find (\<lambda>(pat, _). method_matches pat m) (route_table (segments p)))"

definition allowed_methods :: "bytes \<Rightarrow> bytes list" where
  "allowed_methods p =
     (let ms = map fst (route_table (segments p) @ (if last p = SLASH then [] else route_table (segments (p @ ''/''))))
      in (if ''GET'' \<in> set ms then [''GET'', ''HEAD''] else []) @ (if ''POST'' \<in> set ms then [''POST''] else []))"

definition protected :: "route \<Rightarrow> bool" where
  "protected rt \<longleftrightarrow>
     (case rt of
        Static \<Rightarrow> False | ServiceWorker \<Rightarrow> False | Login \<Rightarrow> False | LogoutRoute \<Rightarrow> False | Lang \<Rightarrow> False | _ \<Rightarrow> True)"

definition page_handler :: "web_env \<Rightarrow> web_server \<Rightarrow> route \<Rightarrow> request \<Rightarrow> web_world \<Rightarrow> outcome" where
  "page_handler E s rt r w =
     (case rt of
        Static \<Rightarrow>
          (case http_FileServer E r of
             (code, content) \<Rightarrow>
               if 400 \<le> code then (Some (file_error code content), w)
               else withCache (Some (respond code [] (Content content)), w))
      | ServiceWorker \<Rightarrow> (Some (handleServiceWorker E s r), w)
      | Login \<Rightarrow> (Some (handleLogin E s r), w)
      | LogoutRoute \<Rightarrow> (Some (handleLogout r), w)
      | Lang \<Rightarrow> (Some (handleLang (we_i18n E) r NoBody), w)
      | ListRoute \<Rightarrow> handleList E s r w
      | View mid \<Rightarrow> handleView E s mid r w
      | Html mid \<Rightarrow> handleHTML E s mid r w
      | Attach mid n \<Rightarrow> handleAttach E s mid n r w
      | DeleteRoute mid \<Rightarrow> handleDelete E s mid r w
      | SubscribeRoute \<Rightarrow> handlePushSubscribe E r w
      | UnsubscribeRoute \<Rightarrow> handlePushUnsubscribe E r w)"

definition dispatch :: "web_env \<Rightarrow> web_server \<Rightarrow> route \<Rightarrow> request \<Rightarrow> web_world \<Rightarrow> outcome" where
  "dispatch E s rt r w =
     (if protected rt then requireAuth E s (page_handler E s rt) r w else page_handler E s rt r w)"

text \<open>
  A path that only lacks the slash of \<^verbatim>\<open>/static/\<close>, and a path that is not clean, are redirected; the
  query the redirect keeps is not recorded.
\<close>

definition mux :: "web_env \<Rightarrow> web_server \<Rightarrow> request \<Rightarrow> web_world \<Rightarrow> outcome" where
  "mux E s r w =
     (let p = (if req_Method r = ''CONNECT'' then req_EscapedPath r else cleanPath (req_EscapedPath r)) in
      if mux_match (req_Method r) p = None \<and> p \<noteq> [] \<and> last p \<noteq> SLASH
         \<and> segments (p @ ''/'') = [''static'', []] \<and> mux_match (req_Method r) (p @ ''/'') \<noteq> None
      then (Some (respond (mux_slash_code E) [(''Location'', cleanPath (req_Path r) @ ''/'')] NoBody), w)
      else if p \<noteq> req_EscapedPath r then (Some (respond (mux_clean_code E) [(''Location'', p)] NoBody), w)
      else case mux_match (req_Method r) p of
             Some rt \<Rightarrow> dispatch E s rt r w
           | None \<Rightarrow>
               if allowed_methods p \<noteq> []
               then (Some ((http_Error ''Method Not Allowed'' 405)
                       \<lparr>resp_Header := (''Allow'', strings_Join (allowed_methods p) '', '') # resp_Header (http_Error ''Method Not Allowed'' 405)\<rparr>), w)
               else (Some http_NotFound, w))"

definition serve :: "web_env \<Rightarrow> web_server \<Rightarrow> request \<Rightarrow> web_world \<Rightarrow> outcome" where
  "serve E s r w = withSecurityHeaders (mux E s r w)"

text \<open>
  \<^verbatim>\<open>New\<close>, at the Unix time \<open>start\<close>; without a build revision the time stands for it. The template
  functions \<^verbatim>\<open>add\<close>, \<^verbatim>\<open>sub\<close> and \<^verbatim>\<open>asset\<close> are closures of \<^verbatim>\<open>New\<close>; the other ones are functions of their own.
\<close>

definition web_New :: "path \<Rightarrow> bytes \<Rightarrow> bytes \<Rightarrow> bytes \<Rightarrow> bytes \<Rightarrow> int \<Rightarrow> web_server" where
  "web_New dir user passwordBcrypt sw assetVersion start =
     \<lparr>username = user, passwordHash = passwordBcrypt, store_root = dir, swJS = sw,
      asset_version = (if assetVersion = [] then strconv_FormatInt36 start else assetVersion)\<rparr>"

definition tpl_asset :: "web_server \<Rightarrow> bytes \<Rightarrow> bytes" where
  "tpl_asset s p = assetURL (asset_version s) p"

definition tpl_add :: "int \<Rightarrow> int \<Rightarrow> int" where
  "tpl_add a b = wrap64 (a + b)"

definition tpl_sub :: "int \<Rightarrow> int \<Rightarrow> int" where
  "tpl_sub a b = wrap64 (a - b)"

end
