(* ===== verification/WebProps.thy ===== *)
theory WebProps
  imports Web
begin

text \<open>
  Properties of the web interface as a whole: what a client without a session learns and changes, what
  a login grants, the headers of every response, and that mail is lost only by deleting it.
\<close>

section \<open>Requests without a session\<close>

lemma preset_header: "map_of (resp_Header (preset k v resp)) k' =
   (if k' = k \<and> map_of (resp_Header resp) k = None then Some v else map_of (resp_Header resp) k')"
  by (auto simp: preset_def)

lemma preset_same [simp]:
  "resp_Code (preset k v resp) = resp_Code resp" "resp_Body (preset k v resp) = resp_Body resp"
  "resp_Cookies (preset k v resp) = resp_Cookies resp"
  by (simp_all add: preset_def)

text \<open>Handlers outside the protected routes leave the state alone and do not look at it.\<close>

lemma public_handler: "\<not> protected rt \<Longrightarrow> \<exists>resp. \<forall>w. page_handler E s rt r w = (Some resp, w)"
  by (cases rt; cases "http_FileServer E r"; cases "400 \<le> fst (http_FileServer E r)") (simp_all add: protected_def page_handler_def withCache_def)

text \<open>The request of a client without a session to a protected route.\<close>

definition refused :: "request \<Rightarrow> web_body response" where
  "refused r = (if strings_HasPrefix (req_Path r) ''/api/'' then http_Error ''unauthorized'' 401 else redirect ''/login'' NoBody)"

lemma requireAuth_refused: "\<not> authenticated E s r \<Longrightarrow> requireAuth E s h r w = (Some (refused r), w)"
  by (simp add: requireAuth_def refused_def)

lemma dispatch_unauthenticated:
  assumes "\<not> authenticated E s r"
  obtains resp where "\<And>w. dispatch E s rt r w = (Some resp, w)" and "protected rt \<Longrightarrow> resp = refused r"
proof (cases "protected rt")
  case True
  with that requireAuth_refused [OF assms] show ?thesis by (simp add: dispatch_def)
next
  case False
  with public_handler [OF this, of E s r] that show ?thesis by (auto simp: dispatch_def)
qed

definition plain_headers :: "'b response \<Rightarrow> bool" where
  "plain_headers resp \<longleftrightarrow>
     map_of (resp_Header resp) ''X-Frame-Options'' = None \<and> map_of (resp_Header resp) ''Referrer-Policy'' = None
     \<and> map_of (resp_Header resp) ''X-Content-Type-Options'' \<in> {None, Some ''nosniff''}"

lemma plain_headers_basic [simp]:
  "plain_headers (http_Error msg code)" "plain_headers http_NotFound" "plain_headers (render page)"
  "plain_headers (redirect target b)" "plain_headers (respond code [] b)"
  by (simp_all add: plain_headers_def http_NotFound_def http_Error_def render_def redirect_def respond_def)

lemma plain_headers_preset: "plain_headers resp \<Longrightarrow> plain_headers (preset ''Cache-Control'' v resp)"
  by (simp add: plain_headers_def preset_header)

lemma plain_headers_cookies [simp]: "plain_headers (resp\<lparr>resp_Cookies := cs\<rparr>) = plain_headers resp"
  by (simp add: plain_headers_def)

text \<open>
  The router answers itself, the same in every state, or hands the request to the route that matches.
  It answers a request that has a route itself only when the path is not clean, with a redirect.
\<close>

definition clean_request :: "request \<Rightarrow> bool" where
  "clean_request r \<longleftrightarrow> req_Method r = ''CONNECT'' \<or> cleanPath (req_EscapedPath r) = req_EscapedPath r"

definition router_redirect :: "web_env \<Rightarrow> request \<Rightarrow> web_body response \<Rightarrow> bool" where
  "router_redirect E r resp \<longleftrightarrow> resp_Body resp = NoBody \<and>
     (resp_Code resp = mux_clean_code E \<and> map_of (resp_Header resp) ''Location'' = Some (cleanPath (req_EscapedPath r))
      \<or> resp_Code resp = mux_slash_code E \<and> map_of (resp_Header resp) ''Location'' = Some (cleanPath (req_Path r) @ ''/''))"

lemma mux_cases:
  obtains (own) resp where "\<And>w. mux E s r w = (Some resp, w)" and "resp_Cookies resp = []" and "plain_headers resp"
      and "\<not> clean_request r \<and> router_redirect E r resp \<or> mux_match (req_Method r) (req_EscapedPath r) = None"
  | (routed) rt where "\<And>w. mux E s r w = dispatch E s rt r w" and "mux_match (req_Method r) (req_EscapedPath r) = Some rt"
      and "clean_request r"
proof -
  define p where "p = (if req_Method r = ''CONNECT'' then req_EscapedPath r else cleanPath (req_EscapedPath r))"
  define tsr where "tsr \<longleftrightarrow> mux_match (req_Method r) p = None \<and> p \<noteq> [] \<and> last p \<noteq> SLASH
         \<and> segments (p @ ''/'') = [''static'', []] \<and> mux_match (req_Method r) (p @ ''/'') \<noteq> None"
  note m = mux_def [of E s r, folded p_def, unfolded Let_def, folded tsr_def]
  consider "tsr" | "\<not> tsr" "p \<noteq> req_EscapedPath r" | "\<not> tsr" "p = req_EscapedPath r" "mux_match (req_Method r) p = None"
    | rt where "\<not> tsr" "p = req_EscapedPath r" "mux_match (req_Method r) p = Some rt" by blast
  then show ?thesis
  proof cases
    case 1
    have "\<not> clean_request r \<or> mux_match (req_Method r) (req_EscapedPath r) = None"
      using 1 by (auto simp: tsr_def p_def clean_request_def split: if_splits)
    with 1 show ?thesis
      by (intro own [of "respond (mux_slash_code E) [(''Location'', cleanPath (req_Path r) @ ''/'')] NoBody"])
        (auto simp: m respond_def plain_headers_def router_redirect_def)
  next
    case 2
    then have "\<not> clean_request r \<and> p = cleanPath (req_EscapedPath r)"
      by (auto simp: p_def clean_request_def split: if_splits)
    with 2 show ?thesis by (intro own [of "respond (mux_clean_code E) [(''Location'', p)] NoBody"])
        (simp_all add: m respond_def plain_headers_def router_redirect_def)
  next
    case 3
    show ?thesis
    proof (cases "allowed_methods p = []")
      case True
      with 3 show ?thesis by (intro own [of http_NotFound]) (simp_all add: m http_NotFound_def http_Error_def respond_def plain_headers_def)
    next
      case False
      with 3 show ?thesis by (intro own) (auto simp: m http_Error_def respond_def plain_headers_def)
    qed
  next
    case 4
    moreover from this have "clean_request r" by (auto simp: p_def clean_request_def split: if_splits)
    ultimately show ?thesis by (intro routed) (simp_all add: m)
  qed
qed

lemma serve_state: "snd (serve E s r w) = snd (mux E s r w)"
  by (simp add: serve_def withSecurityHeaders_def)

lemma serve_own: "mux E s r w = (Some resp, w) \<Longrightarrow> serve E s r w =
    (Some (preset ''X-Content-Type-Options'' ''nosniff'' (preset ''X-Frame-Options'' ''SAMEORIGIN''
        (preset ''Referrer-Policy'' ''same-origin'' resp))), w)"
  by (simp add: serve_def withSecurityHeaders_def)

text \<open>
  C5. A client without a session learns and changes nothing. Whatever it requests, there is one
  response, the same for every state of the server, and the state stays as it was. On every route
  that reads or changes mail or subscriptions this response sets no cookie and is exactly a redirect
  with 303 to \<^verbatim>\<open>/login\<close>, or, below \<^verbatim>\<open>/api/\<close>, a plain 401 with the text \<^verbatim>\<open>unauthorized\<close>; when the path is
  not in its clean form the router answers first, with a redirect to the clean path.
\<close>
theorem unauthenticated_sees_nothing:
  assumes "\<not> authenticated E s r"
  shows "\<exists>resp. (\<forall>w. serve E s r w = (Some resp, w))
    \<and> (\<forall>rt. mux_match (req_Method r) (req_EscapedPath r) = Some rt \<longrightarrow> protected rt \<longrightarrow>
         resp_Cookies resp = []
         \<and> (if req_Method r = ''CONNECT'' \<or> cleanPath (req_EscapedPath r) = req_EscapedPath r
            then if strings_HasPrefix (req_Path r) ''/api/''
                 then resp_Code resp = 401 \<and> resp_Body resp = PlainText ''unauthorized''
                 else resp_Code resp = 303 \<and> map_of (resp_Header resp) ''Location'' = Some ''/login'' \<and> resp_Body resp = NoBody
            else resp_Body resp = NoBody
                 \<and> (resp_Code resp = mux_clean_code E \<and> map_of (resp_Header resp) ''Location'' = Some (cleanPath (req_EscapedPath r))
                    \<or> resp_Code resp = mux_slash_code E \<and> map_of (resp_Header resp) ''Location'' = Some (cleanPath (req_Path r) @ ''/''))))"
proof (cases rule: mux_cases [where E = E and s = s and r = r])
  case (own resp)
  then show ?thesis using serve_own [OF own(1)] by (auto simp: clean_request_def router_redirect_def preset_header)
next
  case (routed rt)
  obtain resp where d: "\<And>w. dispatch E s rt r w = (Some resp, w)" "protected rt \<Longrightarrow> resp = refused r"
    using dispatch_unauthenticated [OF assms] by blast
  then have "\<And>w. mux E s r w = (Some resp, w)" using routed(1) by simp
  note v = serve_own [OF this]
  show ?thesis using v d(2) routed(2,3) by (auto simp: clean_request_def refused_def redirect_def respond_def http_Error_def preset_header)
qed

section \<open>Headers\<close>

lemma public_plain:
  assumes "\<not> protected rt" and "page_handler E s rt r w = (Some resp, w')"
  shows "plain_headers resp"
proof (cases rt)
  case Static
  then show ?thesis using assms(2)
    by (auto simp: page_handler_def withCache_def file_error_def respond_def plain_headers_def preset_def split: prod.splits if_splits)
next
  case ServiceWorker
  then show ?thesis using assms(2)
    by (auto simp: page_handler_def handleServiceWorker_def file_error_def respond_def plain_headers_def split: prod.splits if_splits)
next
  case Login
  then show ?thesis using assms(2)
    by (auto simp: page_handler_def handleLogin_def Let_def split: option.splits sum.splits if_splits)
next
  case LogoutRoute
  then show ?thesis using assms(2) by (auto simp: page_handler_def handleLogout_def)
next
  case Lang
  then show ?thesis using assms(2) by (auto simp: page_handler_def handleLang_def redirect_def respond_def plain_headers_def Let_def)
qed (use assms(1) in \<open>simp_all add: protected_def\<close>)

text \<open>The headers a protected handler sets say nothing of caching.\<close>

definition content_headers :: "'b response \<Rightarrow> bool" where
  "content_headers resp \<longleftrightarrow> plain_headers resp \<and> map_of (resp_Header resp) ''Cache-Control'' = None"

lemma content_headers_basic [simp]:
  "content_headers (http_Error msg code)" "content_headers http_NotFound" "content_headers (render page)"
  "content_headers (redirect target b)" "content_headers (respond code [] b)"
  "content_headers (respond code [(''Content-Type'', v), (''Content-Security-Policy'', v')] b)"
  "content_headers (respond code [(''Content-Type'', v), (''Content-Disposition'', v')] b)"
  by (simp_all add: content_headers_def plain_headers_def http_NotFound_def http_Error_def render_def redirect_def respond_def)

lemma page_content_headers:
  assumes "protected rt" and "page_handler E s rt r w = (Some resp, w')"
  shows "content_headers resp"
proof (cases rt)
  case ListRoute
  then show ?thesis using assms(2) by (auto simp: page_handler_def handleList_def split: sum.splits option.splits)
next
  case (View mid)
  then show ?thesis using assms(2)
    by (auto simp: page_handler_def handleView_def Let_def split: prod.splits sum.splits option.splits)
next
  case (Html mid)
  then show ?thesis using assms(2)
    by (auto simp: page_handler_def handleHTML_def split: prod.splits sum.splits option.splits if_splits)
next
  case (Attach mid n)
  then show ?thesis using assms(2)
    by (auto simp: page_handler_def handleAttach_def split: prod.splits sum.splits option.splits)
next
  case (DeleteRoute mid)
  then show ?thesis using assms(2) by (auto simp: page_handler_def handleDelete_def split: prod.splits option.splits)
next
  case SubscribeRoute
  then show ?thesis using assms(2)
    by (auto simp: page_handler_def handlePushSubscribe_def split: prod.splits option.splits)
next
  case UnsubscribeRoute
  then show ?thesis using assms(2)
    by (auto simp: page_handler_def handlePushUnsubscribe_def split: prod.splits option.splits if_splits)
qed (use assms(1) in \<open>simp_all add: protected_def\<close>)

lemma html_policy:
  assumes "page_handler E s (Html mid) r w = (Some resp, w')" and "resp_Body resp = Content page"
  shows "map_of (resp_Header resp) ''Content-Security-Policy'' = Some html_csp"
  using assms by (auto simp: page_handler_def handleHTML_def http_NotFound_def http_Error_def respond_def
      split: prod.splits sum.splits option.splits if_splits)

lemma dispatch_page:
  assumes "dispatch E s rt r w = (Some resp, w')" and "protected rt" and "authenticated E s r"
  shows "\<exists>resp0. page_handler E s rt r w = (Some resp0, w') \<and> resp = preset ''Cache-Control'' ''no-store'' resp0 \<and> content_headers resp0"
proof -
  obtain resp0 where "page_handler E s rt r w = (Some resp0, w')" "resp = preset ''Cache-Control'' ''no-store'' resp0"
    using assms by (auto simp: dispatch_def requireAuth_def split: prod.splits)
  with page_content_headers [OF assms(2)] show ?thesis by blast
qed

lemma serve_headers:
  assumes "mux E s r w = (Some resp0, w')" and "serve E s r w = (Some resp, w')" and "plain_headers resp0"
  shows "map_of (resp_Header resp) ''X-Content-Type-Options'' = Some ''nosniff''"
    and "map_of (resp_Header resp) ''X-Frame-Options'' = Some ''SAMEORIGIN''"
    and "map_of (resp_Header resp) ''Referrer-Policy'' = Some ''same-origin''"
    and "map_of (resp_Header resp) ''Cache-Control'' = map_of (resp_Header resp0) ''Cache-Control''"
    and "map_of (resp_Header resp) ''Content-Security-Policy'' = map_of (resp_Header resp0) ''Content-Security-Policy''"
    and "resp_Code resp = resp_Code resp0" and "resp_Cookies resp = resp_Cookies resp0" and "resp_Body resp = resp_Body resp0"
  using assms by (auto simp: serve_def withSecurityHeaders_def preset_header plain_headers_def)

lemma dispatch_plain:
  assumes "dispatch E s rt r w = (Some resp, w')"
  shows "plain_headers resp"
proof (cases "protected rt \<and> authenticated E s r")
  case True
  with dispatch_page [OF assms] show ?thesis by (auto simp: content_headers_def plain_headers_preset)
next
  case False
  show ?thesis
  proof (cases "protected rt")
    case True
    with False assms show ?thesis by (auto simp: dispatch_def requireAuth_refused refused_def)
  next
    case np: False
    with assms public_plain [OF np] show ?thesis by (simp add: dispatch_def)
  qed
qed

text \<open>
  C22. Every response carries the hardening headers. Unless the handler panicked, the response forbids
  content sniffing and foreign framing and limits the referrer. What an authenticated client gets
  from a protected route is not stored by caches (unless the router redirects to the clean path first), and the HTML body of a message, when it is
  served, comes with the policy that allows no scripts and no forms.
\<close>
theorem response_headers:
  assumes "serve E s r w = (Some resp, w')"
  shows "map_of (resp_Header resp) ''X-Content-Type-Options'' = Some ''nosniff''
    \<and> map_of (resp_Header resp) ''X-Frame-Options'' = Some ''SAMEORIGIN''
    \<and> map_of (resp_Header resp) ''Referrer-Policy'' = Some ''same-origin''
    \<and> (\<forall>rt. mux_match (req_Method r) (req_EscapedPath r) = Some rt \<longrightarrow> protected rt \<longrightarrow> authenticated E s r \<longrightarrow>
         resp_Code resp \<in> {mux_slash_code E, mux_clean_code E} \<or> map_of (resp_Header resp) ''Cache-Control'' = Some ''no-store'')
    \<and> (\<forall>mid page. mux_match (req_Method r) (req_EscapedPath r) = Some (Html mid) \<longrightarrow> resp_Body resp = Content page \<longrightarrow>
         map_of (resp_Header resp) ''Content-Security-Policy'' = Some html_csp)"
proof -
  obtain resp0 where m: "mux E s r w = (Some resp0, w')" using assms by (cases "mux E s r w") (auto simp: serve_def withSecurityHeaders_def)
  show ?thesis
  proof (cases rule: mux_cases [where E = E and s = s and r = r])
    case (own resp1)
    then have "resp0 = resp1" using m by simp
    with own serve_headers [OF m assms] show ?thesis by (auto simp: router_redirect_def)
  next
    case (routed rt)
    then have d: "dispatch E s rt r w = (Some resp0, w')" using m by simp
    note h = serve_headers [OF m assms dispatch_plain [OF d]]
    have "map_of (resp_Header resp0) ''Cache-Control'' = Some ''no-store''" if "protected rt" "authenticated E s r"
      using dispatch_page [OF d that] by (auto simp: preset_header content_headers_def)
    moreover have "map_of (resp_Header resp0) ''Content-Security-Policy'' = Some html_csp" if "rt = Html mid" "resp_Body resp0 = Content page" for mid page
      using that d html_policy by (force simp: dispatch_def requireAuth_def protected_def preset_header redirect_def http_Error_def respond_def
          split: if_splits prod.splits)
    ultimately show ?thesis using h routed(2) by auto
  qed
qed

section \<open>Logging in\<close>

lemma login_route: "req_Method r \<in> {''GET'', ''POST''} \<Longrightarrow> req_EscapedPath r = ''/login'' \<Longrightarrow> mux E s r w = (Some (handleLogin E s r), w)"
  by (auto simp: mux_def Let_def cleanPath_def filepath_Clean_def strings_HasPrefix_def mux_match_def segments_def pathUnescape_def
      route_table_def method_matches_def dispatch_def protected_def page_handler_def)

lemma login_session:
  assumes "crypto_ok (we_crypto E)" and "we_nonce E = Some n" and "length n = NonceSize" and "int64_ok (we_now E + sessionMaxAge)"
    and "req_Method r = ''POST''" and "req_EscapedPath r = ''/login''" and "req_PostForm r = Some form"
  shows "\<exists>resp. serve E s r w = (Some resp, w)
    \<and> (if Values_Get form ''username'' = username s \<and> bcrypt_Matches (we_crypto E) (passwordHash s) (Values_Get form ''password'')
       then resp_Code resp = 303 \<and> map_of (resp_Header resp) ''Location'' = Some ''/'' \<and> (\<exists>c. resp_Cookies resp = [c] \<and> c_HttpOnly c
         \<and> (\<forall>E' r'. we_crypto E' = we_crypto E \<longrightarrow> Request_Cookie r' sessionCookieName = Some (c_Value c) \<longrightarrow>
              (authenticated E' s r' \<longleftrightarrow> we_now E' \<le> we_now E + sessionMaxAge \<and> CHR ''|'' \<notin> set (username s))))
       else resp_Cookies resp = [] \<and> resp_Code resp = 200)"
proof -
  let ?L = "handleLogin E s r"
  have m: "mux E s r w = (Some ?L, w)" using login_route assms(5,6) by simp
  obtain v where v: "seal (we_crypto E) s (Some n) (session_payload s (we_now E)) = Inr v" by (simp add: seal_def)
  let ?c = "session_cookie r v sessionMaxAge"
  have c: "setSessionCookie (we_crypto E) s (Some n) (we_now E) r = Inr ?c" by (simp add: setSessionCookie_def v)
  note valid = session_valid_iff [OF assms(1,3,4) c]
  show ?thesis unfolding serve_own [OF m]
    using assms(2,5,7) c valid
    by (auto simp: handleLogin_def Let_def render_def redirect_def respond_def authenticated_def session_cookie_def preset_header)
qed

text \<open>
  C9. A login grants a session, and only the right credentials do. A form posted to the login page is
  answered with a cookie exactly when the user name is the configured one and bcrypt accepts the
  password; then the client is sent to the list, and every request that carries the cookie is
  authenticated for seven days. The exception are configured user names with a vertical bar, which
  the configuration allows: their sessions are never accepted.
\<close>
theorem login_grants_session:
  assumes "crypto_ok (we_crypto E)" and "we_nonce E = Some n" and "length n = NonceSize" and "int64_ok (we_now E + sessionMaxAge)"
    and "req_Method r = ''POST''" and "req_EscapedPath r = ''/login''" and "req_PostForm r = Some form"
  shows "\<exists>resp. serve E s r w = (Some resp, w)
    \<and> (if Values_Get form ''username'' = username s \<and> bcrypt_Matches (we_crypto E) (passwordHash s) (Values_Get form ''password'')
       then resp_Code resp = 303 \<and> map_of (resp_Header resp) ''Location'' = Some ''/'' \<and> (\<exists>c. resp_Cookies resp = [c] \<and> c_HttpOnly c
         \<and> (\<forall>E' r'. we_crypto E' = we_crypto E \<longrightarrow> Request_Cookie r' sessionCookieName = Some (c_Value c) \<longrightarrow>
              (authenticated E' s r' \<longleftrightarrow> we_now E' \<le> we_now E + sessionMaxAge \<and> CHR ''|'' \<notin> set (username s))))
       else resp_Cookies resp = [] \<and> resp_Code resp = 200)"
  using assms by (rule login_session)

section \<open>Mail is lost only by deleting it\<close>

text \<open>Files directly below the root are no messages, and writing them keeps the store well formed.\<close>

lemma mails_update_top: "mails dir (AList.update (child dir n) v F) = mails dir F"
  by (auto simp: mails_def fun_eq_iff mpath_def child_def)

lemma mails_delete_top: "mails dir (AList.delete (child dir n) F) = mails dir F"
  by (auto simp: mails_def fun_eq_iff mpath_def child_def)

lemma tmp_path_child: "tmp_path (child dir n) = child dir (n @ ''.tmp'')"
  by (simp add: tmp_path_def child_def)

lemma plain_tmp: "plain n \<Longrightarrow> plain (n @ ''.tmp'')"
  by (auto simp: plain_def)

text \<open>What a save of the push service leaves alone, when its file lies directly below the store's root.\<close>

definition same_mail :: "path \<Rightarrow> fs \<Rightarrow> fs \<Rightarrow> bool" where
  "same_mail dir F G \<longleftrightarrow> mails dir G = mails dir F \<and> (store_ok dir F \<longrightarrow> store_ok dir G)"

lemma same_mail_trans: "same_mail dir F G \<Longrightarrow> same_mail dir G H \<Longrightarrow> same_mail dir F H"
  by (simp add: same_mail_def)

lemma same_mail_refl [simp]: "same_mail dir F F"
  by (simp add: same_mail_def)

lemma same_mail_update:
  "plain n \<Longrightarrow> is_dir F dir \<Longrightarrow> \<not> is_dir F (child dir n) \<Longrightarrow> same_mail dir F (AList.update (child dir n) (FileNode c) F)"
  using store_ok_update_file [of dir F "child dir n" n c] by (simp add: same_mail_def mails_update_top)

lemma same_mail_delete: "\<not> is_dir F (child dir n) \<Longrightarrow> same_mail dir F (AList.delete (child dir n) F)"
  using store_ok_delete_file [of dir F "child dir n"] by (simp add: same_mail_def mails_delete_top)

lemma WriteFile_same_mail:
  assumes "plain n" and "os_WriteFile_run W F (child dir n) data = (e, Fs)"
  shows "same_mail dir F (last (F # Fs))"
proof (cases "\<not> is_dir F (child dir n) \<and> is_dir F dir \<and> sys_fail W SysCreate (child dir n) = None")
  case True
  let ?F1 = "AList.update (child dir n) (FileNode []) F"
  have 1: "same_mail dir F ?F1" using same_mail_update [OF assms(1)] True by blast
  have d: "is_dir ?F1 dir" "\<not> is_dir ?F1 (child dir n)" using True by (auto simp: is_dir_def child_def prod_eq_iff)
  have "last (F # Fs) = snd (os_Write W ?F1 (child dir n) data)"
    using assms(2) True by (auto simp: os_WriteFile_run_def guarded_def split: option.splits prod.splits)
  then show ?thesis using same_mail_trans [OF 1 same_mail_update [OF assms(1) d]]
    by (simp add: os_Write_def split: option.splits)
next
  case False
  then have "Fs = []" using assms(2) by (auto simp: os_WriteFile_run_def guarded_def split: option.splits if_splits)
  then show ?thesis by simp
qed

lemma Rename_same_mail:
  assumes "plain n" and "os_Rename W F (child dir m) (child dir n) = Inr G"
  shows "same_mail dir F G"
proof -
  obtain c where "fs_at F (child dir m) = Some (FileNode c)" and d: "is_dir F dir" "\<not> is_dir F (child dir n)"
    and G: "G = AList.update (child dir n) (FileNode c) (AList.delete (child dir m) F)"
    using guarded_Inr [OF assms(2) [unfolded os_Rename_def]] by (auto split: option.splits node.splits if_splits)
  then have 1: "same_mail dir F (AList.delete (child dir m) F)" by (intro same_mail_delete) (simp add: is_dir_def)
  have "is_dir (AList.delete (child dir m) F) dir" "\<not> is_dir (AList.delete (child dir m) F) (child dir n)"
    using d by (auto simp: is_dir_def child_def prod_eq_iff)
  from same_mail_trans [OF 1 same_mail_update [OF assms(1) this]] show ?thesis by (simp add: G)
qed

lemma saveLocked_same_mail:
  assumes "plain n" and "sub_file svc = child dir n" and "saveLocked P W F svc = (e, G)"
  shows "same_mail dir F G"
proof (cases "json_MarshalIndent P (iter P (map snd (subs svc)))")
  case (Inl err)
  with assms(3) show ?thesis by (simp add: saveLocked_def saveLocked_run_def)
next
  case (Inr data)
  obtain we Fs where w: "os_WriteFile_run W F (child dir (n @ ''.tmp'')) data = (we, Fs)" by fastforce
  note 1 = WriteFile_same_mail [OF plain_tmp [OF assms(1)] w]
  show ?thesis
  proof (cases "we = None \<and> (\<exists>H. os_Rename W (last (F # Fs)) (child dir (n @ ''.tmp'')) (child dir n) = Inr H)")
    case True
    then obtain H where H: "os_Rename W (last (F # Fs)) (child dir (n @ ''.tmp'')) (child dir n) = Inr H" by blast
    then have "G = H" using assms(3) True Inr w
      by (auto simp: saveLocked_def saveLocked_run_def Let_def assms(2) tmp_path_child)
    with same_mail_trans [OF 1 Rename_same_mail [OF assms(1) H]] show ?thesis by simp
  next
    case False
    then have "G = last (F # Fs)" using assms(3) Inr w
      by (auto simp: saveLocked_def saveLocked_run_def Let_def assms(2) tmp_path_child split: option.splits sum.splits)
    with 1 show ?thesis by simp
  qed
qed

lemma saveLocked_subs_same_mail:
  "plain n \<Longrightarrow> sub_file svc = child dir n \<Longrightarrow> saveLocked P W F (svc\<lparr>subs := x\<rparr>) = (e, G) \<Longrightarrow> same_mail dir F G"
  using saveLocked_same_mail [of n "svc\<lparr>subs := x\<rparr>" dir P W F e G] by simp

lemma Subscribe_same_mail:
  assumes "plain n" and "sub_file svc = child dir n" and "Subscribe P W F svc body = (e, svc', G)"
  shows "same_mail dir F G \<and> sub_file svc' = sub_file svc"
  using assms(2,3) saveLocked_subs_same_mail [OF assms(1,2)]
  by (auto simp: Subscribe_def Let_def split: sum.splits prod.splits if_splits)

lemma Unsubscribe_same_mail:
  assumes "plain n" and "sub_file svc = child dir n" and "Unsubscribe P W F svc k = (e, svc', G)"
  shows "same_mail dir F G \<and> sub_file svc' = sub_file svc"
  using assms(2,3) saveLocked_subs_same_mail [OF assms(1,2)] by (auto simp: Unsubscribe_def Let_def split: prod.splits)

text \<open>Where the subscription file is: directly below the root, as \<^verbatim>\<open>main\<close> places it.\<close>

definition push_placed :: "path \<Rightarrow> service option \<Rightarrow> bool" where
  "push_placed dir p \<longleftrightarrow> (\<forall>svc. p = Some svc \<longrightarrow> (\<exists>n. plain n \<and> sub_file svc = child dir n))"

text \<open>
  The invariant of the server: the store is well formed, no message is at once read and unread, and the
  subscription file is in its place.
\<close>

definition mail_ok :: "path \<Rightarrow> fs \<Rightarrow> bool" where
  "mail_ok dir F \<longleftrightarrow> store_ok dir F \<and> (\<forall>rc i. mails dir F (rc, False, i) = None \<or> mails dir F (rc, True, i) = None)"

definition web_ok :: "web_server \<Rightarrow> web_world \<Rightarrow> bool" where
  "web_ok s w \<longleftrightarrow> mail_ok (store_root s) (ww_files w) \<and> push_placed (store_root s) (ww_push w)"

definition has_mail :: "path \<Rightarrow> fs \<Rightarrow> bytes \<Rightarrow> bytes \<Rightarrow> bytes \<Rightarrow> bool" where
  "has_mail dir F rc i c \<longleftrightarrow> mails dir F (rc, True, i) = Some c \<or> mails dir F (rc, False, i) = Some c"

lemma has_mail_ex: "has_mail dir F rc i c \<longleftrightarrow> (\<exists>u. mails dir F (rc, u, i) = Some c)"
  unfolding has_mail_def by (metis (full_types))

lemma same_mail_ok: "same_mail dir F G \<Longrightarrow> mail_ok dir F \<Longrightarrow> mail_ok dir G \<and> has_mail dir G rc i c = has_mail dir F rc i c"
  by (auto simp: same_mail_def mail_ok_def has_mail_def)

lemma open_mail_ok:
  assumes "mail_ok dir F" and "Store_Open W dir F j = (res, G)"
  shows "mail_ok dir G" and "has_mail dir G rc i c = has_mail dir F rc i c"
proof -
  have ok: "store_ok dir F" and u: "\<And>rc. mails dir F (rc, False, j) = None \<or> mails dir F (rc, True, j) = None"
    using assms(1) by (auto simp: mail_ok_def)
  have md: "md_open (T, W) (dir, F) j = (res, (dir, G))" for T using assms(2) by (simp add: md_open_def)
  show "has_mail dir G rc i c = has_mail dir F rc i c"
    using maildir.open_keeps_messages [of "(dir, F)" "(ascii_utab, W)" j res "(dir, G)"] ok u md by (simp add: has_mail_ex)
  have "mails dir G (rc, False, i) = None \<or> mails dir G (rc, True, i) = None" for rc i
  proof (cases res)
    case (Inl e)
    then have "G = F" using maildir.open_err [of "(dir, F)" "(ascii_utab, W)" j e "(dir, G)"] ok md by simp
    with assms(1) show ?thesis by (simp add: mail_ok_def)
  next
    case (Inr raw)
    with maildir.open_ok [of "(dir, F)" "(ascii_utab, W)" j raw "(dir, G)"] ok md assms(1) show ?thesis
      by (fastforce simp: mail_ok_def)
  qed
  then show "mail_ok dir G" using Store_Open_store_ok [OF ok assms(2)] by (simp add: mail_ok_def)
qed

lemma delete_mail_ok:
  assumes "mail_ok dir F" and "Store_Delete W dir F j = (res, G)"
  shows "mail_ok dir G" and "i \<noteq> j \<Longrightarrow> has_mail dir G rc i c = has_mail dir F rc i c"
proof -
  have ok: "store_ok dir F" using assms(1) by (simp add: mail_ok_def)
  have md: "md_delete (T, W) (dir, F) j = (res, (dir, G))" for T using assms(2) by (simp add: md_delete_def)
  show "has_mail dir G rc i c = has_mail dir F rc i c" if "i \<noteq> j"
    using maildir.delete_keeps_others [of "(dir, F)" "(ascii_utab, W)" j res "(dir, G)" i] ok md that by (simp add: has_mail_def)
  have "mails dir G (rc, False, i) = None \<or> mails dir G (rc, True, i) = None" for rc i
  proof (cases res)
    case (Some e)
    then have "G = F" using maildir.delete_err [of "(dir, F)" "(ascii_utab, W)" j e "(dir, G)"] ok md by simp
    with assms(1) show ?thesis by (simp add: mail_ok_def)
  next
    case None
    then obtain r u where G: "mails dir G = (mails dir F)((r, u, j) := None)"
      using maildir.delete_ok [of "(dir, F)" "(ascii_utab, W)" j "(dir, G)"] ok md by auto
    have "mails dir F (rc, False, i) = None \<or> mails dir F (rc, True, i) = None" using assms(1) by (simp add: mail_ok_def)
    then show ?thesis unfolding G by auto
  qed
  then show "mail_ok dir G" using Store_Delete_store_ok [OF ok assms(2)] by (simp add: mail_ok_def)
qed

text \<open>What the handlers do to the state.\<close>

lemma opening_states:
  "snd (handleView E s mid r w) = w\<lparr>ww_files := snd (Store_Open (we_os E) (store_root s) (ww_files w) mid)\<rparr>"
  "snd (handleHTML E s mid r w) = w\<lparr>ww_files := snd (Store_Open (we_os E) (store_root s) (ww_files w) mid)\<rparr>"
  "snd (handleAttach E s mid n r w) = w\<lparr>ww_files := snd (Store_Open (we_os E) (store_root s) (ww_files w) mid)\<rparr>"
  by (simp_all add: handleView_def handleHTML_def handleAttach_def Let_def split: prod.split sum.split option.split)

lemma handleList_state: "snd (handleList E s r w) = w"
  by (simp add: handleList_def split: sum.split option.split prod.split)

lemma handleDelete_state: "snd (handleDelete E s mid r w) = w\<lparr>ww_files := snd (Store_Delete (we_os E) (store_root s) (ww_files w) mid)\<rparr>"
  by (simp add: handleDelete_def split: prod.split option.split)

lemma push_states:
  assumes "w' \<in> {snd (handlePushSubscribe E r w), snd (handlePushUnsubscribe E r w)}"
    and "\<And>svc. ww_push w = Some svc \<Longrightarrow> \<exists>n. plain n \<and> sub_file svc = child dir n"
  shows "w' = w \<or> (\<exists>G svc svc'. w' = w\<lparr>ww_files := G, ww_push := Some svc'\<rparr> \<and> ww_push w = Some svc
    \<and> same_mail dir (ww_files w) G \<and> sub_file svc' = sub_file svc)"
proof (cases "ww_push w")
  case None
  with assms(1) show ?thesis by (auto simp: handlePushSubscribe_def handlePushUnsubscribe_def)
next
  case (Some svc)
  then obtain n where n: "plain n" "sub_file svc = child dir n" using assms(2) by blast
  consider "w' = w" | body where "w' = w\<lparr>ww_files := snd (snd (Subscribe (we_push E) (we_os E) (ww_files w) svc body)),
        ww_push := Some (fst (snd (Subscribe (we_push E) (we_os E) (ww_files w) svc body)))\<rparr>"
    | k where "w' = w\<lparr>ww_files := snd (snd (Unsubscribe (we_push E) (we_os E) (ww_files w) svc k)),
        ww_push := Some (fst (snd (Unsubscribe (we_push E) (we_os E) (ww_files w) svc k)))\<rparr>"
    using assms(1) Some
    by (auto simp: handlePushSubscribe_def handlePushUnsubscribe_def case_prod_beta split: option.splits if_splits)
  then show ?thesis
  proof cases
    case 2
    with Some Subscribe_same_mail [OF n, of "we_push E" "we_os E" "ww_files w" body] show ?thesis by (metis prod.collapse)
  next
    case 3
    with Some Unsubscribe_same_mail [OF n, of "we_push E" "we_os E" "ww_files w" k] show ?thesis by (metis prod.collapse)
  qed simp
qed

text \<open>The four ways a handler leaves the state.\<close>

lemma page_handler_effect:
  assumes "push_placed (store_root s) (ww_push w)" and "w' = snd (page_handler E s rt r w)"
  obtains (same) "w' = w"
  | (opened) mid res G where "w' = w\<lparr>ww_files := G\<rparr>" and "Store_Open (we_os E) (store_root s) (ww_files w) mid = (res, G)"
  | (deleted) mid res G where "rt = DeleteRoute mid" and "w' = w\<lparr>ww_files := G\<rparr>"
      and "Store_Delete (we_os E) (store_root s) (ww_files w) mid = (res, G)"
  | (pushed) G svc svc' where "w' = w\<lparr>ww_files := G, ww_push := Some svc'\<rparr>" and "ww_push w = Some svc"
      and "same_mail (store_root s) (ww_files w) G" and "sub_file svc' = sub_file svc"
proof -
  have push: "\<exists>n. plain n \<and> sub_file svc = child (store_root s) n" if "ww_push w = Some svc" for svc
    using assms(1) that by (simp add: push_placed_def)
  consider "w' = w" | mid where "w' = w\<lparr>ww_files := snd (Store_Open (we_os E) (store_root s) (ww_files w) mid)\<rparr>"
    | mid where "rt = DeleteRoute mid" "w' = w\<lparr>ww_files := snd (Store_Delete (we_os E) (store_root s) (ww_files w) mid)\<rparr>"
    | "w' \<in> {snd (handlePushSubscribe E r w), snd (handlePushUnsubscribe E r w)}"
    using public_handler [of rt E s r] assms(2)
    by (cases rt) (auto simp: page_handler_def protected_def opening_states handleList_state handleDelete_state withCache_def)
  then show ?thesis
  proof cases
    case 4
    from push_states [OF this push] consider "w' = w" | G svc svc' where "w' = w\<lparr>ww_files := G, ww_push := Some svc'\<rparr>"
      "ww_push w = Some svc" "same_mail (store_root s) (ww_files w) G" "sub_file svc' = sub_file svc" by blast
    then show ?thesis by cases (use same pushed in blast)+
  qed (use same opened deleted surjective_pairing in blast)+
qed

text \<open>One handler keeps the invariant, and every message unless it is the one that deletes it.\<close>

lemma page_handler_keeps:
  assumes "web_ok s w" and "w' = snd (page_handler E s rt r w)"
  shows "web_ok s w' \<and> (rt \<noteq> DeleteRoute i \<longrightarrow> has_mail (store_root s) (ww_files w) rc i c \<longrightarrow> has_mail (store_root s) (ww_files w') rc i c)"
proof -
  have ok: "mail_ok (store_root s) (ww_files w)" and push: "push_placed (store_root s) (ww_push w)"
    using assms(1) by (simp_all add: web_ok_def push_placed_def)
  from push assms(2) show ?thesis
  proof (cases rule: page_handler_effect)
    case same
    with assms(1) show ?thesis by simp
  next
    case (opened mid res G)
    with open_mail_ok [OF ok opened(2)] assms(1) show ?thesis by (simp add: web_ok_def)
  next
    case (deleted mid res G)
    with delete_mail_ok [OF ok deleted(3)] assms(1) show ?thesis by (auto simp: web_ok_def)
  next
    case (pushed G svc svc')
    with same_mail_ok [OF pushed(3) ok] push show ?thesis by (auto simp: web_ok_def push_placed_def)
  qed
qed

text \<open>And no handler invents mail.\<close>

lemma page_handler_invents_nothing:
  assumes "store_ok (store_root s) (ww_files w)" and "push_placed (store_root s) (ww_push w)"
    and "w' = snd (page_handler E s rt r w)"
  shows "store_ok (store_root s) (ww_files w') \<and> push_placed (store_root s) (ww_push w')
    \<and> (has_mail (store_root s) (ww_files w') rc i c \<longrightarrow> has_mail (store_root s) (ww_files w) rc i c)"
  using assms(2,3)
proof (cases rule: page_handler_effect)
  case same
  with assms(1,2) show ?thesis by simp
next
  case (opened mid res G)
  have md: "md_open (ascii_utab, we_os E) (store_root s, ww_files w) mid = (res, (store_root s, G))"
    using opened(2) by (simp add: md_open_def)
  have "has_mail (store_root s) G rc i c \<Longrightarrow> has_mail (store_root s) (ww_files w) rc i c"
    using maildir.open_err [of "(store_root s, ww_files w)" "(ascii_utab, we_os E)" mid _ "(store_root s, G)"]
      maildir.open_ok [of "(store_root s, ww_files w)" "(ascii_utab, we_os E)" mid _ "(store_root s, G)"] md assms(1)
    by (cases res) (fastforce simp: has_mail_ex split: if_splits)+
  with opened assms(1,2) Store_Open_store_ok [OF assms(1) opened(2)] show ?thesis by simp
next
  case (deleted mid res G)
  have "mails (store_root s) G k = Some c \<Longrightarrow> mails (store_root s) (ww_files w) k = Some c" for k
    using assms(1) deleted(3) by (cases rule: Store_Delete_cases) (auto split: if_splits)
  with deleted assms(1,2) Store_Delete_store_ok [OF assms(1) deleted(3)] show ?thesis by (auto simp: has_mail_def)
next
  case (pushed G svc svc')
  with assms(1,2) show ?thesis by (auto simp: same_mail_def push_placed_def has_mail_def)
qed

lemma serve_keeps:
  assumes "web_ok s w"
  shows "web_ok s (snd (serve E s r w))"
    and "\<not> (authenticated E s r \<and> mux_match (req_Method r) (req_EscapedPath r) = Some (DeleteRoute i)) \<Longrightarrow>
      has_mail (store_root s) (ww_files w) rc i c \<Longrightarrow> has_mail (store_root s) (ww_files (snd (serve E s r w))) rc i c"
proof -
  let ?keep = "\<lambda>w'. web_ok s w' \<and> (\<not> (authenticated E s r \<and> mux_match (req_Method r) (req_EscapedPath r) = Some (DeleteRoute i)) \<longrightarrow>
      has_mail (store_root s) (ww_files w) rc i c \<longrightarrow> has_mail (store_root s) (ww_files w') rc i c)"
  have "?keep (snd (serve E s r w))"
  proof (cases rule: mux_cases [where E = E and s = s and r = r])
    case (own resp)
    with assms show ?thesis by (simp add: serve_state)
  next
    case (routed rt)
    show ?thesis
    proof (cases "authenticated E s r")
      case True
      then have "snd (mux E s r w) = snd (page_handler E s rt r w)"
        using routed(1) by (simp add: dispatch_def requireAuth_def split: prod.split)
      with page_handler_keeps [OF assms, of _ E rt r i rc c] True routed(2) show ?thesis by (auto simp: serve_state)
    next
      case False
      obtain resp where "\<And>w. dispatch E s rt r w = (Some resp, w)" using dispatch_unauthenticated [OF False] by blast
      with routed(1) assms show ?thesis by (simp add: serve_state)
    qed
  qed
  then show "web_ok s (snd (serve E s r w))"
    and "\<not> (authenticated E s r \<and> mux_match (req_Method r) (req_EscapedPath r) = Some (DeleteRoute i)) \<Longrightarrow>
      has_mail (store_root s) (ww_files w) rc i c \<Longrightarrow> has_mail (store_root s) (ww_files (snd (serve E s r w))) rc i c"
    by blast+
qed

lemma serve_invents_nothing:
  assumes "store_ok (store_root s) (ww_files w)" and "push_placed (store_root s) (ww_push w)" and "w' = snd (serve E s r w)"
  shows "store_ok (store_root s) (ww_files w') \<and> push_placed (store_root s) (ww_push w')
    \<and> (has_mail (store_root s) (ww_files w') rc i c \<longrightarrow> has_mail (store_root s) (ww_files w) rc i c)"
proof -
  have "w' = w \<or> (\<exists>rt. w' = snd (page_handler E s rt r w))"
  proof (cases rule: mux_cases [where E = E and s = s and r = r])
    case (own resp)
    with assms(3) show ?thesis by (simp add: serve_state)
  next
    case (routed rt)
    have "snd (dispatch E s rt r w) \<in> {w, snd (page_handler E s rt r w)}"
      by (simp add: dispatch_def requireAuth_def split: prod.split)
    with assms(3) routed(1) show ?thesis by (auto simp: serve_state)
  qed
  with page_handler_invents_nothing [OF assms(1,2)] assms(1,2) show ?thesis by blast
qed

text \<open>Any number of requests, each in its own circumstances; which of them delete a given message.\<close>

fun serve_all :: "web_server \<Rightarrow> (web_env \<times> request) list \<Rightarrow> web_world \<Rightarrow> web_world" where
  "serve_all s [] w = w"
| "serve_all s ((E, r) # qs) w = serve_all s qs (snd (serve E s r w))"

definition deletes :: "web_server \<Rightarrow> bytes \<Rightarrow> web_env \<times> request \<Rightarrow> bool" where
  "deletes s i q = (case q of (E, r) \<Rightarrow>
     authenticated E s r \<and> mux_match (req_Method r) (req_EscapedPath r) = Some (DeleteRoute i))"

text \<open>
  Mail is lost only by deleting it. Through any sequence of requests, of any clients and with
  any faults of the operating system, the store stays well formed, and a message that was in it is
  still there, read or unread, with the same bytes, unless one of the requests is a deletion of
  its id by an authenticated client.
\<close>
lemma mail_lost_only_by_delete:
  assumes "web_ok s w" and "has_mail (store_root s) (ww_files w) rc i c" and "list_all (\<lambda>q. \<not> deletes s i q) qs"
  shows "web_ok s (serve_all s qs w) \<and> has_mail (store_root s) (ww_files (serve_all s qs w)) rc i c"
  using assms
proof (induction s qs w rule: serve_all.induct)
  case (2 s E r qs w)
  then have "\<not> (authenticated E s r \<and> mux_match (req_Method r) (req_EscapedPath r) = Some (DeleteRoute i))"
    by (simp add: deletes_def)
  with 2 serve_keeps [OF 2(2)] show ?case by simp
qed simp

section \<open>Viewing a message\<close>

lemma percent_decode_plain: "CHR ''%'' \<notin> set s \<Longrightarrow> percent_decode s = Some s"
  by (induction s rule: percent_decode.induct) auto

lemma cleanPath_mail: "plain i \<Longrightarrow> cleanPath (''/mail/'' @ i) = ''/mail/'' @ i"
proof -
  assume i: "plain i"
  have "strings_Split (''/mail/'' @ i) SLASH = [[], ''mail'', i]"
    using i strings_Split_absent [of SLASH i] by (simp add: plain_def)
  moreover have "i \<noteq> []" "last i \<noteq> SLASH" using i by (auto simp: plain_def dest: last_in_set)
  ultimately show ?thesis using i
    by (simp add: cleanPath_def filepath_Clean_def strings_HasPrefix_def Let_def plain_def)
qed

lemma view_route:
  assumes "plain i" and "CHR ''%'' \<notin> set i" and "req_Method r = ''GET''" and "req_EscapedPath r = ''/mail/'' @ i"
  shows "mux E s r w = dispatch E s (View i) r w"
proof -
  have "segments (''/mail/'' @ i) = [''mail'', i]"
    using assms(1,2) percent_decode_plain strings_Split_absent [of SLASH i]
    by (simp add: segments_def pathUnescape_def plain_def)
  then have "mux_match ''GET'' (''/mail/'' @ i) = Some (View i)"
    using assms(1) by (auto simp: mux_match_def route_table_def method_matches_def plain_def wildcard_def)
  then show ?thesis using assms(3,4) cleanPath_mail [OF assms(1)] by (simp add: mux_def Let_def)
qed

text \<open>
  C18. Viewing shows the message and marks it read. When an authenticated client follows the link of a
  stored message that is the only one of its id, the page shows that id, the spam mark of its own
  headers, the text part, or the text of the HTML body when there is no text part, and its
  attachments; the message is then the same, read, and nothing else in the mailbox has changed.
\<close>
theorem view_shows_message:
  assumes "store_ok (store_root s) (ww_files w)" and "no_faults (we_os E)" and "only_copy (store_root s) (ww_files w) (rc, u, i)"
    and "validID i" and "CHR ''%'' \<notin> set i" and "mails (store_root s) (ww_files w) (rc, u, i) = Some raw"
    and "is_dir (ww_files w) (child (child (store_root s) rc) ''cur'')"
    and "authenticated E s r" and "req_Method r = ''GET''" and "req_EscapedPath r = ''/mail/'' @ i"
  shows "\<exists>resp d txt html w'. serve E s r w = (Some resp, w') \<and> resp_Code resp = 200 \<and> resp_Body resp = ViewPage d
    \<and> vd_ID d = i \<and> vd_Spam d = strings_Contains (Header_Get (headerOf raw) ''X-Spam-Status'') ''action=spam''
    \<and> walkMessage (we_mime E) raw = Some (txt, html, vd_Attach d) \<and> vd_HasHTML d = (html \<noteq> [])
    \<and> vd_TextBody d = (if txt = [] \<and> html \<noteq> [] then htmlToText (we_html_Parse E) html else txt)
    \<and> mails (store_root s) (ww_files w') = (mails (store_root s) (ww_files w))((rc, u, i) := None, (rc, False, i) \<mapsto> raw)"
proof -
  obtain G where G: "Store_Open (we_os E) (store_root s) (ww_files w) i = (Inr raw, G)"
    and m: "mails (store_root s) G = (mails (store_root s) (ww_files w))((rc, u, i) := None, (rc, False, i) \<mapsto> raw)"
    using Store_Open_only [OF assms(1-4,6,7)] by blast
  obtain tx html att where w: "walkMessage (we_mime E) raw = Some (tx, html, att)" using walkMessage_total by blast
  note v = view_route [OF validID_plain [OF assms(4)] assms(5,9,10), of E s w]
  show ?thesis unfolding serve_def withSecurityHeaders_def v
    using assms(8) G m w by (auto simp: dispatch_def protected_def requireAuth_def page_handler_def handleView_def Let_def render_def respond_def)
qed

section \<open>Samples\<close>

definition sample_web_env :: web_env where
  "sample_web_env = \<lparr>we_utab = ascii_utab, we_os = sample_os, we_mail = sample_mail_env, we_mime = sample_mime, we_push = sample_push_env,
     we_crypto = sample_crypto, we_i18n = sample_i18n, we_time = \<lparr>local_Date = \<lambda>t. (t, 0, 0), local_Format = \<lambda>_ f. f\<rparr>,
     we_DecodeHeader = \<lambda>_. None, we_html_Parse = \<lambda>_. None, we_json_endpoint = \<lambda>_. None, we_io_text = \<lambda>_. ''io'',
     we_push_text = \<lambda>_. ''push'', http_FileServer = \<lambda>_. (200, []), http_ServeContent = \<lambda>_ b. (200, b), mux_slash_code = 301, mux_clean_code = 301, we_now = 1000,
     we_nonce = Some ''123456789012''\<rparr>"

definition sample_server :: web_server where
  "sample_server = web_New sample_root ''admin'' ''$2a$'' ''sw'' ''r1'' 0"

definition sample_login :: request where
  "sample_login = sample_get\<lparr>req_Method := ''POST'', req_Path := ''/login'', req_EscapedPath := ''/login'',
     req_PostForm := Some [(''username'', ''admin''), (''password'', ''pw'')]\<rparr>"

lemma sample_no_session: "\<not> authenticated sample_web_env sample_server sample_get"
  by (simp add: authenticated_def Request_Cookie_def sample_get_def)

theorem response_headers_witness:
  "\<exists>resp w'. serve sample_web_env sample_server sample_get \<lparr>ww_files = [], ww_push = None\<rparr> = (Some resp, w')
     \<and> map_of (resp_Header resp) ''X-Frame-Options'' = Some ''SAMEORIGIN''"
proof -
  have d: "mux sample_web_env sample_server sample_get w = (Some (redirect ''/login'' NoBody), w)" for w
    using sample_no_session
    by (simp add: mux_def Let_def cleanPath_def filepath_Clean_def strings_HasPrefix_def mux_match_def segments_def pathUnescape_def
        route_table_def method_matches_def dispatch_def protected_def requireAuth_def sample_get_def)
  from serve_own [OF this] response_headers show ?thesis by blast
qed

theorem login_grants_session_witness:
  "\<exists>resp c. serve sample_web_env sample_server sample_login \<lparr>ww_files = [], ww_push = None\<rparr> = (Some resp, \<lparr>ww_files = [], ww_push = None\<rparr>)
     \<and> resp_Cookies resp = [c] \<and> authenticated sample_web_env sample_server (sample_get\<lparr>req_Cookies := [(sessionCookieName, c_Value c)]\<rparr>)"
proof -
  have l: "length ''123456789012'' = NonceSize" by (simp add: NonceSize_def)
  have c: "crypto_ok (we_crypto sample_web_env)" using sample_crypto_ok by (simp add: sample_web_env_def)
  have k: "Values_Get [(''username'', ''admin''), (''password'', ''pw'')] ''username'' = username sample_server"
    "bcrypt_Matches (we_crypto sample_web_env) (passwordHash sample_server) (Values_Get [(''username'', ''admin''), (''password'', ''pw'')] ''password'')"
    "CHR ''|'' \<notin> set (username sample_server)" "we_now sample_web_env = 1000" "we_nonce sample_web_env = Some ''123456789012''"
    by (simp_all add: Values_Get_def sample_server_def web_New_def sample_web_env_def sample_crypto_def)
  have q: "Request_Cookie (sample_get\<lparr>req_Cookies := [(sessionCookieName, v)]\<rparr>) sessionCookieName = Some v" for v
    by (simp add: Request_Cookie_def)
  from login_grants_session [OF c k(5) l, of sample_login _ sample_server "\<lparr>ww_files = [], ww_push = None\<rparr>"] k(1-4) q
  show ?thesis by (fastforce simp: sample_login_def int64_ok_def sessionMaxAge_def)
qed

text \<open>A store with one message, and a request of a client that is logged in.\<close>

definition sample_web_world :: web_world where
  "sample_web_world = \<lparr>ww_files = sample_fs, ww_push = None\<rparr>"

theorem unauthenticated_sees_nothing_witness:
  "\<exists>resp. (\<forall>w. serve sample_web_env sample_server sample_get w = (Some resp, w))
     \<and> resp_Code resp = 303 \<and> map_of (resp_Header resp) ''Location'' = Some ''/login'' \<and> resp_Body resp = NoBody"
proof -
  have "mux_match (req_Method sample_get) (req_EscapedPath sample_get) = Some ListRoute" "protected ListRoute"
    "cleanPath (req_EscapedPath sample_get) = req_EscapedPath sample_get" "\<not> strings_HasPrefix (req_Path sample_get) ''/api/''"
    by (simp_all add: sample_get_def cleanPath_def filepath_Clean_def strings_HasPrefix_def mux_match_def segments_def
        pathUnescape_def route_table_def method_matches_def protected_def)
  with unauthenticated_sees_nothing [OF sample_no_session] show ?thesis by auto
qed

definition sample_view :: request where
  "sample_view = sample_get\<lparr>req_Path := ''/mail/7'', req_EscapedPath := ''/mail/7'',
     req_Cookies := [(sessionCookieName, base64_EncodeToString (''123456789012'' @ ''K123456789012admin|9999''))]\<rparr>"

lemma sample_view_authenticated: "authenticated sample_web_env sample_server sample_view"
proof -
  let ?v = "base64_EncodeToString (''123456789012'' @ ''K123456789012admin|9999'')"
  have "base64_DecodeString ?v = Some (''123456789012'' @ ''K123456789012admin|9999'')" by (rule base64_roundtrip)
  then have "validSession sample_crypto sample_server 1000 ?v"
    by (simp add: validSession_def open_value_def NonceSize_def sessionKey_def sample_crypto_def sample_server_def web_New_def
        strings_Cut_def strconv_ParseInt_def split_sign_def is_digit_def)
  then show ?thesis by (simp add: authenticated_def Request_Cookie_def sample_view_def sample_web_env_def)
qed

lemma sample_mail: "mails sample_root sample_fs k = (if k = (''a@b'', False, ''7'') then Some ''hi'' else None)"
  by (cases k) (auto simp: mails_def mpath_def child_def sample_root_def sample_fs_def subdir_def)

theorem view_shows_message_witness:
  "\<exists>resp d w'. serve sample_web_env sample_server sample_view sample_web_world = (Some resp, w') \<and> resp_Body resp = ViewPage d \<and> vd_ID d = ''7''"
proof -
  have e: "ww_files sample_web_world = sample_fs" "store_root sample_server = sample_root" "we_os sample_web_env = sample_os"
    by (simp_all add: sample_web_world_def sample_server_def web_New_def sample_web_env_def)
  have o: "only_copy sample_root sample_fs (''a@b'', False, ''7'')"
    by (auto simp: only_copy_def mpath_def child_def sample_root_def sample_fs_def subdir_def split: if_splits)
  have v: "validID ''7''" "CHR ''%'' \<notin> set ''7''" by (simp_all add: validID_def strings_ContainsAny_def)
  have d: "is_dir sample_fs (child (child sample_root ''a@b'') ''cur'')" by (simp add: is_dir_def child_def sample_root_def sample_fs_def)
  from view_shows_message [of sample_server sample_web_world sample_web_env, unfolded e,
      OF sample_fs_ok _ o v _ d sample_view_authenticated, of "''hi''"]
  show ?thesis by (auto simp: sample_mail sample_view_def sample_get_def)
qed

end
