(* ===== verification/Program.thy ===== *)
theory Program
  imports SmtpServer Tls WebProps
begin

text \<open>
  How the parts are put together: \<^verbatim>\<open>ListenAndServe\<close> of smtpserver/server.go, which configures the SMTP
  library, and main.go, which builds the push service, the receiver and the web server on one data
  directory and turns a delivered message into a notification; then the running program as a step
  relation. The command line and the end of the process are in \<open>Entry\<close>.
\<close>

section \<open>The SMTP server\<close>

text \<open>A cleaned path as a string.\<close>

definition path_string :: "path \<Rightarrow> bytes" where
  "path_string p =
     (if fst p then SLASH # strings_Join (snd p) ''/'' else if snd p = [] then ''.'' else strings_Join (snd p) ''/'')"

text \<open>The fields set on the library's server, with the TLS minimum version 1.2 when there is a reloader.\<close>

record smtp_server =
  srv_Backend :: options
  srv_Addr :: bytes
  srv_Domain :: bytes
  srv_MaxMessageBytes :: nat
  srv_MaxRecipients :: nat
  srv_TLSConfig :: "(cert_reloader \<times> nat) option"

definition tls12 :: nat where
  "tls12 = 0x0303"

text \<open>\<^verbatim>\<open>ListenAndServe\<close> up to the call that listens.\<close>

definition smtp_configure ::
  "tls_env \<Rightarrow> tls_env \<Rightarrow> tls_env \<Rightarrow> bytes \<Rightarrow> options \<Rightarrow> tls_error + smtp_server" where
  "smtp_configure E1 E2 E3 addr os =
     (let s = \<lparr>srv_Backend = os, srv_Addr = addr, srv_Domain = opt_Domain os, srv_MaxMessageBytes = MaxMessageBytes,
               srv_MaxRecipients = 50, srv_TLSConfig = None\<rparr> in
      if opt_TLSCertDir os \<noteq> [] then
        (let dir = filepath_Clean (opt_TLSCertDir os) in
         case NewCertReloader E1 E2 E3 (path_string (filepath_Join dir [opt_Domain os @ ''.crt'']))
                (path_string (filepath_Join dir [opt_Domain os @ ''.key''])) of
           Inl e \<Rightarrow> Inl e
         | Inr cr \<Rightarrow> Inr (s\<lparr>srv_TLSConfig := Some (cr, tls12)\<rparr>))
      else Inr s)"

section \<open>main\<close>

definition push_file :: "config \<Rightarrow> path" where
  "push_file c = filepath_Join (filepath_Clean (DataDir c)) [''push_subscriptions.json'']"

definition main_push :: "push_env \<Rightarrow> os_env \<Rightarrow> fs \<Rightarrow> config \<Rightarrow> (push_error + service option) \<times> fs" where
  "main_push P W F c =
     (case Config.Push (Config.Web c) of
        None \<Rightarrow> (Inr None, F)
      | Some p \<Rightarrow>
          (case New P W F (push_file c) (VapidPublicKey p) (VapidPrivateKey p) (''mailto:postmaster@'' @ Domain c) of
             (Inl e, F') \<Rightarrow> (Inl e, F')
           | (Inr svc, F') \<Rightarrow> (Inr (Some svc), F')))"

text \<open>What the build and the start of the process add: the embedded service worker, the revision, the time.\<close>

record build =
  embedded_sw :: bytes
  assetVersion :: bytes
  start_time :: int

definition main_web :: "config \<Rightarrow> build \<Rightarrow> web_server" where
  "main_web c b =
     web_New (filepath_Clean (DataDir c)) (Username (Config.Web c)) (PasswordBcrypt (Config.Web c))
       (embedded_sw b) (assetVersion b) (start_time b)"

text \<open>
  \<^verbatim>\<open>notifyPush\<close>. Its decoder's errors are ignored, which leaves the empty string; the titles are
  the ones for Chinese and English clients.
\<close>

definition titleZH :: bytes where
  "titleZH = [CHR 0xE6, CHR 0x96, CHR 0xB0, CHR 0xE9, CHR 0x82, CHR 0xAE, CHR 0xE4, CHR 0xBB, CHR 0xB6]"

definition titleEN :: bytes where
  "titleEN = ''New mail''"

definition word_decode :: "(bytes \<Rightarrow> bytes option) \<Rightarrow> bytes \<Rightarrow> bytes" where
  "word_decode D s = (case D s of Some d \<Rightarrow> d | None \<Rightarrow> [])"

definition notify_body :: "(bytes \<Rightarrow> bytes option) \<Rightarrow> mail_env \<Rightarrow> bytes \<Rightarrow> bytes" where
  "notify_body D M raw =
     (let (from, subject) =
        (case mail_ReadMessage raw of
           None \<Rightarrow> ([], [])
         | Some (h, _) \<Rightarrow>
             ((case ParseAddress M (Header_Get h ''From'') of
                 Some (name0, address) \<Rightarrow>
                   (let name = word_decode D name0 in if name \<noteq> [] then name @ '' <'' @ address @ ''>'' else address)
               | None \<Rightarrow> word_decode D (Header_Get h ''From'')),
              word_decode D (Header_Get h ''Subject'')))
      in if subject \<noteq> [] then (if from \<noteq> [] then from @ [LF] else from) @ subject else from)"

definition notifyPush ::
  "push_env \<Rightarrow> (nat \<Rightarrow> os_env) \<Rightarrow> (subscription list \<Rightarrow> subscription list) \<Rightarrow> (bytes \<Rightarrow> bytes option) \<Rightarrow> mail_env \<Rightarrow> bytes \<Rightarrow>
   service \<times> fs \<Rightarrow> service \<times> fs" where
  "notifyPush P Ws arrival D M raw st = Notify P Ws arrival titleZH titleEN (notify_body D M raw) st"

section \<open>Starting up\<close>

lemma push_file_child: "push_file c = child (filepath_Clean (DataDir c)) ''push_subscriptions.json''"
  by (simp add: push_file_def plain_def)

lemma New_file: "New P W F p pub priv sbr = (Inr svc, F') \<Longrightarrow> sub_file svc = p"
  by (auto simp: New_def Let_def split: if_splits sum.splits io_error.splits)

lemma MkdirAll_root_same_mail:
  assumes "os_MkdirAll W F dir = Inr G"
  shows "same_mail dir F G"
proof -
  have m: "mkdir_all F (fst dir) [] (snd dir) = Inr G" using assms by (auto simp: os_MkdirAll_def dest: guarded_Inr)
  have below: "fs_at G (child q n) = fs_at F (child q n)" if "under dir q" for q n
  proof (cases "fs_at F (child q n)")
    case (Some v)
    with mkdir_all_keeps [OF m Some] show ?thesis by simp
  next
    case None
    have "length (snd (child q n)) > length (snd dir)" using that by (auto simp: under_def child_def dest: prefix_length_le)
    then have "\<not> prefix (snd (child q n)) (snd dir)" by (auto dest: prefix_length_le)
    with mkdir_all_new [OF m None] None show ?thesis by (cases "fs_at G (child q n)") auto
  qed
  have keep: "is_dir F q \<Longrightarrow> is_dir G q" for q using mkdir_all_keeps [OF m] by (simp add: is_dir_def)
  have "mails dir G = mails dir F"
    using below [of "child (child dir _) _"] by (auto simp: mails_def mpath_def fun_eq_iff)
  moreover have "store_ok dir G" if "store_ok dir F"
    unfolding store_ok_def using store_okD [OF that] mkdir_all_wf [OF m] below keep by auto
  ultimately show ?thesis by (simp add: same_mail_def)
qed

lemma main_push_placed:
  assumes "main_push P W F c = (Inr p, G)"
  shows "same_mail (filepath_Clean (DataDir c)) F G \<and> push_placed (filepath_Clean (DataDir c)) p"
proof (cases "Config.Push (Config.Web c)")
  case None
  with assms show ?thesis by (auto simp: main_push_def push_placed_def)
next
  case (Some k)
  then obtain svc where n: "New P W F (push_file c) (VapidPublicKey k) (VapidPrivateKey k) (''mailto:postmaster@'' @ Domain c) = (Inr svc, G)"
    and p: "p = Some svc" using assms by (auto simp: main_push_def split: prod.splits sum.splits)
  have "os_MkdirAll W F (filepath_Clean (DataDir c)) = Inr G"
    using n by (auto simp: New_def Let_def push_file_child split: if_splits sum.splits io_error.splits)
  moreover have "plain ''push_subscriptions.json''" by (simp add: plain_def)
  ultimately show ?thesis using MkdirAll_root_same_mail New_file [OF n] p
    by (auto simp: push_placed_def push_file_child)
qed

section \<open>The running program\<close>

text \<open>
  The state of the program: the SMTP sessions by connection, the files, the delivered messages whose
  notification has not run yet, and the push service. The receiver, the web server and the
  notifications work on the same files and the same service, in any order.
\<close>

type_synonym system = "(nat \<Rightarrow> session option) \<times> fs \<times> bytes list \<times> service option"

text \<open>What is done in a step.\<close>

datatype act = SmtpAct | WebAct web_env request | NotifyAct bytes

inductive sys_act :: "bool \<Rightarrow> auth_env \<Rightarrow> config \<Rightarrow> build \<Rightarrow> act \<Rightarrow> system \<Rightarrow> system \<Rightarrow> bool"
  for whole E c bd where
  smtp: "smtp_step whole E (smtp_options (env_utab E) c) (ss, \<lparr>files = F, notified = q\<rparr>) (ss', \<lparr>files = F', notified = q'\<rparr>) \<Longrightarrow>
    sys_act whole E c bd SmtpAct (ss, F, q, p) (ss', F', q', p)"
| web: "serve WE (main_web c bd) r \<lparr>ww_files = F, ww_push = p\<rparr> = (resp, \<lparr>ww_files = F', ww_push = p'\<rparr>) \<Longrightarrow>
    sys_act whole E c bd (WebAct WE r) (ss, F, q, p) (ss, F', q, p')"
| notify: "raw \<in> set q \<Longrightarrow> notifyPush P Ws arrival D M raw (svc, F) = (svc', F') \<Longrightarrow>
    sys_act whole E c bd (NotifyAct raw) (ss, F, q, Some svc) (ss, F', remove1 raw q, Some svc')"

definition sys_step :: "bool \<Rightarrow> auth_env \<Rightarrow> config \<Rightarrow> build \<Rightarrow> system \<Rightarrow> system \<Rightarrow> bool" where
  "sys_step whole E c bd a b \<longleftrightarrow> (\<exists>l. sys_act whole E c bd l a b)"

text \<open>What the program may have in its store: mail that was there at the start, or vetted mail.\<close>

definition sys_inv :: "bool \<Rightarrow> auth_env \<Rightarrow> config \<Rightarrow> fs \<Rightarrow> system \<Rightarrow> bool" where
  "sys_inv whole E c F0 st = (case st of (ss, F, q, p) \<Rightarrow>
     server_inv whole E c F (ss, \<lparr>files = F, notified = q\<rparr>) \<and> push_placed (filepath_Clean (DataDir c)) p
     \<and> (\<forall>rc i m. has_mail (filepath_Clean (DataDir c)) F rc i m \<longrightarrow>
          has_mail (filepath_Clean (DataDir c)) F0 rc i m \<or> vetted whole E c (rc, True, i) m))"

lemma vetted_state: "vetted whole E c (rc, u, i) m = vetted whole E c (rc, u', i) m"
  by (simp add: vetted_def)

lemma notify_each_same_mail:
  "plain n \<Longrightarrow> sub_file (fst st) = child dir n \<Longrightarrow>
     same_mail dir (snd st) (snd (notify_each P Ws payload ss st)) \<and> sub_file (fst (notify_each P Ws payload ss st)) = sub_file (fst st)"
proof (induction P Ws payload ss st rule: notify_each.induct)
  case (2 P Ws payload sub ss st)
  let ?st = "case SendNotification P payload sub of Inl _ \<Rightarrow> st
      | Inr status \<Rightarrow> if gone status then snd (Unsubscribe P (Ws 0) (snd st) (fst st) (Endpoint sub)) else st"
  have 1: "same_mail dir (snd st) (snd ?st) \<and> sub_file (fst ?st) = sub_file (fst st)"
    using Unsubscribe_same_mail [OF 2(2,3), of P "Ws 0" "snd st" "Endpoint sub"]
    by (cases "Unsubscribe P (Ws 0) (snd st) (fst st) (Endpoint sub)") (auto split: sum.split)
  with 2(1) [OF 2(2)] 2(3) have "same_mail dir (snd ?st) (snd (notify_each P Ws payload (sub # ss) st))
      \<and> sub_file (fst (notify_each P Ws payload (sub # ss) st)) = sub_file (fst ?st)" by simp
  with 1 show ?case by (auto intro: same_mail_trans simp del: notify_each.simps)
qed simp

lemma notifyPush_same_mail:
  assumes "plain n" and "sub_file svc = child dir n" and "notifyPush P Ws arrival D M raw (svc, F) = (svc', G)"
  shows "same_mail dir F G \<and> sub_file svc' = sub_file svc"
  using assms(3) notify_each_same_mail [OF assms(1), of "(svc, F)" dir] assms(2)
  by (auto simp: notifyPush_def Notify_def Let_def split: if_splits sum.splits) (metis fst_conv snd_conv)+

lemma sys_invI:
  assumes "\<And>n s. ss n = Some s \<Longrightarrow> opts s = smtp_options (env_utab E) c \<and> (\<forall>a \<in> set (rcpts s). AcceptsRecipient (env_utab E) c a)"
    and "store_ok (filepath_Clean (DataDir c)) F" and "push_placed (filepath_Clean (DataDir c)) p"
    and "\<And>rc i m. has_mail (filepath_Clean (DataDir c)) F rc i m \<Longrightarrow>
      has_mail (filepath_Clean (DataDir c)) F0 rc i m \<or> vetted whole E c (rc, True, i) m"
  shows "sys_inv whole E c F0 (ss, F, q, p)"
  unfolding sys_inv_def prod.case
proof (intro conjI allI impI server_invI)
  show "push_placed (filepath_Clean (DataDir c)) p" by (rule assms(3))
qed (use assms in auto)

lemma sys_invD:
  assumes "sys_inv whole E c F0 (ss, F, q, p)"
  shows "server_inv whole E c F (ss, \<lparr>files = F, notified = q\<rparr>)" and "push_placed (filepath_Clean (DataDir c)) p"
    and "has_mail (filepath_Clean (DataDir c)) F rc i m \<Longrightarrow>
      has_mail (filepath_Clean (DataDir c)) F0 rc i m \<or> vetted whole E c (rc, True, i) m"
    and "ss n = Some s \<Longrightarrow> opts s = smtp_options (env_utab E) c \<and> (\<forall>a \<in> set (rcpts s). AcceptsRecipient (env_utab E) c a)"
    and "store_ok (filepath_Clean (DataDir c)) F"
proof -
  show i: "server_inv whole E c F (ss, \<lparr>files = F, notified = q\<rparr>)" and "push_placed (filepath_Clean (DataDir c)) p"
    and "has_mail (filepath_Clean (DataDir c)) F rc i m \<Longrightarrow>
      has_mail (filepath_Clean (DataDir c)) F0 rc i m \<or> vetted whole E c (rc, True, i) m"
    using assms unfolding sys_inv_def prod.case by blast+
  show "ss n = Some s \<Longrightarrow> opts s = smtp_options (env_utab E) c \<and> (\<forall>a \<in> set (rcpts s). AcceptsRecipient (env_utab E) c a)"
    using server_invD(1,2) [OF i] by blast
  show "store_ok (filepath_Clean (DataDir c)) F" using server_invD(3) [OF i] by simp
qed

lemma sys_act_inv:
  assumes "sys_act whole E c bd l a b" and "sys_inv whole E c F0 a" and "utab_ok (env_utab E)" and "loaded_config (env_utab E) c"
  shows "sys_inv whole E c F0 b"
  using assms(1)
proof (cases rule: sys_act.cases)
  case (smtp ss F q ss' F' q' p)
  note i = sys_invD [OF assms(2) [unfolded smtp(2)]]
  from smtp_step_inv [OF smtp(4) i(1) assms(3,4)] have j: "server_inv whole E c F (ss', \<lparr>files = F', notified = q'\<rparr>)" .
  have "has_mail (filepath_Clean (DataDir c)) F rc k m \<or> vetted whole E c (rc, True, k) m"
    if "has_mail (filepath_Clean (DataDir c)) F' rc k m" for rc k m
    using that server_invD(4) [OF j] vetted_state unfolding has_mail_ex by fastforce
  moreover have "store_ok (filepath_Clean (DataDir c)) F'" using server_invD(3) [OF j] by simp
  ultimately show ?thesis unfolding smtp(3) using i(2,3) server_invD(1,2) [OF j] by (intro sys_invI) blast+
next
  case (web WE r F p resp F' p' ss q)
  note i = sys_invD [OF assms(2) [unfolded web(2)]]
  let ?w = "\<lparr>ww_files = F, ww_push = p\<rparr>" and ?w' = "\<lparr>ww_files = F', ww_push = p'\<rparr>"
  have "store_root (main_web c bd) = filepath_Clean (DataDir c)" by (simp add: main_web_def web_New_def)
  with serve_invents_nothing [of "main_web c bd" ?w ?w' WE r] web(4) i(2,5)
  have "store_ok (filepath_Clean (DataDir c)) F'" "push_placed (filepath_Clean (DataDir c)) p'"
    "\<And>rc k m. has_mail (filepath_Clean (DataDir c)) F' rc k m \<Longrightarrow> has_mail (filepath_Clean (DataDir c)) F rc k m" by auto
  with i(3,4) show ?thesis unfolding web(3) by (intro sys_invI) blast+
next
  case (notify raw q P Ws arrival D M svc F svc' F' ss)
  note i = sys_invD [OF assms(2) [unfolded notify(2)]]
  obtain n where n: "plain n" "sub_file svc = child (filepath_Clean (DataDir c)) n" using i(2) by (auto simp: push_placed_def)
  from notifyPush_same_mail [OF n notify(5)] i(5)
  have "store_ok (filepath_Clean (DataDir c)) F'" "push_placed (filepath_Clean (DataDir c)) (Some svc')"
    "\<And>rc k m. has_mail (filepath_Clean (DataDir c)) F' rc k m = has_mail (filepath_Clean (DataDir c)) F rc k m"
    using n by (auto simp: same_mail_def push_placed_def has_mail_def)
  with i(3,4) show ?thesis unfolding notify(3) by (intro sys_invI) blast+
qed

lemma sys_step_inv:
  "sys_step whole E c bd a b \<Longrightarrow> sys_inv whole E c F0 a \<Longrightarrow> utab_ok (env_utab E) \<Longrightarrow> loaded_config (env_utab E) c \<Longrightarrow>
     sys_inv whole E c F0 b"
  unfolding sys_step_def by (blast intro: sys_act_inv)

lemma sys_run_inv:
  assumes "rtranclp (sys_step whole E c bd) a b" and "sys_inv whole E c F0 a" and "utab_ok (env_utab E)" and "loaded_config (env_utab E) c"
  shows "sys_inv whole E c F0 b"
  using assms(1,2) by (induction rule: rtranclp_induct) (auto intro: sys_step_inv [OF _ _ assms(3,4)])

lemma start_inv:
  assumes "store_ok (filepath_Clean (DataDir c)) F0" and "main_push P W F0 c = (Inr p, F)"
  shows "sys_inv whole E c F0 (\<lambda>_. None, F, [], p)"
  using main_push_placed [OF assms(2)] assms(1) by (intro sys_invI) (auto simp: same_mail_def has_mail_def)

lemma sys_act_smtp:
  "smtp_step whole E (smtp_options (env_utab E) c) (ss, w) (ss', w') \<Longrightarrow>
     sys_act whole E c bd SmtpAct (ss, files w, notified w, p) (ss', files w', notified w', p)"
  by (cases w; cases w') (auto intro: sys_act.smtp)

lemma smtp_run_sys:
  assumes "rtranclp (smtp_step whole E (smtp_options (env_utab E) c)) (ss, w) (ss', w')"
  shows "rtranclp (sys_step whole E c bd) (ss, files w, notified w, p) (ss', files w', notified w', p)"
  using assms
proof (induction "(ss', w')" arbitrary: ss' w' rule: rtranclp_induct)
  case (step b)
  obtain ss1 w1 where b: "b = (ss1, w1)" by fastforce
  have "sys_step whole E c bd (ss1, files w1, notified w1, p) (ss', files w', notified w', p)"
    using step(2) b sys_act_smtp unfolding sys_step_def by blast
  with step(3) [OF b] show ?case by simp
qed simp

text \<open>A build without a revision.\<close>

definition sample_build :: build where
  "sample_build = \<lparr>embedded_sw = ''sw'', assetVersion = [], start_time = 1700000000\<rparr>"

end
