(* ===== verification/Entry.thy ===== *)
theory Entry
  imports Program
begin

text \<open>
  \<^verbatim>\<open>main\<close> of main.go from the command line on: the two helper commands, the flag \<^verbatim>\<open>-config\<close> as package
  flag reads it, loading the configuration, starting the push service, and what is put together
  for the two servers. How the process ends is a value; \<open>exit_status\<close> is the status it reports. The
  texts that go to the log are not modelled.
\<close>

section \<open>Flags\<close>

datatype flag_error = FlagSyntax bytes | FlagUndefined bytes | FlagNeedsArgument bytes | FlagHelp

text \<open>The part of a flag before the first equals sign, and what follows it if there is one.\<close>

definition flag_split :: "bytes \<Rightarrow> bytes \<times> bytes option" where
  "flag_split name =
     (takeWhile (\<lambda>x. x \<noteq> CHR ''='') name,
      (case dropWhile (\<lambda>x. x \<noteq> CHR ''='') name of [] \<Rightarrow> None | _ # v \<Rightarrow> Some v))"

text \<open>
  \<^verbatim>\<open>flag.Parse\<close> for the one string flag \<^verbatim>\<open>config\<close> with the value \<open>cfg\<close> so far: one or two dashes, the value
  after an equals sign or as the next argument; the first argument that is no flag, or two
  dashes alone, ends the flags.
\<close>

fun flag_parse :: "bytes \<Rightarrow> bytes list \<Rightarrow> flag_error + bytes" where
  "flag_parse cfg [] = Inr cfg"
| "flag_parse cfg (s # args) =
     (if length s < 2 \<or> hd s \<noteq> CHR ''-'' then Inr cfg
      else if s = ''--'' then Inr cfg
      else let name = (if s ! 1 = CHR ''-'' then drop 2 s else drop 1 s) in
           if name = [] \<or> hd name = CHR ''-'' \<or> hd name = CHR ''='' then Inl (FlagSyntax s)
           else case flag_split name of
             (nm, v) \<Rightarrow>
               if nm \<noteq> ''config'' then Inl (if nm = ''help'' \<or> nm = ''h'' then FlagHelp else FlagUndefined nm)
               else (case v of
                       Some value \<Rightarrow> flag_parse value args
                     | None \<Rightarrow> (case args of [] \<Rightarrow> Inl (FlagNeedsArgument nm) | value # rest \<Rightarrow> flag_parse value rest)))"

section \<open>Helper commands\<close>

text \<open>What \<^verbatim>\<open>main\<close> calls outside the repository, and the environments of the parts.\<close>

record entry_env =
  en_utab :: utab
  bcrypt_GenerateFromPassword :: "bytes \<Rightarrow> nat \<Rightarrow> bytes + bytes"
  webpush_GenerateVAPIDKeys :: "bytes + bytes \<times> bytes"
  en_config :: config_env
  en_push :: push_env
  en_os :: os_env

datatype fatal =
    FatalHashpw bytes | FatalGenpushkey bytes | FatalConfig load_error | FatalPush push_error | FatalServer bytes

datatype ending =
    Printed bytes | UsageHashpw | FlagsFailed flag_error | Fatal fatal | Stopped bytes

fun exit_status :: "ending \<Rightarrow> nat" where
  "exit_status (Printed _) = 0"
| "exit_status UsageHashpw = 2"
| "exit_status (FlagsFailed e) = (if e = FlagHelp then 0 else 2)"
| "exit_status (Fatal _) = 1"
| "exit_status (Stopped _) = 0"

definition bcrypt_DefaultCost :: nat where
  "bcrypt_DefaultCost = 10"

definition cmdHashpw :: "entry_env \<Rightarrow> bytes list \<Rightarrow> ending" where
  "cmdHashpw E args =
     (case args of
        [pw] \<Rightarrow> (case bcrypt_GenerateFromPassword E pw bcrypt_DefaultCost of
                   Inl e \<Rightarrow> Fatal (FatalHashpw e)
                 | Inr hash \<Rightarrow> Printed (hash @ [LF]))
      | _ \<Rightarrow> UsageHashpw)"

definition cmdGenpushkey :: "entry_env \<Rightarrow> ending" where
  "cmdGenpushkey E =
     (case webpush_GenerateVAPIDKeys E of
        Inl e \<Rightarrow> Fatal (FatalGenpushkey e)
      | Inr (priv, pub) \<Rightarrow>
          Printed (''vapid_public_key: '' @ strconv_Quote (en_utab E) pub @ [LF]
            @ ''vapid_private_key: '' @ strconv_Quote (en_utab E) priv @ [LF]))"

section \<open>main\<close>

text \<open>What the started process works with.\<close>

record running =
  run_config :: config
  run_push :: "service option"
  run_smtp :: options
  run_web :: web_server

definition main :: "entry_env \<Rightarrow> build \<Rightarrow> bytes list \<Rightarrow> fs \<Rightarrow> (ending + running) \<times> fs" where
  "main E b argv F =
     (if length argv > 1 \<and> argv ! 1 = ''hashpw'' then (Inl (cmdHashpw E (drop 2 argv)), F)
      else if length argv > 1 \<and> argv ! 1 = ''genpushkey'' then (Inl (cmdGenpushkey E), F)
      else case flag_parse ''config.yaml'' (drop 1 argv) of
        Inl e \<Rightarrow> (Inl (FlagsFailed e), F)
      | Inr configPath \<Rightarrow>
          (case LoadConfig (en_config E) configPath of
             Inl e \<Rightarrow> (Inl (Fatal (FatalConfig e)), F)
           | Inr cfg \<Rightarrow>
               (case main_push (en_push E) (en_os E) F cfg of
                  (Inl e, F') \<Rightarrow> (Inl (Fatal (FatalPush e)), F')
                | (Inr p, F') \<Rightarrow>
                    (Inr \<lparr>run_config = cfg, run_push = p, run_smtp = smtp_options (cfg_utab (en_config E)) cfg,
                         run_web = main_web cfg b\<rparr>, F'))))"

text \<open>The \<^verbatim>\<open>select\<close> at the end: the first server to return, or a signal.\<close>

datatype wait_event = ServerReturned bytes | SignalReceived bytes

definition main_wait :: "wait_event \<Rightarrow> ending" where
  "main_wait ev = (case ev of ServerReturned e \<Rightarrow> Fatal (FatalServer e) | SignalReceived s \<Rightarrow> Stopped s)"

lemma main_started:
  assumes "main E b argv F = (Inr R, G)"
  obtains configPath where "LoadConfig (en_config E) configPath = Inr (run_config R)"
    and "flag_parse ''config.yaml'' (drop 1 argv) = Inr configPath"
    and "main_push (en_push E) (en_os E) F (run_config R) = (Inr (run_push R), G)"
    and "run_smtp R = smtp_options (cfg_utab (en_config E)) (run_config R)" and "run_web R = main_web (run_config R) b"
  using assms by (auto simp: main_def simp del: flag_parse.simps split: if_splits sum.splits prod.splits)

lemma LoadConfig_loaded:
  "(\<And>xs. set (map_range E xs) = set xs) \<Longrightarrow> utab_ok (cfg_utab E) \<Longrightarrow> LoadConfig E path = Inr cfg \<Longrightarrow>
     loaded_config (cfg_utab E) cfg"
  using LoadConfig_ok [of E path cfg] normal_config_loaded [of E] by blast

text \<open>A start that fails adds at most directories.\<close>

lemma New_error:
  assumes "New P W F p pub priv sbr = (Inl e, G)"
  shows "G = F \<or> os_MkdirAll W F (filepath_Dir p) = Inr G"
  using assms by (auto simp: New_def Let_def split: if_splits sum.splits io_error.splits)

lemma main_push_error:
  assumes "main_push P W F c = (Inl e, G)"
  shows "G = F \<or> os_MkdirAll W F (filepath_Clean (DataDir c)) = Inr G"
  using assms New_error [of P W F "push_file c"]
  by (auto simp: main_push_def push_file_child split: option.splits prod.splits sum.splits)

text \<open>
  C40. A process that does not get to serving has done no harm: it has changed no file and added none;
  it may have made directories on the way to the data directory when the push service could not
  start. Its status is zero only for a helper command that printed its result and for a request for
  help.
\<close>
theorem failed_start_harmless:
  assumes "main E b argv F = (Inl e, G)"
  shows "(\<forall>q n. fs_at F q = Some n \<longrightarrow> fs_at G q = Some n)
    \<and> (\<forall>q n. fs_at F q = None \<longrightarrow> fs_at G q = Some n \<longrightarrow> n = DirNode \<and> (\<exists>pe. e = Fatal (FatalPush pe)))
    \<and> (exit_status e = 0 \<longleftrightarrow> (\<exists>out. e = Printed out) \<or> e = FlagsFailed FlagHelp)"
proof -
  have "G = F \<or> (\<exists>pe c. e = Fatal (FatalPush pe) \<and> main_push (en_push E) (en_os E) F c = (Inl pe, G))"
    using assms by (auto simp: main_def simp del: flag_parse.simps split: if_splits sum.splits prod.splits)
  then have "G = F \<or> (\<exists>pe (c :: config). e = Fatal (FatalPush pe) \<and> os_MkdirAll (en_os E) F (filepath_Clean (DataDir c)) = Inr G)"
    using main_push_error by blast
  then have "(\<forall>q n. fs_at F q = Some n \<longrightarrow> fs_at G q = Some n)
    \<and> (\<forall>q n. fs_at F q = None \<longrightarrow> fs_at G q = Some n \<longrightarrow> n = DirNode \<and> (\<exists>pe. e = Fatal (FatalPush pe)))"
  proof (elim disjE exE conjE)
    fix pe and c :: config
    assume e: "e = Fatal (FatalPush pe)" and "os_MkdirAll (en_os E) F (filepath_Clean (DataDir c)) = Inr G"
    then have m: "mkdir_all F (fst (filepath_Clean (DataDir c))) [] (snd (filepath_Clean (DataDir c))) = Inr G"
      by (auto simp: os_MkdirAll_def dest: guarded_Inr)
    show ?thesis using mkdir_all_keeps [OF m] mkdir_all_new [OF m] e by blast
  qed simp
  moreover have "\<nexists>s. e = Stopped s"
    using assms by (auto simp: main_def cmdHashpw_def cmdGenpushkey_def simp del: flag_parse.simps
        split: if_splits sum.splits prod.splits list.splits)
  then have "exit_status e = 0 \<longleftrightarrow> (\<exists>out. e = Printed out) \<or> e = FlagsFailed FlagHelp" by (cases e) auto
  ultimately show ?thesis by blast
qed

text \<open>
  The configuration file is the one the command line names, in each of the four spellings of the
  flag, the last one given, and \<^verbatim>\<open>config.yaml\<close> when none is given.
\<close>
lemma config_flag:
  "flag_parse ''config.yaml'' [] = Inr ''config.yaml''
   \<and> flag_parse cfg (''-config'' # p # args) = flag_parse p args
   \<and> flag_parse cfg (''--config'' # p # args) = flag_parse p args
   \<and> flag_parse cfg ((''-config='' @ p) # args) = flag_parse p args
   \<and> flag_parse cfg ((''--config='' @ p) # args) = flag_parse p args
   \<and> flag_parse cfg [''-config''] = Inl (FlagNeedsArgument ''config'')"
  by (simp add: flag_split_def)

section \<open>A password from the command line to the session\<close>


definition sample_entry :: entry_env where
  "sample_entry = \<lparr>en_utab = ascii_utab, bcrypt_GenerateFromPassword = \<lambda>p _. if p = ''pw'' then Inr ''$2a$10$x'' else Inl ''too long'',
     webpush_GenerateVAPIDKeys = Inr (''s'', ''p''), en_config = sample_env, en_push = sample_push_env, en_os = sample_os\<rparr>"

theorem failed_start_harmless_witness:
  "main sample_entry sample_build [''airmx'', ''hashpw''] [] = (Inl UsageHashpw, [])
   \<and> exit_status UsageHashpw \<noteq> 0"
proof -
  have m: "main sample_entry sample_build [''airmx'', ''hashpw''] [] = (Inl UsageHashpw, [])"
    by (simp add: main_def cmdHashpw_def)
  with failed_start_harmless [OF m] show ?thesis by auto
qed


text \<open>
  The addresses of static files change with the build: of two builds that both carry a revision, or
  both do not, a page gives a file the same address exactly when the revisions are the same and,
  without revisions, the processes started in the same second.
\<close>
lemma asset_addresses:
  assumes "assetVersion b = [] \<longleftrightarrow> assetVersion b' = []"
  shows "tpl_asset (main_web c b) p = tpl_asset (main_web c' b') p \<longleftrightarrow>
    assetVersion b = assetVersion b' \<and> (assetVersion b = [] \<longrightarrow> start_time b = start_time b')"
  using assms FormatInt36_inj by (auto simp: tpl_asset_def assetURL_def main_web_def web_New_def)

end
