(* ===== verification/Runs.thy ===== *)
theory Runs
  imports Entry
begin

text \<open>
  The running program over time: what is in the store stays there until an authenticated client
  deletes it, and a message the receiver has accepted can be read from then on. The ids of
  \<^verbatim>\<open>Deliver\<close> (time, process, host and four random bytes) are taken to be new in the mailbox they go
  to; that is \<open>fresh_ids\<close>, a condition on the steps.
\<close>

section \<open>Steps with new ids\<close>

definition fresh_ids :: "path \<Rightarrow> fs \<Rightarrow> fs \<Rightarrow> bool" where
  "fresh_ids dir F G \<longleftrightarrow>
     (\<forall>rc i m. mails dir G (rc, True, i) = Some m \<longrightarrow>
        mails dir F (rc, True, i) = Some m \<or> mails dir F (rc, True, i) = None \<and> mails dir F (rc, False, i) = None)"

definition sys_files :: "system \<Rightarrow> fs" where
  "sys_files st = fst (snd st)"

definition fresh_step :: "bool \<Rightarrow> auth_env \<Rightarrow> config \<Rightarrow> build \<Rightarrow> system \<Rightarrow> system \<Rightarrow> bool" where
  "fresh_step whole E c bd a b \<longleftrightarrow>
     sys_step whole E c bd a b \<and> fresh_ids (filepath_Clean (DataDir c)) (sys_files a) (sys_files b)"

text \<open>A step that is not the deletion of \<open>i\<close> by an authenticated client.\<close>

definition keeping_step :: "bool \<Rightarrow> auth_env \<Rightarrow> config \<Rightarrow> build \<Rightarrow> bytes \<Rightarrow> system \<Rightarrow> system \<Rightarrow> bool" where
  "keeping_step whole E c bd i a b \<longleftrightarrow>
     fresh_ids (filepath_Clean (DataDir c)) (sys_files a) (sys_files b)
     \<and> (\<exists>l. sys_act whole E c bd l a b \<and> (\<forall>WE r. l = WebAct WE r \<longrightarrow> \<not> deletes (main_web c bd) i (WE, r)))"

lemma keeping_fresh: "keeping_step whole E c bd i a b \<Longrightarrow> fresh_step whole E c bd a b"
  unfolding keeping_step_def fresh_step_def sys_step_def by blast

section \<open>What the receiver does to the mail\<close>

lemma smtp_step_mails:
  assumes "smtp_step whole E (smtp_options (env_utab E) c) (ss, w) (ss', w')" and "server_inv whole E c F0 (ss, w)"
    and "utab_ok (env_utab E)" and "loaded_config (env_utab E) c"
  shows "mails (filepath_Clean (DataDir c)) (files w') k = mails (filepath_Clean (DataDir c)) (files w) k
    \<or> (\<exists>rc i m. k = (rc, True, i) \<and> mails (filepath_Clean (DataDir c)) (files w') k = Some m)"
  using assms(1)
proof cases
  case (data n s Ws r e)
  let ?root = "filepath_Clean (DataDir c)"
  from data(5) show ?thesis
  proof (cases rule: Data_cases)
    case (processed raw res act raw' d F)
    have o: "opts s = smtp_options (env_utab E) c" and a: "\<forall>a \<in> set (rcpts s). AcceptsRecipient (env_utab E) c a"
      and ok: "store_ok ?root (files w)" using server_invD [OF assms(2)] data(2) by blast+
    have fit: "deliver_fit (env_utab E, Ws n) a" if "a \<in> set (rcpts s)" for n a
      using accepted_fit [OF assms(3,4)] a data(3) that by simp
    have root: "opt_Store (opts s) = ?root" by (simp add: o smtp_options_def)
    from deliver_loop_facts(2) [OF ok fit processed(7) [unfolded root], of UNIV k] processed(8) show ?thesis by auto
  qed simp
qed auto

section \<open>Mail is kept\<close>

text \<open>The invariant of a run with new ids: that of the program, and no message is read and unread at once.\<close>

definition run_inv :: "bool \<Rightarrow> auth_env \<Rightarrow> config \<Rightarrow> fs \<Rightarrow> system \<Rightarrow> bool" where
  "run_inv whole E c F0 st \<longleftrightarrow> sys_inv whole E c F0 st \<and> mail_ok (filepath_Clean (DataDir c)) (sys_files st)"

lemma sys_act_keeps:
  assumes "sys_act whole E c bd l a b" and "run_inv whole E c F0 a" and "utab_ok (env_utab E)" and "loaded_config (env_utab E) c"
    and "fresh_ids (filepath_Clean (DataDir c)) (sys_files a) (sys_files b)"
  shows "run_inv whole E c F0 b"
    and "has_mail (filepath_Clean (DataDir c)) (sys_files a) rc i m \<Longrightarrow>
      (\<And>WE r. l = WebAct WE r \<Longrightarrow> \<not> deletes (main_web c bd) i (WE, r)) \<Longrightarrow>
      has_mail (filepath_Clean (DataDir c)) (sys_files b) rc i m"
proof -
  let ?dir = "filepath_Clean (DataDir c)"
  have inv: "sys_inv whole E c F0 a" and ok: "mail_ok ?dir (sys_files a)" using assms(2) by (simp_all add: run_inv_def)
  have inv': "sys_inv whole E c F0 b" by (rule sys_act_inv [OF assms(1) inv assms(3,4)])
  have keep: "mail_ok ?dir (sys_files b)
      \<and> (has_mail ?dir (sys_files a) rc i m \<longrightarrow> (\<forall>WE r. l = WebAct WE r \<longrightarrow> \<not> deletes (main_web c bd) i (WE, r)) \<longrightarrow>
           has_mail ?dir (sys_files b) rc i m)"
    using assms(1)
  proof (cases rule: sys_act.cases)
    case (smtp ss F q ss' F' q' p)
    have F: "sys_files a = F" "sys_files b = F'" by (simp_all add: smtp(2,3) sys_files_def)
    note i = sys_invD [OF inv [unfolded smtp(2)]] and i' = sys_invD [OF inv' [unfolded smtp(3)]]
    have ch: "mails ?dir F' k = mails ?dir F k \<or> (\<exists>rc i m. k = (rc, True, i) \<and> mails ?dir F' k = Some m)" for k
      using smtp_step_mails [OF smtp(4) i(1) assms(3,4), of k] by simp
    have fr: "mails ?dir F' (rc, True, i) = Some m \<Longrightarrow> mails ?dir F (rc, True, i) = Some m
        \<or> mails ?dir F (rc, True, i) = None \<and> mails ?dir F (rc, False, i) = None" for rc i m
      using assms(5) unfolding fresh_ids_def F by blast
    have cur: "mails ?dir F' (rc, False, i) = mails ?dir F (rc, False, i)" for rc i using ch [of "(rc, False, i)"] by simp
    have "mails ?dir F' (rc, False, i) = None \<or> mails ?dir F' (rc, True, i) = None" for rc i
      using ok ch [of "(rc, True, i)"] fr [of rc i] unfolding cur F mail_ok_def by (metis option.exhaust)
    then have "mail_ok ?dir F'" using i'(5) by (simp add: mail_ok_def)
    moreover have "has_mail ?dir F rc i m \<Longrightarrow> has_mail ?dir F' rc i m"
      using ch [of "(rc, True, i)"] fr [of rc i] unfolding has_mail_def cur by (metis option.distinct(1) option.inject)
    ultimately show ?thesis unfolding F by blast
  next
    case (web WE r F p resp F' p' ss q)
    have F: "sys_files a = F" "sys_files b = F'" by (simp_all add: web(2,3) sys_files_def)
    note i = sys_invD [OF inv [unfolded web(2)]]
    have s: "store_root (main_web c bd) = ?dir" by (simp add: main_web_def web_New_def)
    have "web_ok (main_web c bd) \<lparr>ww_files = F, ww_push = p\<rparr>" using ok i(2) by (simp add: web_ok_def s F)
    note k = serve_keeps [OF this, of WE r, unfolded web(4) s, simplified]
    show ?thesis unfolding F web(1) using k(1) k(2) [of i rc m] by (auto simp: web_ok_def s deletes_def)
  next
    case (notify raw q P Ws arrival D M svc F svc' F' ss)
    have F: "sys_files a = F" "sys_files b = F'" by (simp_all add: notify(2,3) sys_files_def)
    note i = sys_invD [OF inv [unfolded notify(2)]]
    obtain n where n: "plain n" "sub_file svc = child ?dir n" using i(2) by (auto simp: push_placed_def)
    from notifyPush_same_mail [OF n notify(5)] same_mail_ok [OF _ ok [unfolded F]] show ?thesis unfolding F by blast
  qed
  then show "run_inv whole E c F0 b" using inv' by (simp add: run_inv_def)
  from keep show "has_mail ?dir (sys_files a) rc i m \<Longrightarrow> (\<And>WE r. l = WebAct WE r \<Longrightarrow> \<not> deletes (main_web c bd) i (WE, r)) \<Longrightarrow>
      has_mail ?dir (sys_files b) rc i m" by blast
qed

lemma fresh_run_inv:
  assumes "(fresh_step whole E c bd)\<^sup>*\<^sup>* a b" and "run_inv whole E c F0 a" and "utab_ok (env_utab E)" and "loaded_config (env_utab E) c"
  shows "run_inv whole E c F0 b"
  using assms(1,2)
proof (induction rule: rtranclp_induct)
  case (step x y)
  then obtain l where "sys_act whole E c bd l x y" "fresh_ids (filepath_Clean (DataDir c)) (sys_files x) (sys_files y)"
    by (auto simp: fresh_step_def sys_step_def)
  with sys_act_keeps(1) step assms(3,4) show ?case by blast
qed

lemma keeping_run:
  assumes "(keeping_step whole E c bd i)\<^sup>*\<^sup>* a b" and "run_inv whole E c F0 a" and "utab_ok (env_utab E)"
    and "loaded_config (env_utab E) c" and "has_mail (filepath_Clean (DataDir c)) (sys_files a) rc i m"
  shows "run_inv whole E c F0 b \<and> has_mail (filepath_Clean (DataDir c)) (sys_files b) rc i m"
  using assms(1)
proof (induction rule: rtranclp_induct)
  case base
  then show ?case using assms(2,5) by simp
next
  case (step x y)
  then obtain l where l: "sys_act whole E c bd l x y" "\<And>WE r. l = WebAct WE r \<Longrightarrow> \<not> deletes (main_web c bd) i (WE, r)"
    and f: "fresh_ids (filepath_Clean (DataDir c)) (sys_files x) (sys_files y)"
    unfolding keeping_step_def by blast
  from step.IH have x: "run_inv whole E c F0 x" "has_mail (filepath_Clean (DataDir c)) (sys_files x) rc i m" by simp_all
  from sys_act_keeps [OF l(1) x(1) assms(3,4) f] x(2) l(2) show ?case by blast
qed

section \<open>The started program\<close>

text \<open>
  The process was started with these arguments on the files \<open>F0\<close> and is about to serve; the
  character tables are those of the receiver, and ranging over a map visits its entries.
\<close>

definition started :: "entry_env \<Rightarrow> auth_env \<Rightarrow> build \<Rightarrow> bytes list \<Rightarrow> fs \<Rightarrow> running \<Rightarrow> fs \<Rightarrow> bool" where
  "started EE E bd argv F0 R F \<longleftrightarrow>
     main EE bd argv F0 = (Inr R, F) \<and> cfg_utab (en_config EE) = env_utab E \<and> utab_ok (env_utab E)
     \<and> (\<forall>xs. set (map_range (en_config EE) xs) = set xs)"

definition data_dir :: "running \<Rightarrow> path" where
  "data_dir R = filepath_Clean (DataDir (run_config R))"

definition first_state :: "running \<Rightarrow> fs \<Rightarrow> system" where
  "first_state R F = (\<lambda>_. None, F, [], run_push R)"

lemma started_loaded:
  assumes "started EE E bd argv F0 R F"
  shows "utab_ok (env_utab E)" and "loaded_config (env_utab E) (run_config R)"
    and "main_push (en_push EE) (en_os EE) F0 (run_config R) = (Inr (run_push R), F)"
proof -
  have m: "main EE bd argv F0 = (Inr R, F)" and T: "cfg_utab (en_config EE) = env_utab E"
    and mr: "\<And>xs. set (map_range (en_config EE) xs) = set xs" using assms by (auto simp: started_def)
  show u: "utab_ok (env_utab E)" using assms by (simp add: started_def)
  from m obtain p where p: "LoadConfig (en_config EE) p = Inr (run_config R)"
    and push: "main_push (en_push EE) (en_os EE) F0 (run_config R) = (Inr (run_push R), F)"
    by (rule main_started)
  from LoadConfig_loaded [OF mr _ p] T u show "loaded_config (env_utab E) (run_config R)" by simp
  from push show "main_push (en_push EE) (en_os EE) F0 (run_config R) = (Inr (run_push R), F)" .
qed

lemma started_run_inv:
  assumes "started EE E bd argv F0 R F" and "mail_ok (data_dir R) F0"
  shows "run_inv whole E (run_config R) F0 (first_state R F)"
proof -
  note push = started_loaded(3) [OF assms(1)]
  have "store_ok (filepath_Clean (DataDir (run_config R))) F0" using assms(2) by (simp add: mail_ok_def data_dir_def)
  from start_inv [OF this push] have "sys_inv whole E (run_config R) F0 (first_state R F)" by (simp add: first_state_def)
  moreover have "mail_ok (data_dir R) F"
    using main_push_placed [OF push] same_mail_ok assms(2) unfolding data_dir_def by blast
  ultimately show ?thesis by (simp add: run_inv_def first_state_def sys_files_def data_dir_def)
qed

text \<open>What the page of a message shows.\<close>

definition page_of :: "web_env \<Rightarrow> bytes \<Rightarrow> bytes \<Rightarrow> web_body response \<Rightarrow> bool" where
  "page_of WE i m resp \<longleftrightarrow>
     resp_Code resp = 200
     \<and> (case resp_Body resp of
          ViewPage d \<Rightarrow>
            vd_ID d = i \<and> vd_Spam d = strings_Contains (Header_Get (headerOf m) ''X-Spam-Status'') ''action=spam''
            \<and> (case walkMessage (we_mime WE) m of
                 None \<Rightarrow> False
               | Some (txt, html, att) \<Rightarrow>
                   vd_Attach d = att \<and> vd_HasHTML d = (html \<noteq> [])
                   \<and> vd_TextBody d = (if txt = [] \<and> html \<noteq> [] then htmlToText (we_html_Parse WE) html else txt))
        | _ \<Rightarrow> False)"

lemma Store_Open_reads:
  assumes "store_ok dir F" and "no_faults W" and "only_copy dir F (r, u, i)" and "validID i"
    and "mails dir F (r, u, i) = Some raw"
  shows "\<exists>G. Store_Open W dir F i = (Inr raw, G)"
proof -
  have at: "fs_at F (mpath dir r (subdir u) i) = Some (FileNode raw)" using assms(5) by (rule mails_SomeD)
  have "locate W dir F i = Inr (mpath dir r (subdir u) i, u)"
    by (rule locate_only [OF assms(1-4)]) (simp add: at)
  moreover have "os_ReadFile_at SysReadFile W F (mpath dir r (subdir u) i) = Inr raw"
    using at assms(2) by (simp add: os_ReadFile_at_def)
  ultimately show ?thesis by (auto simp: Store_Open_def split: sum.split)
qed

lemma view_page:
  assumes "store_ok (store_root s) (ww_files w)" and "no_faults (we_os WE)" and "only_copy (store_root s) (ww_files w) (rc, u, i)"
    and "validID i" and "CHR ''%'' \<notin> set i" and "mails (store_root s) (ww_files w) (rc, u, i) = Some raw"
    and "authenticated WE s r" and "req_Method r = ''GET''" and "req_EscapedPath r = ''/mail/'' @ i"
  shows "\<exists>resp. fst (serve WE s r w) = Some resp \<and> page_of WE i raw resp"
proof -
  obtain G where G: "Store_Open (we_os WE) (store_root s) (ww_files w) i = (Inr raw, G)"
    using Store_Open_reads [OF assms(1-4,6)] by blast
  obtain tx html att where w: "walkMessage (we_mime WE) raw = Some (tx, html, att)" using walkMessage_total by blast
  note v = view_route [OF validID_plain [OF assms(4)] assms(5,8,9), of WE s w]
  show ?thesis unfolding serve_def withSecurityHeaders_def v page_of_def
    using assms(7) G w by (auto simp: dispatch_def protected_def requireAuth_def page_handler_def handleView_def Let_def render_def respond_def)
qed

lemma Data_files:
  assumes "server_inv whole E c F0 (ss, w)" and "utab_ok (env_utab E)" and "loaded_config (env_utab E) c"
    and "ss n = Some s" and "a \<in> set (rcpts s)" and "Data E Ws s rq w = (None, w')"
    and "\<forall>k. full_writes (Ws k) \<and> SLASH \<notin> set (hostname (Ws k))"
  shows "\<exists>i n rp. i = message_id (Ws n) rp \<and> mails (filepath_Clean (DataDir c)) (files w') (mailbox_name (env_utab E) a, True, i)
    = Some (injectHeaders (env_utab E) (fst rq) (Domain c) (Check E (clientIP s) (mailFrom s) (fst rq))
        (Decide (Policy c) (Check E (clientIP s) (mailFrom s) (fst rq))))"
  using assms(6)
proof (cases rule: Data_cases)
  case (processed raw res act raw' d F)
  have o: "opts s = smtp_options (env_utab E) c" and acc: "\<forall>a \<in> set (rcpts s). AcceptsRecipient (env_utab E) c a"
    and ok: "store_ok (filepath_Clean (DataDir c)) (files w)" using server_invD [OF assms(1)] assms(4) by blast+
  have fit: "deliver_fit (env_utab E, Ws n) a" if "a \<in> set (rcpts s)" for n a
    using accepted_fit [OF assms(2,3)] acc assms(7) that by simp
  have eq: "opt_Policy (opts s) = Policy c" "opt_Domain (opts s) = Domain c" "opt_Store (opts s) = filepath_Clean (DataDir c)"
    by (simp_all add: o smtp_options_def)
  have "\<exists>i n rp. i = message_id (Ws n) rp \<and> mails (filepath_Clean (DataDir c)) F (mailbox_name (env_utab E) a, True, i) = Some raw'"
    using deliver_loop_facts(3) [OF ok fit processed(7) [unfolded eq]] processed(9) assms(5,7) by simp blast
  then show ?thesis using processed(2-4,6,8) unfolding eq by simp
qed simp

text \<open>A start of the program with the sample configuration, and a message filed by it.\<close>

lemma sample_started:
  "\<exists>R. started sample_entry failing_env sample_build [''airmx''] [] R [] \<and> run_config R = sample_conf \<and> run_push R = None"
proof -
  have "main_push sample_push_env sample_os [] sample_conf = (Inr None, [])"
    by (simp add: main_push_def sample_conf_def normal_config_def sample_config_def)
  moreover have "LoadConfig sample_env ''config.yaml'' = Inr sample_conf" using sample_load by (simp add: sample_conf_def)
  ultimately have "\<exists>R. main sample_entry sample_build [''airmx''] [] = (Inr R, []) \<and> run_config R = sample_conf \<and> run_push R = None"
    by (simp add: main_def sample_entry_def)
  moreover have "cfg_utab (en_config sample_entry) = env_utab failing_env" "utab_ok (env_utab failing_env)"
    "set (map_range (en_config sample_entry) xs) = set xs" for xs
    by (simp_all add: sample_entry_def sample_env_def)
  ultimately show ?thesis unfolding started_def by blast
qed

text \<open>The request of a client that is logged in, for the page of a message.\<close>

definition sample_view_of :: "bytes \<Rightarrow> request" where
  "sample_view_of i = sample_get\<lparr>req_Path := ''/mail/'' @ i, req_EscapedPath := ''/mail/'' @ i,
     req_Cookies := [(sessionCookieName, base64_EncodeToString (''123456789012'' @ ''K123456789012admin|9999''))]\<rparr>"

lemma sample_view_of_authenticated: "authenticated sample_web_env (main_web sample_conf sample_build) (sample_view_of i)"
proof -
  let ?v = "base64_EncodeToString (''123456789012'' @ ''K123456789012admin|9999'')"
  have "base64_DecodeString ?v = Some (''123456789012'' @ ''K123456789012admin|9999'')" by (rule base64_roundtrip)
  moreover have "username (main_web sample_conf sample_build) = ''admin''"
    by (simp add: main_web_def web_New_def sample_conf_def normal_config_def sample_config_def)
  ultimately have "validSession sample_crypto (main_web sample_conf sample_build) 1000 ?v"
    by (simp add: validSession_def open_value_def NonceSize_def sessionKey_def sample_crypto_def
        strings_Cut_def strconv_ParseInt_def split_sign_def is_digit_def)
  then show ?thesis by (simp add: authenticated_def Request_Cookie_def sample_view_of_def sample_web_env_def)
qed

lemma sample_fresh_run:
  "(fresh_step True failing_env sample_conf sample_build)\<^sup>*\<^sup>* (\<lambda>_. None, [], [], None) ([0 \<mapsto> sample_session], [], [], None)"
proof -
  let ?os = "smtp_options ascii_utab sample_conf"
  have f: "fresh_ids dir F F" for dir F by (simp add: fresh_ids_def)
  have step: "fresh_step True failing_env sample_conf sample_build (ss, [], [], None) (ss', [], [], None)"
    if "smtp_step True failing_env ?os (ss, sample_world) (ss', sample_world)" for ss ss'
    using sys_act_smtp [of True failing_env sample_conf ss sample_world ss' sample_world sample_build None] that f
    by (auto simp: fresh_step_def sys_step_def sys_files_def sample_world_def)
  from step [OF sample_steps(1)] step [OF sample_steps(2)] show ?thesis
    by (meson converse_rtranclp_into_rtranclp rtranclp.rtrancl_refl)
qed

lemma sample_data_step:
  "\<exists>(w :: smtp_world) i m. fresh_step True failing_env sample_conf sample_build ([0 \<mapsto> sample_session], [], [], None)
       ([0 \<mapsto> sample_session], files w, notified w, None)
     \<and> has_mail (filepath_Clean (DataDir sample_conf)) (files w) ''me@example.com'' i m"
proof -
  obtain w i m where d: "Data failing_env (\<lambda>_. sample_os) sample_session (''From: a@b'', None) sample_world = (None, w)"
    and m: "mails (filepath_Clean (DataDir sample_conf)) (files w) (''me@example.com'', True, i) = Some m"
    using sample_data by blast
  have "smtp_step True failing_env (smtp_options ascii_utab sample_conf) ([0 \<mapsto> sample_session], sample_world) ([0 \<mapsto> sample_session], w)"
    by (rule smtp_step.data [OF _ _ _ d, of _ 0]) simp_all
  then have "fresh_step True failing_env sample_conf sample_build ([0 \<mapsto> sample_session], [], [], None)
       ([0 \<mapsto> sample_session], files w, notified w, None)"
    using sys_act_smtp [of True failing_env sample_conf _ sample_world _ w sample_build None]
    by (auto simp: fresh_step_def sys_step_def fresh_ids_def mails_def sys_files_def sample_world_def)
  moreover have "has_mail (filepath_Clean (DataDir sample_conf)) (files w) ''me@example.com'' i m"
    using m by (simp add: has_mail_def)
  ultimately show ?thesis by blast
qed

end
