(* ===== verification/StoreConc.thy ===== *)
theory StoreConc
  imports MaildirProps
begin

text \<open>
  Concurrent use of the message store. The receiver's sessions and the web server's requests call
  the operations of \<^verbatim>\<open>internal/maildir\<close> from goroutines of their own, with no lock: here an
  operation is a process that makes one call of package \<^verbatim>\<open>os\<close> per step, and the processes of a
  configuration share the file system and move in any order, each step under circumstances
  (clock, faults) of its own. Run alone, a process computes what the definition of \<open>Maildir\<close> for
  its operation does. \<^verbatim>\<open>os.MkdirAll\<close>, \<^verbatim>\<open>os.ReadDir\<close>, \<^verbatim>\<open>os.ReadFile\<close> and the reading of an
  opened file count as one call each.
\<close>

section \<open>Processes that own resources\<close>

text \<open>
  Why processes that share a state do not disturb each other: what a process relies on, beyond an
  invariant of the state, are resources it owns (\<open>res\<close> is what the state holds of a resource); a step
  leaves the resources of others alone and acquires only resources that nobody holds.
\<close>

locale owned_resources =
  fixes step :: "'w \<Rightarrow> 's \<Rightarrow> 'p \<Rightarrow> 'p \<times> 's"
    and inv :: "'s \<Rightarrow> bool"
    and ok :: "'s \<Rightarrow> 'p \<Rightarrow> bool"
    and own :: "'p \<Rightarrow> 'k option"
    and res :: "'s \<Rightarrow> 'k \<Rightarrow> 'r option"
    and env :: "'w \<Rightarrow> bool"
  assumes step_inv: "step w s p = (p', s') \<Longrightarrow> inv s \<Longrightarrow> ok s p \<Longrightarrow> env w \<Longrightarrow> inv s'"
    and step_self: "step w s p = (p', s') \<Longrightarrow> inv s \<Longrightarrow> ok s p \<Longrightarrow> env w \<Longrightarrow> ok s' p'"
    and owned: "ok s p \<Longrightarrow> own p = Some k \<Longrightarrow> res s k \<noteq> None"
    and step_frame: "step w s p = (p', s') \<Longrightarrow> inv s \<Longrightarrow> ok s p \<Longrightarrow> res s k \<noteq> None \<Longrightarrow> own p \<noteq> Some k \<Longrightarrow> res s' k = res s k"
    and step_acquires: "step w s p = (p', s') \<Longrightarrow> inv s \<Longrightarrow> ok s p \<Longrightarrow> own p' = Some k \<Longrightarrow> own p = Some k \<or> res s k = None"
    and ok_local: "ok s p \<Longrightarrow> (\<And>k. own p = Some k \<Longrightarrow> res s' k = res s k) \<Longrightarrow> ok s' p"
begin

lemma one_moves:
  assumes "inv s" and all: "\<And>m q. ps m = Some q \<Longrightarrow> ok s q"
    and excl: "\<And>m1 m2 q1 q2 k. ps m1 = Some q1 \<Longrightarrow> ps m2 = Some q2 \<Longrightarrow> own q1 = Some k \<Longrightarrow> own q2 = Some k \<Longrightarrow> m1 = m2"
    and n: "ps n = Some p" and "env w" and st: "step w s p = (p', s')"
  shows "inv s'" and "(ps(n \<mapsto> p')) m = Some q \<Longrightarrow> ok s' q"
    and "(ps(n \<mapsto> p')) m1 = Some q1 \<Longrightarrow> (ps(n \<mapsto> p')) m2 = Some q2 \<Longrightarrow> own q1 = Some k \<Longrightarrow> own q2 = Some k \<Longrightarrow> m1 = m2"
proof -
  note p = all [OF n]
  have other: "own p \<noteq> Some k" if "ps m = Some q" "m \<noteq> n" "own q = Some k" for m q k
    using excl [of n p m q k, OF n that(1) _ that(3)] that(2) by auto
  have apart: "own p' \<noteq> Some k" if m: "ps m = Some q" "m \<noteq> n" "own q = Some k" for m q k
    using step_acquires [OF st assms(1) p, of k] owned [OF all [OF m(1)] m(3)] other [OF m] by auto
  show "inv s'" by (rule step_inv [OF st assms(1) p assms(5)])
  show "ok s' q" if m: "(ps(n \<mapsto> p')) m = Some q"
  proof (cases "m = n")
    case True
    with m step_self [OF st assms(1) p assms(5)] show ?thesis by simp
  next
    case False
    with m have q: "ps m = Some q" by simp
    from all [OF q] show ?thesis
      by (rule ok_local) (rule step_frame [OF st assms(1) p owned [OF all [OF q]] other [OF q False]])
  qed
  show "m1 = m2" if "(ps(n \<mapsto> p')) m1 = Some q1" "(ps(n \<mapsto> p')) m2 = Some q2" "own q1 = Some k" "own q2 = Some k"
    using that apart excl by (metis fun_upd_apply option.inject)
qed

end

section \<open>Processes\<close>

text \<open>Where a delivery is: its next call, with the id once it is chosen.\<close>

datatype deliver_pc =
    DStart | DMkdir "bytes list" | DCreate bytes | DWrite bytes | DClose bytes | DRename bytes
  | DCleanup bytes io_error

datatype lookup = Opening | Deleting | Reading

text \<open>
  Where \<^verbatim>\<open>Open\<close>, \<^verbatim>\<open>Delete\<close> and \<^verbatim>\<open>Reader\<close> are: \<^verbatim>\<open>locate\<close> reads the root and tries the recipients'
  directories one by one; what follows depends on the operation.
\<close>

datatype lookup_pc =
    LStart | LScan "(bytes \<times> bytes) list" | LRead path bool | LMark path bytes | LRemove path | LOpen path

text \<open>Where \<^verbatim>\<open>List\<close> is: the directories to read, the entries to summarise, the result so far.\<close>

datatype list_pc =
    IStart | IScan "(bytes \<times> bytes \<times> bool) list" "(bytes \<times> bytes \<times> bool \<times> bytes) list" "message list"

text \<open>What a call has returned, with its arguments.\<close>

datatype call_result =
    Delivered bytes bytes "io_error + bytes"
  | Opened bytes "io_error + bytes"
  | Deleted bytes "io_error option"
  | Streamed bytes "io_error + bytes"
  | Listed "io_error + message list"

datatype proc =
    Delivering bytes bytes deliver_pc
  | Lookup lookup bytes lookup_pc
  | Listing list_pc
  | Finished call_result

section \<open>One call of an operation\<close>

definition after :: "io_error + 'a \<Rightarrow> fs \<Rightarrow> (io_error \<Rightarrow> proc) \<Rightarrow> ('a \<Rightarrow> proc \<times> fs) \<Rightarrow> proc \<times> fs" where
  "after r F err k = (case r of Inl e \<Rightarrow> (err e, F) | Inr x \<Rightarrow> k x)"

fun deliver_step :: "utab \<Rightarrow> path \<Rightarrow> os_env \<Rightarrow> fs \<Rightarrow> bytes \<Rightarrow> bytes \<Rightarrow> deliver_pc \<Rightarrow> proc \<times> fs" where
  "deliver_step T root W F rcpt msg DStart =
     (let recipient = mailbox_name T rcpt in
      if recipient = [] \<or> strings_ContainsAny recipient [SLASH, BACKSLASH]
      then (Finished (Delivered rcpt msg (Inl (ErrInvalid recipient))), F)
      else (Delivering rcpt msg (DMkdir [''tmp'', ''new'', ''cur'']), F))"
| "deliver_step T root W F rcpt msg (DMkdir (sub # subs)) =
     after (os_MkdirAll W F (filepath_Join (filepath_Join root [mailbox_name T rcpt]) [sub])) F
       (\<lambda>e. Finished (Delivered rcpt msg (Inl e)))
       (\<lambda>F'. (Delivering rcpt msg (DMkdir subs), F'))"
| "deliver_step T root W F rcpt msg (DMkdir []) =
     (case rand_read W of
        None \<Rightarrow> (Finished (Delivered rcpt msg (Inl (ErrOther ''rand''))), F)
      | Some randPart \<Rightarrow> (Delivering rcpt msg (DCreate (message_id W randPart)), F))"
| "deliver_step T root W F rcpt msg (DCreate mid) =
     after (os_CreateExcl W F (filepath_Join (filepath_Join root [mailbox_name T rcpt]) [''tmp'', mid])) F
       (\<lambda>e. Finished (Delivered rcpt msg (Inl e)))
       (\<lambda>F'. (Delivering rcpt msg (DWrite mid), F'))"
| "deliver_step T root W F rcpt msg (DWrite mid) =
     (Delivering rcpt msg (DClose mid),
      snd (os_Write W F (filepath_Join (filepath_Join root [mailbox_name T rcpt]) [''tmp'', mid]) msg))"
| "deliver_step T root W F rcpt msg (DClose mid) =
     (case sys_fail W SysClose (filepath_Join (filepath_Join root [mailbox_name T rcpt]) [''tmp'', mid]) of
        Some e \<Rightarrow> (Delivering rcpt msg (DCleanup mid e), F)
      | None \<Rightarrow> (Delivering rcpt msg (DRename mid), F))"
| "deliver_step T root W F rcpt msg (DRename mid) =
     (let base = filepath_Join root [mailbox_name T rcpt] in
      after (os_Rename W F (filepath_Join base [''tmp'', mid]) (filepath_Join base [''new'', mid])) F
        (\<lambda>e. Delivering rcpt msg (DCleanup mid e))
        (\<lambda>F'. (Finished (Delivered rcpt msg (Inr mid)), F')))"
| "deliver_step T root W F rcpt msg (DCleanup mid e) =
     (Finished (Delivered rcpt msg (Inl e)),
      remove_quietly W F (filepath_Join (filepath_Join root [mailbox_name T rcpt]) [''tmp'', mid]))"

text \<open>The end of a lookup that fails, and what follows one that finds a path.\<close>

fun lookup_failed :: "lookup \<Rightarrow> bytes \<Rightarrow> io_error \<Rightarrow> proc" where
  "lookup_failed Opening mid e = Finished (Opened mid (Inl e))"
| "lookup_failed Deleting mid e = Finished (Deleted mid (Some e))"
| "lookup_failed Reading mid e = Finished (Streamed mid (Inl e))"

fun lookup_found :: "lookup \<Rightarrow> path \<Rightarrow> bool \<Rightarrow> lookup_pc" where
  "lookup_found Opening p unread = LRead p unread"
| "lookup_found Deleting p unread = LRemove p"
| "lookup_found Reading p unread = LOpen p"

definition locate_todo :: "(bytes \<times> bool) list \<Rightarrow> (bytes \<times> bytes) list" where
  "locate_todo recipients =
     concat (map (\<lambda>(rec, isdir). if isdir then [(rec, ''new''), (rec, ''cur'')] else []) recipients)"

fun lookup_step :: "path \<Rightarrow> os_env \<Rightarrow> fs \<Rightarrow> lookup \<Rightarrow> bytes \<Rightarrow> lookup_pc \<Rightarrow> proc \<times> fs" where
  "lookup_step root W F what mid LStart =
     (if \<not> validID mid then (lookup_failed what mid (ErrInvalid ''invalid message reference''), F)
      else after (os_ReadDir W F root) F (lookup_failed what mid)
             (\<lambda>recipients. (Lookup what mid (LScan (locate_todo recipients)), F)))"
| "lookup_step root W F what mid (LScan []) = (lookup_failed what mid ErrNotExist, F)"
| "lookup_step root W F what mid (LScan ((rec, sub) # todo)) =
     (let p = filepath_Join root [rec, sub, mid] in
      case os_Stat W F p of
        Inr _ \<Rightarrow> (Lookup what mid (lookup_found what p (sub = ''new'')), F)
      | Inl _ \<Rightarrow> (Lookup what mid (LScan todo), F))"
| "lookup_step root W F what mid (LRead p unread) =
     after (os_ReadFile_at SysReadFile W F p) F (\<lambda>e. Finished (Opened mid (Inl e)))
       (\<lambda>raw. (if unread then Lookup what mid (LMark p raw) else Finished (Opened mid (Inr raw)), F))"
| "lookup_step root W F what mid (LMark p raw) =
     after (os_Rename W F p (filepath_Join (filepath_Dir (filepath_Dir p)) [''cur'', mid])) F
       (\<lambda>_. Finished (Opened mid (Inr raw)))
       (\<lambda>F'. (Finished (Opened mid (Inr raw)), F'))"
| "lookup_step root W F what mid (LRemove p) =
     after (os_Remove W F p) F (\<lambda>e. Finished (Deleted mid (Some e))) (\<lambda>F'. (Finished (Deleted mid None), F'))"
| "lookup_step root W F what mid (LOpen p) = (Finished (Streamed mid (os_ReadFile_at SysOpen W F p)), F)"

definition list_dirs :: "(bytes \<times> bool) list \<Rightarrow> (bytes \<times> bytes \<times> bool) list" where
  "list_dirs recipients =
     concat (map (\<lambda>(rec, isdir). if isdir then [(rec, ''new'', True), (rec, ''cur'', False)] else []) recipients)"

fun list_step :: "mail_env \<Rightarrow> path \<Rightarrow> os_env \<Rightarrow> fs \<Rightarrow> list_pc \<Rightarrow> proc \<times> fs" where
  "list_step M root W F IStart =
     after (os_ReadDir W F root) F
       (\<lambda>e. Finished (Listed (if e = ErrNotExist then Inr [] else Inl e)))
       (\<lambda>recipients. (Listing (IScan (list_dirs recipients) [] []), F))"
| "list_step M root W F (IScan dirs ((rec, dir, unread, mid) # es) msgs) =
     (Listing (IScan dirs es
        (msgs @ [summary M W F (filepath_Join (filepath_Join root [rec]) [dir, mid]) mid rec unread])), F)"
| "list_step M root W F (IScan ((rec, dir, unread) # dirs) [] msgs) =
     (case os_ReadDir W F (filepath_Join (filepath_Join root [rec]) [dir]) of
        Inl _ \<Rightarrow> (Listing (IScan dirs [] msgs), F)
      | Inr entries \<Rightarrow>
          (Listing (IScan dirs (map (\<lambda>(mid, _). (rec, dir, unread, mid)) (filter (\<lambda>(_, isdir). \<not> isdir) entries)) msgs),
           F))"
| "list_step M root W F (IScan [] [] msgs) = (Finished (Listed (Inr (sort_by_date M msgs))), F)"

fun proc_step :: "utab \<Rightarrow> mail_env \<Rightarrow> path \<Rightarrow> os_env \<Rightarrow> fs \<Rightarrow> proc \<Rightarrow> proc \<times> fs" where
  "proc_step T M root W F (Delivering rcpt msg pc) = deliver_step T root W F rcpt msg pc"
| "proc_step T M root W F (Lookup what mid pc) = lookup_step root W F what mid pc"
| "proc_step T M root W F (Listing pc) = list_step M root W F pc"
| "proc_step T M root W F (Finished r) = (Finished r, F)"

section \<open>Configurations\<close>

text \<open>
  A configuration: the file system and the calls made so far. A step is a new call or one step of
  a call under way. Deliveries are made for recipients other than dot and dot-dot.
\<close>

type_synonym conf = "fs \<times> (nat \<Rightarrow> proc option)"

fun new_call :: "utab \<Rightarrow> proc \<Rightarrow> bool" where
  "new_call T (Delivering rcpt msg pc) \<longleftrightarrow>
     pc = DStart \<and> mailbox_name T rcpt \<noteq> ''.'' \<and> mailbox_name T rcpt \<noteq> ''..''"
| "new_call T (Lookup what mid pc) \<longleftrightarrow> pc = LStart"
| "new_call T (Listing pc) \<longleftrightarrow> pc = IStart"
| "new_call T (Finished r) \<longleftrightarrow> False"

inductive conc_step :: "os_env set \<Rightarrow> utab \<Rightarrow> mail_env \<Rightarrow> path \<Rightarrow> conf \<Rightarrow> conf \<Rightarrow> bool"
  for E T M root where
  call: "ps n = None \<Longrightarrow> new_call T P \<Longrightarrow> conc_step E T M root (F, ps) (F, ps(n \<mapsto> P))"
| move: "ps n = Some P \<Longrightarrow> W \<in> E \<Longrightarrow> proc_step T M root W F P = (P', F') \<Longrightarrow>
    conc_step E T M root (F, ps) (F', ps(n \<mapsto> P'))"

section \<open>Every call ends\<close>

fun pc_rank :: "proc \<Rightarrow> nat \<times> nat \<times> nat" where
  "pc_rank (Delivering rcpt msg DStart) = (6, 0, 0)"
| "pc_rank (Delivering rcpt msg (DMkdir subs)) = (5, length subs, 0)"
| "pc_rank (Delivering rcpt msg (DCreate mid)) = (4, 0, 0)"
| "pc_rank (Delivering rcpt msg (DWrite mid)) = (3, 1, 0)"
| "pc_rank (Delivering rcpt msg (DClose mid)) = (3, 0, 0)"
| "pc_rank (Delivering rcpt msg (DRename mid)) = (2, 0, 0)"
| "pc_rank (Delivering rcpt msg (DCleanup mid e)) = (1, 0, 0)"
| "pc_rank (Lookup what mid LStart) = (4, 0, 0)"
| "pc_rank (Lookup what mid (LScan todo)) = (3, length todo, 0)"
| "pc_rank (Lookup what mid (LRead p unread)) = (2, 0, 0)"
| "pc_rank (Lookup what mid (LMark p raw)) = (1, 0, 0)"
| "pc_rank (Lookup what mid (LRemove p)) = (1, 0, 0)"
| "pc_rank (Lookup what mid (LOpen p)) = (1, 0, 0)"
| "pc_rank (Listing IStart) = (2, 0, 0)"
| "pc_rank (Listing (IScan dirs es msgs)) = (1, length dirs, length es)"
| "pc_rank (Finished r) = (0, 0, 0)"

definition rank_less :: "((nat \<times> nat \<times> nat) \<times> (nat \<times> nat \<times> nat)) set" where
  "rank_less = less_than <*lex*> less_than <*lex*> less_than"

lemma lookup_failed_rank [simp]: "pc_rank (lookup_failed what mid e) = (0, 0, 0)"
  by (cases what) simp_all

lemma lookup_found_rank [simp]: "(pc_rank (Lookup what mid (lookup_found what p u)), (3, n, m)) \<in> rank_less"
  by (cases what) (simp_all add: rank_less_def)

lemma proc_step_rank:
  assumes "proc_step T M root W F P = (P', F')" and "\<nexists>r. P = Finished r"
  shows "(pc_rank P', pc_rank P) \<in> rank_less"
proof (cases P)
  case (Delivering rcpt msg pc)
  with assms(1) show ?thesis
    by (cases "(T, root, W, F, rcpt, msg, pc)" rule: deliver_step.cases)
      (auto simp: rank_less_def after_def Let_def split: sum.splits option.splits if_splits)
next
  case (Lookup what mid pc)
  with assms(1) show ?thesis
    by (cases "(root, W, F, what, mid, pc)" rule: lookup_step.cases)
      (auto simp: after_def Let_def split: sum.splits if_splits, simp_all add: rank_less_def)
next
  case (Listing pc)
  with assms(1) show ?thesis
    by (cases "(M, root, W, F, pc)" rule: list_step.cases)
      (auto simp: rank_less_def after_def split: sum.splits)
next
  case (Finished r)
  with assms(2) show ?thesis by simp
qed

text \<open>
  C15. Every call of the store ends after finitely many calls of package os, whatever the other
  processes and the faults do between them: the steps of unfinished calls are well founded.
\<close>
theorem store_calls_terminate:
  "wf {(P', P). (\<nexists>r. P = Finished r) \<and> (\<exists>W F F'. proc_step T M root W F P = (P', F'))}"
proof (rule wf_subset)
  show "wf (inv_image rank_less pc_rank)" by (simp add: rank_less_def wf_lex_prod)
  show "{(P', P). (\<nexists>r. P = Finished r) \<and> (\<exists>W F F'. proc_step T M root W F P = (P', F'))} \<subseteq> inv_image rank_less pc_rank"
    using proc_step_rank unfolding inv_image_def by blast
qed

section \<open>A call that runs alone\<close>

text \<open>\<open>alone \<dots> P F r G\<close>: with no other process moving, \<open>P\<close> ends with \<open>r\<close> and leaves the files \<open>G\<close>.\<close>

inductive alone :: "utab \<Rightarrow> mail_env \<Rightarrow> path \<Rightarrow> os_env \<Rightarrow> proc \<Rightarrow> fs \<Rightarrow> call_result \<Rightarrow> fs \<Rightarrow> bool"
  for T M root W where
  ended: "alone T M root W (Finished r) F r F"
| steps: "\<nexists>r. P = Finished r \<Longrightarrow> proc_step T M root W F P = (P', F') \<Longrightarrow> alone T M root W P' F' r G \<Longrightarrow>
    alone T M root W P F r G"

lemma alone_Finished [simp]: "alone T M root W (Finished q) F r G \<longleftrightarrow> q = r \<and> F = G"
  by (auto elim: alone.cases intro: alone.intros)

lemma alone_unfold:
  "\<nexists>r. P = Finished r \<Longrightarrow>
    alone T M root W P F r G
      \<longleftrightarrow> alone T M root W (fst (proc_step T M root W F P)) (snd (proc_step T M root W F P)) r G"
  by (rule iffI) (auto elim: alone.cases intro: alone.steps [OF _ surjective_pairing])

lemma alone_simps:
  "alone T M root W (Delivering rcpt msg pc) F r G \<longleftrightarrow>
     (case deliver_step T root W F rcpt msg pc of (P', F') \<Rightarrow> alone T M root W P' F' r G)"
  "alone T M root W (Lookup what mid lpc) F r G \<longleftrightarrow>
     (case lookup_step root W F what mid lpc of (P', F') \<Rightarrow> alone T M root W P' F' r G)"
  "alone T M root W (Listing ipc) F r G \<longleftrightarrow>
     (case list_step M root W F ipc of (P', F') \<Rightarrow> alone T M root W P' F' r G)"
  by (subst alone_unfold; simp add: case_prod_beta)+

lemma alone_deliver_file:
  assumes "deliver_file W (filepath_Join root [mailbox_name T rcpt]) mid msg F = (res, Gs)"
  shows "alone T M root W (Delivering rcpt msg (DCreate mid)) F (Delivered rcpt msg res) (last (F # Gs))"
  using assms
  by (auto simp: alone_simps deliver_file_def Let_def after_def split: sum.splits option.splits prod.splits)

lemma alone_make_subdirs:
  "make_subdirs W (filepath_Join root [mailbox_name T rcpt]) subs F = (res, Fs) \<Longrightarrow>
    alone T M root W (Delivering rcpt msg (DMkdir subs)) F r G \<longleftrightarrow>
      (case res of
         Some e \<Rightarrow> r = Delivered rcpt msg (Inl e) \<and> G = last (F # Fs)
       | None \<Rightarrow> alone T M root W (Delivering rcpt msg (DMkdir [])) (last (F # Fs)) r G)"
proof (induction subs arbitrary: F Fs)
  case Nil
  then show ?case by auto
next
  case (Cons sub subs)
  then show ?case
    by (subst alone_simps) (auto simp: after_def split: sum.splits prod.splits option.splits)
qed

lemma alone_Deliver:
  assumes "Deliver T W root F rcpt msg = (res, G)"
  shows "alone T M root W (Delivering rcpt msg DStart) F (Delivered rcpt msg res) G"
proof (cases "name_accepted (mailbox_name T rcpt)")
  case False
  then show ?thesis using assms Deliver_run_bad_name [OF False]
    by (auto simp: alone_simps Deliver_def name_accepted_def strings_ContainsAny_iff)
next
  case True
  then have start: "alone T M root W (Delivering rcpt msg DStart) F r H \<longleftrightarrow>
      alone T M root W (Delivering rcpt msg (DMkdir [''tmp'', ''new'', ''cur''])) F r H" for r H
    by (subst alone_simps) (auto simp: name_accepted_def strings_ContainsAny_iff)
  obtain Fs where run: "Deliver_run T W root F rcpt msg = (res, Fs)" and G: "last Fs = G"
    using Deliver_eq [OF assms] by blast
  from True run show ?thesis
  proof (cases rule: Deliver_run_split)
    case (mkdir_failed e Ds)
    with G show ?thesis unfolding start alone_make_subdirs [OF mkdir_failed(3)] by simp
  next
    case (rand_failed e Ds)
    with G show ?thesis unfolding start alone_make_subdirs [OF rand_failed(4)]
      by (simp add: alone_simps)
  next
    case (filed rp Ds Gs)
    have "alone T M root W (Delivering rcpt msg (DMkdir [])) (last (F # Ds)) r H \<longleftrightarrow>
        alone T M root W (Delivering rcpt msg (DCreate (message_id W rp))) (last (F # Ds)) r H" for r H
      using filed(1) by (subst alone_simps) simp
    moreover have "last (last (F # Ds) # Gs) = G" using G filed(2) by auto
    ultimately show ?thesis
      using alone_deliver_file [OF filed(4)] unfolding start alone_make_subdirs [OF filed(3)] by simp
  qed
qed

lemma alone_scan:
  "alone T M root W (Lookup what mid (LScan (locate_todo recs))) F r G \<longleftrightarrow>
     (case locate_loop W root F mid recs of
        Inl e \<Rightarrow> alone T M root W (lookup_failed what mid e) F r G
      | Inr (p, u) \<Rightarrow> alone T M root W (Lookup what mid (lookup_found what p u)) F r G)"
proof (induction recs)
  case Nil
  then show ?case by (subst alone_simps) (simp add: locate_todo_def)
next
  case (Cons rd recs)
  obtain rec d where rd: "rd = (rec, d)" by fastforce
  show ?case
  proof (cases d)
    case False
    with Cons rd show ?thesis by (simp add: locate_todo_def)
  next
    case True
    then have "locate_todo (rd # recs) = (rec, ''new'') # (rec, ''cur'') # locate_todo recs"
      by (simp add: locate_todo_def rd)
    with Cons rd True show ?thesis
      by (subst alone_simps) (auto simp: alone_simps(2) [of _ _ _ _ _ _ "LScan (_ # _)"] Let_def split: sum.splits)
  qed
qed

lemma alone_locate:
  "alone T M root W (Lookup what mid LStart) F r G \<longleftrightarrow>
     (case locate W root F mid of
        Inl e \<Rightarrow> alone T M root W (lookup_failed what mid e) F r G
      | Inr (p, u) \<Rightarrow> alone T M root W (Lookup what mid (lookup_found what p u)) F r G)"
  by (subst alone_simps) (auto simp: locate_def after_def alone_scan split: sum.splits)

lemma alone_entries:
  "alone T M root W (Listing (IScan dirs es msgs)) F r G \<longleftrightarrow>
     alone T M root W (Listing (IScan dirs []
       (msgs @ map (\<lambda>(rec, dir, unread, mid).
          summary M W F (filepath_Join (filepath_Join root [rec]) [dir, mid]) mid rec unread) es))) F r G"
proof (induction es arbitrary: msgs)
  case Nil
  then show ?case by simp
next
  case (Cons e es)
  obtain rec dir unread mid where e: "e = (rec, dir, unread, mid)" by (metis prod_cases4)
  show ?case by (subst alone_simps) (simp add: e Cons)
qed

lemma alone_dir:
  "alone T M root W (Listing (IScan ((rec, dir, unread) # dirs) [] msgs)) F r G \<longleftrightarrow>
     alone T M root W (Listing (IScan dirs [] (msgs @ list_sub M W root F rec (dir, unread)))) F r G"
proof (cases "os_ReadDir W F (filepath_Join (filepath_Join root [rec]) [dir])")
  case (Inl e)
  then show ?thesis by (subst alone_simps) (simp add: list_sub_def)
next
  case (Inr entries)
  have step: "list_step M root W F (IScan ((rec, dir, unread) # dirs) [] msgs)
      = (Listing (IScan dirs (map (\<lambda>(mid, _). (rec, dir, unread, mid)) (filter (\<lambda>(_, isdir). \<not> isdir) entries)) msgs), F)"
    using Inr by simp
  show ?thesis
    by (subst alone_simps, unfold step prod.case, subst alone_entries)
      (simp add: list_sub_def Inr o_def case_prod_unfold)
qed

lemma alone_dirs:
  "alone T M root W (Listing (IScan dirs [] msgs)) F r G \<longleftrightarrow>
     r = Listed (Inr (sort_by_date M
       (msgs @ concat (map (\<lambda>(rec, sub). list_sub M W root F rec sub) dirs)))) \<and> G = F"
proof (induction dirs arbitrary: msgs)
  case Nil
  then show ?case by (subst alone_simps) auto
next
  case (Cons d dirs)
  obtain rec dir unread where d: "d = (rec, dir, unread)" by (metis prod_cases3)
  show ?case by (simp add: d alone_dir Cons)
qed

lemma concat_list_dirs:
  "concat (map (\<lambda>(rec, sub). f rec sub) (list_dirs recs))
     = concat (map (\<lambda>(rec, _). concat (map (f rec) [(''new'', True), (''cur'', False)]))
         (filter (\<lambda>(_, isdir). isdir) recs))"
  by (induction recs) (auto simp: list_dirs_def)

lemma alone_Open:
  "Store_Open W root F mid = (res, G) \<Longrightarrow>
     alone T M root W (Lookup Opening mid LStart) F (Opened mid res) G"
  unfolding alone_locate
  by (auto simp: alone_simps Store_Open_def after_def split: sum.splits if_splits prod.splits)

lemma alone_Delete:
  "Store_Delete W root F mid = (res, G) \<Longrightarrow>
     alone T M root W (Lookup Deleting mid LStart) F (Deleted mid res) G"
  unfolding alone_locate
  by (auto simp: alone_simps Store_Delete_def after_def split: sum.splits prod.splits)

lemma alone_Reader: "alone T M root W (Lookup Reading mid LStart) F (Streamed mid (Store_Reader W root F mid)) F"
  unfolding alone_locate by (auto simp: alone_simps Store_Reader_def split: sum.splits)

lemma alone_List: "alone T M root W (Listing IStart) F (Listed (Store_List M W root F)) F"
  by (subst alone_simps)
    (auto simp: Store_List_def after_def alone_dirs concat_list_dirs split: sum.splits io_error.splits)

text \<open>
  The processes are the operations: under the same circumstances, a delivery, an open, a
  deletion, a reader or a listing that runs alone ends, with the result and the files that the
  operation has as one uninterrupted function.
\<close>
lemma store_calls_sequential:
  "alone T M root W (Delivering rcpt msg DStart) F
     (Delivered rcpt msg (fst (Deliver T W root F rcpt msg))) (snd (Deliver T W root F rcpt msg))
   \<and> alone T M root W (Lookup Opening mid LStart) F
       (Opened mid (fst (Store_Open W root F mid))) (snd (Store_Open W root F mid))
   \<and> alone T M root W (Lookup Deleting mid LStart) F
       (Deleted mid (fst (Store_Delete W root F mid))) (snd (Store_Delete W root F mid))
   \<and> alone T M root W (Lookup Reading mid LStart) F (Streamed mid (Store_Reader W root F mid)) F
   \<and> alone T M root W (Listing IStart) F (Listed (Store_List M W root F)) F"
  by (simp add: alone_Deliver alone_Open alone_Delete alone_Reader alone_List)

section \<open>What a step does to the files\<close>

text \<open>The temporary file a delivery has made and not yet renamed or removed.\<close>

fun owns :: "utab \<Rightarrow> proc \<Rightarrow> (bytes \<times> bytes) option" where
  "owns T (Delivering rcpt msg (DWrite i)) = Some (mailbox_name T rcpt, i)"
| "owns T (Delivering rcpt msg (DClose i)) = Some (mailbox_name T rcpt, i)"
| "owns T (Delivering rcpt msg (DRename i)) = Some (mailbox_name T rcpt, i)"
| "owns T (Delivering rcpt msg (DCleanup i e)) = Some (mailbox_name T rcpt, i)"
| "owns T _ = None"

definition tmp_at :: "path \<Rightarrow> fs \<Rightarrow> bytes \<times> bytes \<Rightarrow> node option" where
  "tmp_at root F k = fs_at F (mpath root (fst k) ''tmp'' (snd k))"

text \<open>What holds of a process between its steps: its names are plain, its temporary file is there.\<close>

fun proc_ok :: "os_env set \<Rightarrow> utab \<Rightarrow> path \<Rightarrow> fs \<Rightarrow> proc \<Rightarrow> bool" where
  "proc_ok E T root F (Delivering rcpt msg DStart) \<longleftrightarrow> mailbox_name T rcpt \<noteq> ''.'' \<and> mailbox_name T rcpt \<noteq> ''..''"
| "proc_ok E T root F (Delivering rcpt msg (DMkdir subs)) \<longleftrightarrow> plain (mailbox_name T rcpt) \<and> (\<forall>s \<in> set subs. plain s)"
| "proc_ok E T root F (Delivering rcpt msg (DCreate i)) \<longleftrightarrow> plain (mailbox_name T rcpt) \<and> plain i"
| "proc_ok E T root F (Delivering rcpt msg (DWrite i)) \<longleftrightarrow>
     plain (mailbox_name T rcpt) \<and> plain i \<and> (\<exists>c. tmp_at root F (mailbox_name T rcpt, i) = Some (FileNode c))"
| "proc_ok E T root F (Delivering rcpt msg (DClose i)) \<longleftrightarrow>
     plain (mailbox_name T rcpt) \<and> plain i
     \<and> (\<exists>W \<in> E. tmp_at root F (mailbox_name T rcpt, i)
           = Some (FileNode (written W (mpath root (mailbox_name T rcpt) ''tmp'' i) msg)))"
| "proc_ok E T root F (Delivering rcpt msg (DRename i)) \<longleftrightarrow>
     plain (mailbox_name T rcpt) \<and> plain i
     \<and> (\<exists>W \<in> E. tmp_at root F (mailbox_name T rcpt, i)
           = Some (FileNode (written W (mpath root (mailbox_name T rcpt) ''tmp'' i) msg)))"
| "proc_ok E T root F (Delivering rcpt msg (DCleanup i e)) \<longleftrightarrow>
     plain (mailbox_name T rcpt) \<and> plain i \<and> (\<exists>c. tmp_at root F (mailbox_name T rcpt, i) = Some (FileNode c))"
| "proc_ok E T root F (Lookup what i (LScan todo)) \<longleftrightarrow>
     plain i \<and> (\<forall>(r, s) \<in> set todo. plain r \<and> (s = ''new'' \<or> s = ''cur''))"
| "proc_ok E T root F (Lookup what i (LRead p u)) \<longleftrightarrow> plain i \<and> (\<exists>r. plain r \<and> p = mpath root r (subdir u) i)"
| "proc_ok E T root F (Lookup what i (LMark p raw)) \<longleftrightarrow> plain i \<and> (\<exists>r. plain r \<and> p = mpath root r ''new'' i)"
| "proc_ok E T root F (Lookup what i (LRemove p)) \<longleftrightarrow> plain i \<and> (\<exists>r u. plain r \<and> p = mpath root r (subdir u) i)"
| "proc_ok E T root F _ \<longleftrightarrow> True"

lemma owned_file:
  "proc_ok E T root F P \<Longrightarrow> owns T P = Some k \<Longrightarrow> \<exists>c. tmp_at root F k = Some (FileNode c)"
  by (induction T P rule: owns.induct) auto

lemma proc_ok_frame:
  "proc_ok E T root F P \<Longrightarrow> (\<And>k. owns T P = Some k \<Longrightarrow> tmp_at root G k = tmp_at root F k) \<Longrightarrow> proc_ok E T root G P"
  by (induction E T root F P rule: proc_ok.induct) auto

lemma deliver_step_effect:
  assumes "deliver_step T root W F rcpt msg pc = (P', F')" and "cleaned root" and "proc_ok E T root F (Delivering rcpt msg pc)"
  obtains (still) "F' = F" and "owns T P' = owns T (Delivering rcpt msg pc) \<or> owns T P' = None"
  | (made) s where "os_MkdirAll W F (child (child root (mailbox_name T rcpt)) s) = Inr F'"
      and "plain (mailbox_name T rcpt)" and "plain s"
      and "owns T (Delivering rcpt msg pc) = None" and "owns T P' = None"
  | (created) i where "pc = DCreate i" and "owns T P' = Some (mailbox_name T rcpt, i)" and "plain i"
      and "os_CreateExcl W F (mpath root (mailbox_name T rcpt) ''tmp'' i) = Inr F'"
  | (wrote) i c where "pc = DWrite i" and "owns T P' = Some (mailbox_name T rcpt, i)" and "plain i"
      and "F' = AList.update (mpath root (mailbox_name T rcpt) ''tmp'' i) (FileNode c) F"
  | (cleaned) i e where "pc = DCleanup i e" and "owns T P' = None"
      and "F' = AList.delete (mpath root (mailbox_name T rcpt) ''tmp'' i) F"
  | (filed) i where "pc = DRename i" and "P' = Finished (Delivered rcpt msg (Inr i))" and "plain i"
      and "os_Rename W F (mpath root (mailbox_name T rcpt) ''tmp'' i) (mpath root (mailbox_name T rcpt) ''new'' i) = Inr F'"
proof (cases pc)
  case (DMkdir subs)
  then have p: "plain (mailbox_name T rcpt)" "\<forall>s \<in> set subs. plain s" using assms(3) by auto
  show ?thesis
  proof (cases subs)
    case Nil
    with assms(1) DMkdir show ?thesis by (auto split: option.splits intro: still)
  next
    case (Cons s ss)
    with p have "plain s" by simp
    with assms(1,2) DMkdir Cons p show ?thesis
      by (auto simp: after_def split: sum.splits intro: still made [of s])
  qed
next
  case (DCleanup i e)
  let ?t = "mpath root (mailbox_name T rcpt) ''tmp'' i"
  have "F' = remove_quietly W F ?t" "P' = Finished (Delivered rcpt msg (Inl e))"
    using assms DCleanup by (auto simp flip: mpath_def)
  with remove_quietly_cases [of W F ?t] DCleanup still cleaned [of i] show ?thesis by auto
next
  case (DWrite i)
  let ?t = "mpath root (mailbox_name T rcpt) ''tmp'' i"
  have "P' = Delivering rcpt msg (DClose i)" "plain i" "F' = AList.update ?t (FileNode (written W ?t msg)) F"
    using assms DWrite by (auto simp: os_Write_snd simp flip: mpath_def)
  then show ?thesis using DWrite by (intro wrote [of i]) simp_all
next
  case (DCreate i)
  with assms show ?thesis
    by (auto simp: after_def simp flip: mpath_def split: sum.splits intro: still created [of i])
next
  case (DRename i)
  with assms show ?thesis
    by (auto simp: after_def simp flip: mpath_def split: sum.splits intro: still filed [of i])
qed (use assms(1) in \<open>auto simp: Let_def split: if_splits option.splits intro: still\<close>)

lemma lookup_step_effect:
  assumes "lookup_step root W F what i pc = (P', F')" and "cleaned root" and "proc_ok E T root F (Lookup what i pc)"
  obtains (still) "F' = F" and "owns T P' = None"
  | (marked) r raw where "pc = LMark (mpath root r ''new'' i) raw" and "P' = Finished (Opened i (Inr raw))" and "plain i"
      and "os_Rename W F (mpath root r ''new'' i) (mpath root r ''cur'' i) = Inr F'"
  | (removed) r u where "pc = LRemove (mpath root r (subdir u) i)" and "P' = Finished (Deleted i None)"
      and "os_Remove W F (mpath root r (subdir u) i) = Inr F'"
proof -
  have f: "owns T (lookup_failed what i e) = None" for e by (cases what) simp_all
  show ?thesis
  proof (cases pc)
    case (LScan todo)
    with assms(1) f have "F' = F \<and> owns T P' = None"
      by (cases todo) (auto simp: Let_def split: sum.splits prod.splits)
    then show ?thesis by (auto intro: still)
  next
    case (LMark p raw)
    then obtain r where r: "plain r" "p = mpath root r ''new'' i" "plain i" using assms(3) by auto
    have "filepath_Join (filepath_Dir (filepath_Dir p)) [''cur'', i] = mpath root r ''cur'' i"
      using r assms(2) by (simp add: mpath_def)
    with assms(1) LMark r show ?thesis
      by (auto simp: after_def split: sum.splits intro: still marked [of r raw])
  next
    case (LRemove p)
    then obtain r u where "p = mpath root r (subdir u) i" using assms(3) by auto
    with assms(1) LRemove show ?thesis
      by (auto simp: after_def split: sum.splits intro: still removed [of r u])
  qed (use assms(1) f in \<open>auto simp: after_def split: if_splits sum.splits intro: still\<close>)
qed

lemma proc_step_effect:
  assumes "proc_step T M root W F P = (P', F')" and "store_ok root F" and "proc_ok E T root F P"
  obtains (still) "F' = F" and "owns T P' = owns T P \<or> owns T P' = None"
  | (made) r s where "os_MkdirAll W F (child (child root r) s) = Inr F'" and "plain r" and "plain s"
      and "owns T P = None" and "owns T P' = None"
  | (created) r i where "owns T P = None" and "owns T P' = Some (r, i)" and "plain i"
      and "os_CreateExcl W F (mpath root r ''tmp'' i) = Inr F'"
  | (wrote) r i c where "owns T P = Some (r, i)" and "owns T P' = Some (r, i)" and "plain i"
      and "F' = AList.update (mpath root r ''tmp'' i) (FileNode c) F"
  | (cleaned) r i where "owns T P = Some (r, i)" and "owns T P' = None"
      and "F' = AList.delete (mpath root r ''tmp'' i) F"
  | (filed) rcpt msg i where "P = Delivering rcpt msg (DRename i)" and "P' = Finished (Delivered rcpt msg (Inr i))"
      and "plain i"
      and "os_Rename W F (mpath root (mailbox_name T rcpt) ''tmp'' i) (mpath root (mailbox_name T rcpt) ''new'' i) = Inr F'"
  | (marked) what r i raw where "P = Lookup what i (LMark (mpath root r ''new'' i) raw)"
      and "P' = Finished (Opened i (Inr raw))" and "plain i"
      and "os_Rename W F (mpath root r ''new'' i) (mpath root r ''cur'' i) = Inr F'"
  | (removed) what r u i where "P = Lookup what i (LRemove (mpath root r (subdir u) i))"
      and "P' = Finished (Deleted i None)" and "os_Remove W F (mpath root r (subdir u) i) = Inr F'"
proof (cases P)
  case (Delivering rcpt msg pc)
  note step = assms(1,3) [unfolded Delivering, simplified proc_step.simps]
  from step(1) store_okD(1) [OF assms(2)] step(2) show ?thesis
    by (cases rule: deliver_step_effect) (rule still made created wrote cleaned filed; simp add: Delivering)+
next
  case (Lookup what i pc)
  note step = assms(1,3) [unfolded Lookup, simplified proc_step.simps]
  from step(1) store_okD(1) [OF assms(2)] step(2) show ?thesis
    by (cases rule: lookup_step_effect) (rule still marked removed; simp add: Lookup)+
next
  case (Listing pc)
  have "F' = F \<and> owns T P' = None"
    using assms(1) Listing
    by (cases "(M, root, W, F, pc)" rule: list_step.cases) (auto simp: after_def split: sum.splits)
  then show ?thesis by (auto intro: still)
next
  case (Finished r)
  with assms(1) show ?thesis by (auto intro: still)
qed

section \<open>The invariant of a configuration\<close>

text \<open>Distinct processes own distinct temporary files.\<close>

definition conc_inv :: "os_env set \<Rightarrow> utab \<Rightarrow> path \<Rightarrow> conf \<Rightarrow> bool" where
  "conc_inv E T root cf \<longleftrightarrow>
     store_ok root (fst cf)
     \<and> (\<forall>n P. snd cf n = Some P \<longrightarrow> proc_ok E T root (fst cf) P)
     \<and> (\<forall>n m P Q k. snd cf n = Some P \<longrightarrow> snd cf m = Some Q \<longrightarrow> owns T P = Some k \<longrightarrow> owns T Q = Some k \<longrightarrow> n = m)"

lemma conc_invD:
  assumes "conc_inv E T root (F, ps)"
  shows "store_ok root F" and "ps n = Some P \<Longrightarrow> proc_ok E T root F P"
    and "ps n = Some P \<Longrightarrow> ps m = Some Q \<Longrightarrow> owns T P = Some k \<Longrightarrow> owns T Q = Some k \<Longrightarrow> n = m"
  using assms unfolding conc_inv_def fst_conv snd_conv by blast+

lemma conc_invI:
  assumes "store_ok root F" and "\<And>n P. ps n = Some P \<Longrightarrow> proc_ok E T root F P"
    and "\<And>n m P Q k. ps n = Some P \<Longrightarrow> ps m = Some Q \<Longrightarrow> owns T P = Some k \<Longrightarrow> owns T Q = Some k \<Longrightarrow> n = m"
  shows "conc_inv E T root (F, ps)"
  using assms unfolding conc_inv_def fst_conv snd_conv by blast

lemma proc_step_keeps_store:
  assumes "proc_step T M root W F P = (P', F')" and "store_ok root F" and "proc_ok E T root F P"
  shows "store_ok root F'"
  using assms
proof (cases rule: proc_step_effect)
  case (made r s)
  with assms(2) show ?thesis using MkdirAll_store_ok by blast
next
  case (created r i)
  then show ?thesis using assms(2) CreateExcl_Inr [OF created(4)]
    by (auto intro!: store_ok_update_file [where m = i] simp: is_dir_def mpath_def)
next
  case (wrote r i c)
  obtain b where b: "fs_at F (mpath root r ''tmp'' i) = Some (FileNode b)"
    using owned_file [OF assms(3) wrote(1)] by (auto simp: tmp_at_def)
  then have "is_dir F (child (child root r) ''tmp'')" using store_ok_mail_dirs [OF assms(2)] by auto
  with b wrote(3,4) assms(2) show ?thesis
    by (auto intro!: store_ok_update_file [where m = i] simp: is_dir_def mpath_def)
next
  case (cleaned r i)
  then show ?thesis using owned_file [OF assms(3) cleaned(1)]
    by (auto intro!: store_ok_delete_file assms(2) simp: is_dir_def tmp_at_def)
next
  case (filed rcpt msg i)
  from filed(4) show ?thesis
    by (rule Rename_Inr) (use assms(2) filed(3) in
      \<open>auto intro!: store_ok_update_file [where m = i] store_ok_delete_file simp: is_dir_def mpath_def\<close>)
next
  case (marked what r i raw)
  from marked(4) show ?thesis
    by (rule Rename_Inr) (use assms(2) marked(3) in
      \<open>auto intro!: store_ok_update_file [where m = i] store_ok_delete_file simp: is_dir_def mpath_def\<close>)
next
  case (removed what r u i)
  then show ?thesis using Remove_store_ok [OF assms(2)] by blast
qed (use assms(2) in simp)

lemma Rename_at: "os_Rename W F p q = Inr G \<Longrightarrow> x \<noteq> p \<Longrightarrow> x \<noteq> q \<Longrightarrow> fs_at G x = fs_at F x"
  by (erule Rename_Inr) simp

text \<open>A step leaves the temporary files of the other processes alone.\<close>

lemma proc_step_tmp:
  assumes "proc_step T M root W F P = (P', F')" and "store_ok root F" and "proc_ok E T root F P"
    and "tmp_at root F k \<noteq> None" and "owns T P \<noteq> Some k"
  shows "tmp_at root F' k = tmp_at root F k"
  using assms(1-3)
proof (cases rule: proc_step_effect)
  case (made r s)
  then have "dirs_added root r F F'" using MkdirAll_sub by blast
  then show ?thesis using assms(4) dirs_addedD(1) by (fastforce simp: tmp_at_def)
next
  case (created r i)
  then show ?thesis using CreateExcl_Inr [OF created(4)] assms(4) by (auto simp: tmp_at_def)
next
  case (wrote r i c)
  then show ?thesis using assms(5) by (cases k) (auto simp: tmp_at_def)
next
  case (cleaned r i)
  then show ?thesis using assms(5) by (cases k) (auto simp: tmp_at_def)
next
  case (filed rcpt msg i)
  then have "k \<noteq> (mailbox_name T rcpt, i)" using assms(5) by auto
  then show ?thesis using Rename_at [OF filed(4)] by (cases k) (auto simp: tmp_at_def)
next
  case (marked what r i raw)
  then show ?thesis using Rename_at [OF marked(4)] by (simp add: tmp_at_def)
next
  case (removed what r u i)
  then show ?thesis using Remove_Inr [OF removed(3)] by (simp add: tmp_at_def)
qed simp

lemma proc_step_acquires:
  assumes "proc_step T M root W F P = (P', F')" and "store_ok root F" and "proc_ok E T root F P"
    and "owns T P' = Some k"
  shows "owns T P = Some k \<or> tmp_at root F k = None"
  using assms(1-3)
  by (cases rule: proc_step_effect) (use assms(4) in \<open>auto dest: CreateExcl_Inr simp: tmp_at_def\<close>)

lemma locate_todo_ok:
  assumes "store_ok root F" and "os_ReadDir W F root = Inr recs" and "(r, s) \<in> set (locate_todo recs)"
  shows "plain r \<and> (s = ''new'' \<or> s = ''cur'')"
proof -
  have "(r, True) \<in> set recs" "s = ''new'' \<or> s = ''cur''"
    using assms(3) by (auto simp: locate_todo_def split: if_splits)
  moreover from this have "r \<in> set (dir_names F root)" using ReadDir_names [OF assms(2)] by (metis fst_conv image_eqI set_map)
  ultimately show ?thesis using store_okD(4) [OF assms(1), of root r] by (simp add: set_dir_names)
qed

lemma proc_ok_failed [simp]: "proc_ok E T root F (lookup_failed what mid e)"
  by (cases what) simp_all

lemma proc_ok_found:
  assumes "cleaned root" and "plain i" and "plain r" and "s = ''new'' \<or> s = ''cur''"
  shows "proc_ok E T root F (Lookup what i (lookup_found what (filepath_Join root [r, s, i]) (s = ''new'')))"
proof -
  have "filepath_Join root [r, s, i] = mpath root r (subdir (s = ''new'')) i"
    using assms by (auto simp: subdir_def)
  then show ?thesis using assms by (cases what) auto
qed

text \<open>The process that moves is again as it should be.\<close>

lemma proc_step_ok:
  assumes "proc_step T M root W F P = (P', F')" and "store_ok root F" and "proc_ok E T root F P"
    and "W \<in> E" and "SLASH \<notin> set (hostname W)"
  shows "proc_ok E T root F' P'"
proof (cases P)
  case (Delivering rcpt msg pc)
  note cl = store_okD(1) [OF assms(2)]
  show ?thesis
  proof (cases pc)
    case (DWrite i)
    with assms(1,3,4) Delivering cl show ?thesis by (auto simp: tmp_at_def os_Write_snd simp flip: mpath_def)
  next
    case (DCreate i)
    with assms(1,3) Delivering cl show ?thesis
      by (auto simp: after_def tmp_at_def simp flip: mpath_def split: sum.splits dest!: CreateExcl_Inr)
  next
    case (DMkdir subs)
    with assms(1,3) Delivering message_id_plain [OF assms(5)] show ?thesis
      by (cases subs) (auto simp: after_def split: sum.splits option.splits)
  next
    case DStart
    with assms(1,3) Delivering show ?thesis
      by (auto simp: Let_def plain_def strings_ContainsAny_iff split: if_splits)
  qed (use assms(1,3) Delivering in \<open>auto simp: after_def Let_def split: sum.splits option.splits\<close>)
next
  case (Lookup what i pc)
  show ?thesis
  proof (cases pc)
    case LStart
    with assms(1,2) Lookup validID_plain show ?thesis
      by (auto simp: after_def split: if_splits sum.splits dest: locate_todo_ok)
  next
    case (LScan todo)
    show ?thesis
    proof (cases todo)
      case Nil
      with assms(1) Lookup LScan show ?thesis by auto
    next
      case (Cons rs todo')
      obtain r s where rs: "rs = (r, s)" by fastforce
      then have ok: "plain i" "plain r" "s = ''new'' \<or> s = ''cur''"
        and "\<forall>(r, s) \<in> set todo'. plain r \<and> (s = ''new'' \<or> s = ''cur'')"
        using assms(3) Lookup LScan Cons by auto
      then show ?thesis
        using assms(1) Lookup LScan Cons rs proc_ok_found [OF store_okD(1) [OF assms(2)] ok, of E T F' what]
        by (cases "os_Stat W F (filepath_Join root [r, s, i])") (auto simp: Let_def)
    qed
  qed (use assms(1,3) Lookup in \<open>auto simp: after_def subdir_def split: sum.splits if_splits\<close>)
next
  case (Listing pc)
  with assms(1) show ?thesis
    by (cases "(M, root, W, F, pc)" rule: list_step.cases) (auto simp: after_def split: sum.splits)
next
  case (Finished r)
  with assms(1) show ?thesis by auto
qed

lemma new_call_ok: "new_call T P \<Longrightarrow> proc_ok E T root F P \<and> owns T P = None"
  by (cases P) auto

text \<open>The calls of the store are such processes; their resources are the temporary files.\<close>

interpretation store_calls: owned_resources
  "proc_step T M root" "store_ok root" "proc_ok E T root" "owns T" "tmp_at root" "\<lambda>W. W \<in> E \<and> SLASH \<notin> set (hostname W)"
  for E T M root
proof (unfold_locales, goal_cases)
  case (1 W F P P' F')
  then show ?case by (blast intro: proc_step_keeps_store)
next
  case (2 W F P P' F')
  then show ?case by (blast intro: proc_step_ok)
next
  case (3 F P k)
  then show ?case using owned_file by fastforce
next
  case (4 W F P P' F' k)
  then show ?case by (rule proc_step_tmp)
next
  case (5 W F P P' F' k)
  then show ?case by (rule proc_step_acquires)
next
  case (6 F P F')
  then show ?case by (rule proc_ok_frame)
qed

lemma conc_step_inv:
  assumes "conc_step E T M root cf cf'" and "conc_inv E T root cf" and "\<forall>W \<in> E. SLASH \<notin> set (hostname W)"
  shows "conc_inv E T root cf'"
  using assms(1)
proof cases
  case (call ps n P F)
  note inv = conc_invD [OF assms(2) [unfolded call(1)]]
  show ?thesis
    unfolding call(2) using inv new_call_ok [OF call(4), of E root F]
    by (intro conc_invI) (auto split: if_splits)
next
  case (move ps n P W F P' F')
  note inv = conc_invD [OF assms(2) [unfolded move(1)]]
  have W: "W \<in> E \<and> SLASH \<notin> set (hostname W)" using move(4) assms(3) by blast
  note moved = store_calls.one_moves [where ps = ps and n = n, OF inv move(3) W move(5)]
  show ?thesis unfolding move(2) by (rule conc_invI) (erule moved | rule moved; assumption)+
qed

section \<open>What a step does to the mail\<close>

lemma proc_step_mails:
  assumes "proc_step T M root W F P = (P', F')" and "store_ok root F" and "proc_ok E T root F P"
  obtains (same) "mails root F' = mails root F"
  | (filed) rcpt msg i c where "P = Delivering rcpt msg (DRename i)" and "P' = Finished (Delivered rcpt msg (Inr i))"
      and "tmp_at root F (mailbox_name T rcpt, i) = Some (FileNode c)"
      and "mails root F' = (mails root F)((mailbox_name T rcpt, True, i) \<mapsto> c)"
  | (marked) r i raw c where "P' = Finished (Opened i (Inr raw))" and "mails root F (r, True, i) = Some c"
      and "mails root F' = (mails root F)((r, True, i) := None, (r, False, i) \<mapsto> c)"
  | (removed) r u i where "P' = Finished (Deleted i None)" and "mails root F' = (mails root F)((r, u, i) := None)"
  using assms
proof (cases rule: proc_step_effect)
  case still
  then show ?thesis by (auto intro: same)
next
  case (made r s)
  then have "mails root F' = mails root F" using MkdirAll_sub mails_dirs_added by blast
  then show ?thesis by (rule same)
next
  case (created r i)
  then show ?thesis by (auto dest!: CreateExcl_Inr intro: same)
next
  case (wrote r i c)
  then show ?thesis by (auto intro: same)
next
  case (cleaned r i)
  then show ?thesis by (auto intro: same)
next
  case f: (filed rcpt msg i)
  from f(4) show ?thesis
    by (rule Rename_Inr) (rule filed [OF f(1,2)], simp_all add: tmp_at_def)
next
  case m: (marked what r i raw)
  from m(4) show ?thesis
  proof (rule Rename_Inr)
    fix c
    assume c: "fs_at F (mpath root r ''new'' i) = Some (FileNode c)"
      and F': "F' = AList.update (mpath root r ''cur'' i) (FileNode c) (AList.delete (mpath root r ''new'' i) F)"
    have "mails root F (r, True, i) = Some c" using c by (simp add: mails_def subdir_def)
    with mails_move_read [OF c] F' show ?thesis by (intro marked [OF m(2)]) simp_all
  qed
next
  case r: (removed what r u i)
  then show ?thesis using Remove_Inr [OF r(3)] by (intro removed [OF r(2)]) simp
qed

lemma delivered_step:
  "proc_step T M root W F P = (Finished (Delivered rcpt msg (Inr i)), F') \<Longrightarrow>
     P = Finished (Delivered rcpt msg (Inr i))
     \<or> P = Delivering rcpt msg (DRename i)
       \<and> os_Rename W F (filepath_Join (filepath_Join root [mailbox_name T rcpt]) [''tmp'', i])
           (filepath_Join (filepath_Join root [mailbox_name T rcpt]) [''new'', i]) = Inr F'"
proof (induction T M root W F P rule: proc_step.induct)
  case (1 T M root W F rcpt' msg' pc)
  then show ?case
    by (cases "(T, root, W, F, rcpt', msg', pc)" rule: deliver_step.cases)
      (auto simp: after_def Let_def split: sum.splits option.splits if_splits)
next
  case (2 T M root W F what mid pc)
  moreover have "lookup_failed what mid e \<noteq> Finished (Delivered rcpt msg (Inr i))" for e by (cases what) simp_all
  ultimately show ?case
    by (cases "(root, W, F, what, mid, pc)" rule: lookup_step.cases)
      (auto simp: after_def Let_def split: sum.splits if_splits)
next
  case (3 T M root W F pc)
  then show ?case
    by (cases "(M, root, W, F, pc)" rule: list_step.cases) (auto simp: after_def split: sum.splits)
qed simp

text \<open>Finished calls stay as they are.\<close>

lemma conc_step_finished:
  "conc_step E T M root cf cf' \<Longrightarrow> snd cf n = Some (Finished r) \<Longrightarrow> snd cf' n = Some (Finished r)"
  by (auto elim!: conc_step.cases)

lemma conc_run_inv:
  assumes "(conc_step E T M root)\<^sup>*\<^sup>* cf cf'" and "conc_inv E T root cf" and "\<forall>W \<in> E. SLASH \<notin> set (hostname W)"
  shows "conc_inv E T root cf'"
  using assms by (induction rule: rtranclp_induct) (auto intro: conc_step_inv)

lemma conc_inv_start: "store_ok root F \<Longrightarrow> conc_inv E T root (F, Map.empty)"
  by (simp add: conc_inv_def)

text \<open>Where a message comes from: it was there at the start, or a finished delivery wrote it.\<close>

definition mail_origin :: "os_env set \<Rightarrow> utab \<Rightarrow> path \<Rightarrow> fs \<Rightarrow> conf \<Rightarrow> bytes \<Rightarrow> bytes \<Rightarrow> bytes \<Rightarrow> bool" where
  "mail_origin E T root F0 cf r i c \<longleftrightarrow>
     (\<exists>u. mails root F0 (r, u, i) = Some c)
     \<or> (\<exists>n rcpt msg. snd cf n = Some (Finished (Delivered rcpt msg (Inr i))) \<and> mailbox_name T rcpt = r
          \<and> (\<exists>W \<in> E. c = written W (mpath root r ''tmp'' i) msg))"

lemma mail_origin_mono:
  "mail_origin E T root F0 cf r i c \<Longrightarrow> conc_step E T M root cf cf' \<Longrightarrow> mail_origin E T root F0 cf' r i c"
  unfolding mail_origin_def by (blast dest: conc_step_finished)

lemma conc_step_origin:
  assumes "conc_step E T M root cf cf'" and "conc_inv E T root cf"
    and "\<And>r u i c. mails root (fst cf) (r, u, i) = Some c \<Longrightarrow> mail_origin E T root F0 cf r i c"
    and "mails root (fst cf') (r, u, i) = Some c"
  shows "mail_origin E T root F0 cf' r i c"
proof -
  have old: "mail_origin E T root F0 cf' r i c" if "mails root (fst cf) (r, u', i) = Some c" for u'
    using mail_origin_mono [OF assms(3) [OF that] assms(1)] .
  from assms(1) show ?thesis
  proof cases
    case (call ps n P F)
    with assms(4) old show ?thesis by simp
  next
    case (move ps n P W F P' F')
    note inv = conc_invD [OF assms(2) [unfolded move(1)]]
    from move(5) inv(1) inv(2) [OF move(3)] show ?thesis
    proof (cases rule: proc_step_mails)
      case same
      with assms(4) old move(1,2) show ?thesis by simp
    next
      case (filed rcpt msg j b)
      show ?thesis
      proof (cases "(r, u, i) = (mailbox_name T rcpt, True, j)")
        case False
        then have "mails root F (r, u, i) = Some c" using assms(4) filed(4) move(2) by (auto split: if_splits)
        with old move(1) show ?thesis by simp
      next
        case True
        then have "c = b" using assms(4) filed(4) move(2) by simp
        moreover have "\<exists>W \<in> E. b = written W (mpath root r ''tmp'' i) msg"
          using inv(2) [OF move(3)] filed(1,3) True by auto
        ultimately show ?thesis using True filed(2) move(2) by (auto simp: mail_origin_def)
      qed
    next
      case (marked r' j raw b)
      then have "\<exists>u'. mails root F (r, u', i) = Some c"
        using assms(4) move(2) by (auto split: if_splits)
      with old move(1) show ?thesis by auto
    next
      case (removed r' u' j)
      with assms(4) move(1,2) old show ?thesis by (auto split: if_splits)
    qed
  qed
qed

lemma conc_run_origin:
  assumes "(conc_step E T M root)\<^sup>*\<^sup>* (F0, Map.empty) cf" and "store_ok root F0"
    and "\<forall>W \<in> E. SLASH \<notin> set (hostname W)" and "mails root (fst cf) (r, u, i) = Some c"
  shows "mail_origin E T root F0 cf r i c"
  using assms(1,4)
proof (induction arbitrary: r u i c rule: rtranclp_induct)
  case base
  then show ?case by (auto simp: mail_origin_def)
next
  case (step cf cf')
  have "conc_inv E T root cf" by (rule conc_run_inv [OF step(1) conc_inv_start [OF assms(2)] assms(3)])
  from conc_step_origin [OF step(2) this step.IH step.prems] show ?case .
qed

text \<open>A delivered message stays until its id is deleted.\<close>

definition mail_kept :: "utab \<Rightarrow> path \<Rightarrow> conf \<Rightarrow> bool" where
  "mail_kept T root cf \<longleftrightarrow>
     (\<forall>n rcpt msg i. snd cf n = Some (Finished (Delivered rcpt msg (Inr i))) \<longrightarrow>
        (\<exists>m. snd cf m = Some (Finished (Deleted i None))) \<or> (\<exists>u. mails root (fst cf) (mailbox_name T rcpt, u, i) \<noteq> None))"

lemma mail_keptD:
  "mail_kept T root cf \<Longrightarrow> snd cf n = Some (Finished (Delivered rcpt msg (Inr i))) \<Longrightarrow>
     \<forall>m. snd cf m \<noteq> Some (Finished (Deleted i None)) \<Longrightarrow> \<exists>u. mails root (fst cf) (mailbox_name T rcpt, u, i) \<noteq> None"
  unfolding mail_kept_def by blast

lemma proc_step_loses:
  assumes "proc_step T M root W F P = (P', F')" and "store_ok root F" and "proc_ok E T root F P"
    and "mails root F (r, u, i) \<noteq> None" and "P' \<noteq> Finished (Deleted i None)"
  shows "\<exists>u. mails root F' (r, u, i) \<noteq> None"
  using assms(1-3)
proof (cases rule: proc_step_mails)
  case (filed rcpt msg j c)
  then have "mails root F' (r, u, i) \<noteq> None" using assms(4) by auto
  then show ?thesis by blast
next
  case (marked r' j raw c)
  show ?thesis
  proof (cases "r = r' \<and> i = j")
    case True
    then have "mails root F' (r, False, i) \<noteq> None" using marked(3) by simp
    then show ?thesis by blast
  next
    case False
    then have "mails root F' (r, u, i) \<noteq> None" using marked(3) assms(4) by auto
    then show ?thesis by blast
  qed
next
  case (removed r' u' j)
  then have "mails root F' (r, u, i) \<noteq> None" using assms(4,5) by auto
  then show ?thesis by blast
qed (use assms(4) in auto)

text \<open>A delivery that has just returned its id has put a message under it.\<close>

lemma proc_step_delivers:
  assumes "proc_step T M root W F P = (Finished (Delivered rcpt msg (Inr i)), F')" and "store_ok root F"
    and "proc_ok E T root F P" and "P \<noteq> Finished (Delivered rcpt msg (Inr i))"
  shows "mails root F' (mailbox_name T rcpt, True, i) \<noteq> None"
proof -
  from delivered_step [OF assms(1)] assms(4) have P: "P = Delivering rcpt msg (DRename i)"
    and R: "os_Rename W F (filepath_Join (filepath_Join root [mailbox_name T rcpt]) [''tmp'', i])
      (filepath_Join (filepath_Join root [mailbox_name T rcpt]) [''new'', i]) = Inr F'" by auto
  have "plain (mailbox_name T rcpt)" "plain i" using assms(3) P by simp_all
  with R store_okD(1) [OF assms(2)]
  have "os_Rename W F (mpath root (mailbox_name T rcpt) ''tmp'' i) (mpath root (mailbox_name T rcpt) ''new'' i) = Inr F'"
    by (simp flip: mpath_def)
  then show ?thesis by (rule Rename_Inr) simp
qed

lemma conc_step_kept:
  assumes "conc_step E T M root cf cf'" and "conc_inv E T root cf" and "mail_kept T root cf"
  shows "mail_kept T root cf'"
  unfolding mail_kept_def
proof (intro allI impI disjCI)
  fix n rcpt msg i
  assume d: "snd cf' n = Some (Finished (Delivered rcpt msg (Inr i)))"
    and none: "\<nexists>u. mails root (fst cf') (mailbox_name T rcpt, u, i) \<noteq> None"
  have old: "\<exists>m. snd cf' m = Some (Finished (Deleted i None))"
    if "snd cf n = Some (Finished (Delivered rcpt msg (Inr i)))" "\<nexists>u. mails root (fst cf) (mailbox_name T rcpt, u, i) \<noteq> None"
    using mail_keptD [OF assms(3) that(1)] that(2) conc_step_finished [OF assms(1)] by blast
  from assms(1) show "\<exists>m. snd cf' m = Some (Finished (Deleted i None))"
  proof cases
    case (call ps m P F)
    with d have "ps n = Some (Finished (Delivered rcpt msg (Inr i)))" by (auto split: if_splits)
    with old none call show ?thesis by simp
  next
    case (move ps m P W F P' F')
    note inv = conc_invD [OF assms(2) [unfolded move(1)]]
    show ?thesis
    proof (cases "ps n = Some (Finished (Delivered rcpt msg (Inr i)))")
      case True
      show ?thesis
      proof (cases "\<exists>u. mails root F (mailbox_name T rcpt, u, i) \<noteq> None")
        case lost: True
        then have "P' = Finished (Deleted i None)"
          using proc_step_loses [OF move(5) inv(1) inv(2) [OF move(3)]] none move(2) by fastforce
        with move(2) show ?thesis by auto
      next
        case False
        with old move(1) True show ?thesis by simp
      qed
    next
      case False
      then have "n = m" and P': "P' = Finished (Delivered rcpt msg (Inr i))" using d move(2) by (auto split: if_splits)
      with False move(3) have "P \<noteq> Finished (Delivered rcpt msg (Inr i))" by auto
      from proc_step_delivers [OF move(5) [unfolded P'] inv(1) inv(2) [OF move(3)] this] none move(2) show ?thesis by auto
    qed
  qed
qed

lemma conc_run_kept:
  assumes "(conc_step E T M root)\<^sup>*\<^sup>* (F0, Map.empty) cf" and "store_ok root F0" and "\<forall>W \<in> E. SLASH \<notin> set (hostname W)"
  shows "mail_kept T root cf"
  using assms(1)
proof (induction rule: rtranclp_induct)
  case base
  then show ?case by (simp add: mail_kept_def)
next
  case (step cf cf')
  then show ?case using conc_step_kept conc_run_inv [OF step(1) conc_inv_start [OF assms(2)] assms(3)] by blast
qed

end
