(* ===== verification/StoreConcProps.thy ===== *)
theory StoreConcProps
  imports StoreConc
begin

text \<open>
  What concurrent users of the store see of a message that stays in it: listings are complete,
  lookups return the message unless they race with another opening. The sample runs at the end
  show such a race; the properties of \<open>StoreConc\<close> and of this theory follow.
\<close>

section \<open>Looking at a message while others use the store\<close>

text \<open>The id a delivery files its message under, once it has chosen one.\<close>

fun pc_id :: "deliver_pc \<Rightarrow> bytes option" where
  "pc_id (DCreate i) = Some i"
| "pc_id (DWrite i) = Some i"
| "pc_id (DClose i) = Some i"
| "pc_id (DRename i) = Some i"
| "pc_id _ = None"

text \<open>
  A settled message: the store holds \<open>c\<close> under the id \<open>i\<close> for the recipient \<open>r\<close>, read or unread,
  nothing else under that id, and no delivery is about to file another.
\<close>

definition settled :: "path \<Rightarrow> bytes \<Rightarrow> bytes \<Rightarrow> bytes \<Rightarrow> conf \<Rightarrow> bool" where
  "settled root r i c cf \<longleftrightarrow>
     (\<exists>u. \<forall>r' u'. fs_at (fst cf) (mpath root r' (subdir u') i) = (if r' = r \<and> u' = u then Some (FileNode c) else None))
     \<and> (\<forall>n rcpt msg pc. snd cf n = Some (Delivering rcpt msg pc) \<longrightarrow> pc_id pc \<noteq> Some i)"

definition settled_step ::
  "os_env set \<Rightarrow> utab \<Rightarrow> mail_env \<Rightarrow> path \<Rightarrow> bytes \<Rightarrow> bytes \<Rightarrow> bytes \<Rightarrow> conf \<Rightarrow> conf \<Rightarrow> bool" where
  "settled_step E T M root r i c cf cf' \<longleftrightarrow> conc_step E T M root cf cf' \<and> settled root r i c cf'"

definition is_read :: "path \<Rightarrow> bytes \<Rightarrow> bytes \<Rightarrow> fs \<Rightarrow> bool" where
  "is_read root r i F \<longleftrightarrow> fs_at F (mpath root r ''new'' i) = None"

lemma settledE:
  assumes "settled root r i c (F, ps)"
  obtains u where "fs_at F (mpath root r (subdir u) i) = Some (FileNode c)"
    and "\<And>r' u'. r' \<noteq> r \<or> u' \<noteq> u \<Longrightarrow> fs_at F (mpath root r' (subdir u') i) = None"
    and "is_read root r i F \<longleftrightarrow> \<not> u"
proof -
  obtain u where u: "fs_at F (mpath root r' (subdir u') i) = (if r' = r \<and> u' = u then Some (FileNode c) else None)" for r' u'
    using assms unfolding settled_def fst_conv by blast
  show thesis
  proof (rule that [of u])
    show "fs_at F (mpath root r (subdir u) i) = Some (FileNode c)" using u [of r u] by simp
    show "is_read root r i F \<longleftrightarrow> \<not> u" using u [of r True] by (simp add: is_read_def subdir_def)
  qed (use u in auto)
qed

lemma settled_no_delivery:
  "settled root r i c (F, ps) \<Longrightarrow> ps n = Some (Delivering rcpt msg pc) \<Longrightarrow> pc_id pc \<noteq> Some i"
  unfolding settled_def snd_conv by blast

lemma settled_mails:
  assumes "settled root r i c (F, ps)"
  shows "mails root F (r, u, i) = (if u = is_read root r i F then None else Some c)"
proof -
  obtain v where "fs_at F (mpath root r (subdir v) i) = Some (FileNode c)"
    and "\<And>r' u'. r' \<noteq> r \<or> u' \<noteq> v \<Longrightarrow> fs_at F (mpath root r' (subdir u') i) = None"
    and "is_read root r i F \<longleftrightarrow> \<not> v"
    using settledE [OF assms] by blast
  then show ?thesis by (cases "u = v") (auto simp: mails_def)
qed

lemma settled_in:
  assumes "settled root r i c (F, ps)" and "r' = r \<Longrightarrow> u = is_read root r i F"
  shows "fs_at F (mpath root r' (subdir u) i) = None"
  using settledE [OF assms(1)] assms(2) by metis

lemma settled_at:
  assumes "settled root r i c (F, ps)"
  shows "fs_at F (mpath root r (subdir (\<not> is_read root r i F)) i) = Some (FileNode c)"
  by (rule settledE [OF assms]) simp

text \<open>A settled message, once read, stays read; it becomes read by a successful open only.\<close>

lemma settled_move:
  assumes "proc_step T M root W F P = (P', F')" and "store_ok root F" and "proc_ok E T root F P"
    and "settled root r i c (F, ps)" and "settled root r i c (F', ps')" and "ps n = Some P"
  shows "is_read root r i F \<Longrightarrow> is_read root r i F'"
    and "is_read root r i F' \<Longrightarrow> is_read root r i F \<or> (\<exists>raw. P' = Finished (Opened i (Inr raw)))"
proof -
  note m = settled_mails [OF assms(4)] settled_mails [OF assms(5)]
  show "is_read root r i F'" if "is_read root r i F"
    using assms(1-3)
  proof (cases rule: proc_step_mails)
    case same
    with m [of True] that show ?thesis by (simp split: if_splits)
  next
    case (filed rcpt msg j b)
    then have "j \<noteq> i" using settled_no_delivery [OF assms(4,6) [unfolded filed(1)]] by simp
    with filed(4) m [of True] that show ?thesis by (simp split: if_splits)
  next
    case (marked r' j raw b)
    with m [of True] that show ?thesis by (auto split: if_splits)
  next
    case (removed r' u j)
    with m [of True] that show ?thesis by (auto split: if_splits)
  qed
  show "is_read root r i F \<or> (\<exists>raw. P' = Finished (Opened i (Inr raw)))" if "is_read root r i F'"
    using assms(1-3)
  proof (cases rule: proc_step_mails)
    case same
    with m [of True] that show ?thesis by (simp split: if_splits)
  next
    case (filed rcpt msg j b)
    with m [of True] that show ?thesis by (auto split: if_splits)
  next
    case (marked r' j raw b)
    with m [of True] that show ?thesis by (auto split: if_splits)
  next
    case (removed r' u j)
    with m [of True] m [of False] that show ?thesis by (auto split: if_splits)
  qed
qed

text \<open>
  What a process knows of the settled message; \<open>other\<close> says that a process other than it has
  opened the message.
\<close>

definition found :: "path \<Rightarrow> bytes \<Rightarrow> bytes \<Rightarrow> fs \<Rightarrow> bool \<Rightarrow> path \<Rightarrow> bool \<Rightarrow> bool" where
  "found root r i F other p u \<longleftrightarrow>
     p = mpath root r (subdir u) i \<and> (if u then is_read root r i F \<longrightarrow> other else is_read root r i F)"

fun watch :: "path \<Rightarrow> bytes \<Rightarrow> bytes \<Rightarrow> bytes \<Rightarrow> fs \<Rightarrow> bool \<Rightarrow> proc \<Rightarrow> bool" where
  "watch root r i c F other (Lookup what j (LScan todo)) \<longleftrightarrow>
     (j = i \<longrightarrow> (\<exists>xs ys. todo = xs @ (r, ''cur'') # ys \<and> ((r, ''new'') \<in> set xs \<or> is_read root r i F)))"
| "watch root r i c F other (Lookup what j (LRead p u)) \<longleftrightarrow> (j = i \<longrightarrow> found root r i F other p u)"
| "watch root r i c F other (Lookup what j (LMark p raw)) \<longleftrightarrow> (j = i \<longrightarrow> raw = c)"
| "watch root r i c F other (Lookup what j (LOpen p)) \<longleftrightarrow> (j = i \<longrightarrow> (\<exists>u. found root r i F other p u))"
| "watch root r i c F other (Listing (IScan dirs es msgs)) \<longleftrightarrow>
     (\<exists>m \<in> set msgs. ID m = i \<and> Recipient m = r) \<or> (\<exists>dir u. (r, dir, u, i) \<in> set es)
     \<or> (\<exists>xs ys. dirs = xs @ (r, ''cur'', False) # ys \<and> ((r, ''new'', True) \<in> set xs \<or> is_read root r i F))"
| "watch root r i c F other (Finished (Opened j res)) \<longleftrightarrow> (j = i \<longrightarrow> res = Inr c \<or> res = Inl ErrNotExist \<and> other)"
| "watch root r i c F other (Finished (Streamed j res)) \<longleftrightarrow> (j = i \<longrightarrow> res = Inr c \<or> res = Inl ErrNotExist \<and> other)"
| "watch root r i c F other (Finished (Listed res)) \<longleftrightarrow>
     (\<exists>ms. res = Inr ms \<and> (\<exists>m \<in> set ms. ID m = i \<and> Recipient m = r))"
| "watch root r i c F other _ \<longleftrightarrow> True"

lemma found_frame:
  "found root r i F other p u \<Longrightarrow> (is_read root r i F \<Longrightarrow> is_read root r i F') \<Longrightarrow>
     (is_read root r i F' \<Longrightarrow> is_read root r i F \<or> other') \<Longrightarrow> (other \<Longrightarrow> other') \<Longrightarrow> found root r i F' other' p u"
  by (auto simp: found_def split: if_splits)

lemma watch_frame:
  "watch root r i c F other P \<Longrightarrow> (is_read root r i F \<Longrightarrow> is_read root r i F') \<Longrightarrow>
     (is_read root r i F' \<Longrightarrow> is_read root r i F \<or> other') \<Longrightarrow> (other \<Longrightarrow> other') \<Longrightarrow> watch root r i c F' other' P"
  by (cases "(root, r, i, c, F, other, P)" rule: watch.cases) (auto intro: found_frame)

lemma ReadFile_found:
  assumes "settled root r i c (F, ps)" and "found root r i F other p u" and "no_faults W"
  shows "os_ReadFile_at s W F p = Inr c \<or> os_ReadFile_at s W F p = Inl ErrNotExist \<and> other"
proof (cases "u = is_read root r i F")
  case False
  then show ?thesis using settled_at [OF assms(1)] assms(2,3) by (auto simp: found_def os_ReadFile_at_def)
next
  case True
  then have "fs_at F p = None" using settled_in [OF assms(1), of r u] assms(2) by (simp add: found_def)
  then show ?thesis using True assms(2,3) by (auto simp: found_def os_ReadFile_at_def split: if_splits)
qed

lemma split_hd:
  assumes "x # todo = xs @ y # ys" and "a \<in> set xs \<or> Q" and "x = a \<Longrightarrow> Q" and "\<not> (x = y \<and> Q)"
  shows "\<exists>xs' ys'. todo = xs' @ y # ys' \<and> (a \<in> set xs' \<or> Q)"
proof (cases xs)
  case Nil
  with assms show ?thesis by auto
next
  case (Cons z zs)
  with assms(1) have "todo = zs @ y # ys" and "z = x" by auto
  moreover have "a \<in> set zs \<or> Q" using assms(2,3) Cons \<open>z = x\<close> by auto
  ultimately show ?thesis by blast
qed

lemma in_locate_todo:
  assumes "(r, True) \<in> set recs"
  shows "\<exists>xs ys. locate_todo recs = xs @ (r, ''cur'') # ys \<and> (r, ''new'') \<in> set xs"
    and "\<exists>xs ys. list_dirs recs = xs @ (r, ''cur'', False) # ys \<and> (r, ''new'', True) \<in> set xs"
proof -
  obtain as bs where recs: "recs = as @ (r, True) # bs" using assms by (meson split_list)
  have "locate_todo recs = (locate_todo as @ [(r, ''new'')]) @ (r, ''cur'') # locate_todo bs"
    by (simp add: locate_todo_def recs)
  moreover have "(r, ''new'') \<in> set (locate_todo as @ [(r, ''new'')])" by simp
  ultimately show "\<exists>xs ys. locate_todo recs = xs @ (r, ''cur'') # ys \<and> (r, ''new'') \<in> set xs" by blast
  have "list_dirs recs = (list_dirs as @ [(r, ''new'', True)]) @ (r, ''cur'', False) # list_dirs bs"
    by (simp add: list_dirs_def recs)
  moreover have "(r, ''new'', True) \<in> set (list_dirs as @ [(r, ''new'', True)])" by simp
  ultimately show "\<exists>xs ys. list_dirs recs = xs @ (r, ''cur'', False) # ys \<and> (r, ''new'', True) \<in> set xs" by blast
qed

lemma settled_ReadDir:
  assumes "store_ok root F" and "settled root r i c (F, ps)" and "no_faults W"
  obtains recs where "os_ReadDir W F root = Inr recs" and "(r, True) \<in> set recs" and "plain r"
proof -
  note d = store_ok_mail_dirs [OF assms(1), of r "subdir (\<not> is_read root r i F)" i] settled_at [OF assms(2)]
  define recs where "recs = map (\<lambda>n. (n, is_dir F (child root n))) (dir_names F root)"
  have "os_ReadDir W F root = Inr recs" using d assms(3) by (simp add: os_ReadDir_def is_dir_def recs_def)
  moreover have "(r, True) \<in> set recs" using d by (force simp: recs_def set_dir_names is_dir_def)
  ultimately show thesis using d by (intro that) simp_all
qed

lemma watch_failed [simp]: "j \<noteq> i \<Longrightarrow> watch root r i c F other (lookup_failed what j e)"
  by (cases what) simp_all

lemma watch_found:
  "(j = i \<Longrightarrow> found root r i F other p u) \<Longrightarrow> watch root r i c F other (Lookup what j (lookup_found what p u))"
  by (cases what) auto

lemma watch_lookup:
  assumes "lookup_step root W F what j pc = (P', F')" and "store_ok root F" and "settled root r i c (F, ps)"
    and "proc_ok E T root F (Lookup what j pc)" and "watch root r i c F other (Lookup what j pc)"
    and "no_faults W" and "validID i"
  shows "watch root r i c F' other P'"
proof (cases pc)
  case LStart
  obtain recs where "os_ReadDir W F root = Inr recs" "(r, True) \<in> set recs"
    using settled_ReadDir [OF assms(2,3,6)] by blast
  with assms(1) LStart have "P' = Lookup what j (LScan (locate_todo recs)) \<and> F' = F \<or> j \<noteq> i \<and> (\<exists>e. P' = lookup_failed what j e)"
    using assms(7) by (cases "validID j") (auto simp: after_def)
  with in_locate_todo(1) [OF \<open>(r, True) \<in> set recs\<close>] show ?thesis by auto blast
next
  case (LScan todo)
  show ?thesis
  proof (cases "j = i")
    case False
    with assms(1) LScan show ?thesis
      by (cases todo) (auto simp: Let_def split: sum.splits intro: watch_found)
  next
    case True
    then obtain xs ys where sp: "todo = xs @ (r, ''cur'') # ys" "(r, ''new'') \<in> set xs \<or> is_read root r i F"
      using assms(5) LScan by auto
    then have "todo \<noteq> []" by simp
    then obtain r1 s1 todo' where todo: "todo = (r1, s1) # todo'" by (metis list.exhaust surj_pair)
    have ok: "plain r1" "s1 = subdir (s1 = ''new'')" "plain i"
      using assms(4) LScan todo True by (auto simp: subdir_def)
    let ?p = "mpath root r1 (subdir (s1 = ''new'')) i"
    have p: "filepath_Join root [r1, s1, i] = ?p"
      using Join_mpath [OF store_okD(1) [OF assms(2)] ok(1) plain_subs(4) ok(3)] ok(2) by metis
    show ?thesis
    proof (cases "r1 = r \<and> (s1 = ''new'') = (\<not> is_read root r i F)")
      case hit: True
      then have "fs_at F ?p = Some (FileNode c)" using settled_at [OF assms(3)] by simp
      then have "P' = Lookup what i (lookup_found what ?p (s1 = ''new''))" "F' = F"
        using assms(1,6) LScan todo True p by (auto simp: Stat_no_fault)
      moreover have "found root r i F other ?p (s1 = ''new'')" using hit by (auto simp: found_def)
      ultimately show ?thesis by (simp add: watch_found)
    next
      case miss: False
      then have "fs_at F ?p = None" by (intro settled_in [OF assms(3)]) auto
      then have "P' = Lookup what i (LScan todo')" "F' = F"
        using assms(1,6) LScan todo True p by (auto simp: Stat_no_fault)
      moreover have "\<exists>xs' ys'. todo' = xs' @ (r, ''cur'') # ys' \<and> ((r, ''new'') \<in> set xs' \<or> is_read root r i F)"
        using sp miss todo by (intro split_hd [of "(r1, s1)" todo' xs _ ys]) auto
      ultimately show ?thesis by simp
    qed
  qed
next
  case (LRead p u)
  have "os_ReadFile_at SysReadFile W F p = Inr c \<or> os_ReadFile_at SysReadFile W F p = Inl ErrNotExist \<and> other"
    if "j = i" using ReadFile_found [OF assms(3) _ assms(6)] assms(5) that unfolding LRead watch.simps by blast
  with assms(1) LRead show ?thesis
    by (cases "j = i"; cases "os_ReadFile_at SysReadFile W F p") (auto simp: after_def split: if_splits)
next
  case (LMark p raw)
  with assms(1,5) show ?thesis by (auto simp: after_def split: sum.splits)
next
  case (LRemove p)
  with assms(1) show ?thesis by (auto simp: after_def split: sum.splits)
next
  case (LOpen p)
  have "os_ReadFile_at SysOpen W F p = Inr c \<or> os_ReadFile_at SysOpen W F p = Inl ErrNotExist \<and> other"
    if "j = i" using ReadFile_found [OF assms(3) _ assms(6)] assms(5) that unfolding LOpen watch.simps by blast
  with assms(1) LOpen show ?thesis by auto
qed

lemma listed_dir:
  assumes "store_ok root F" and "fs_at F (mpath root r s i) = Some (FileNode c)" and "no_faults W" and "plain s"
  shows "\<exists>entries. os_ReadDir W F (filepath_Join (filepath_Join root [r]) [s]) = Inr entries \<and> (i, False) \<in> set entries"
proof -
  have d: "is_dir F (child (child root r) s)" "plain r" using store_ok_mail_dirs [OF assms(1)] assms(2) by auto
  have "filepath_Join (filepath_Join root [r]) [s] = child (child root r) s"
    using d(2) assms(4) store_okD(1) [OF assms(1)] by simp
  moreover have "i \<in> set (dir_names F (child (child root r) s))" using assms(2) by (simp add: set_dir_names mpath_def)
  moreover have "\<not> is_dir F (child (child (child root r) s) i)" using assms(2) by (simp add: is_dir_def mpath_def)
  ultimately show ?thesis using d(1) assms(3) by (force simp: os_ReadDir_def is_dir_def)
qed

lemma summary_key [simp]: "ID (summary M W F p mid rec u) = mid" "Recipient (summary M W F p mid rec u) = rec"
  by (simp_all add: summary_def fillHeaders_def new_message_def Let_def split: sum.splits option.splits prod.splits)

lemma watch_list:
  assumes "list_step M root W F pc = (P', F')" and "store_ok root F" and "settled root r i c (F, ps)"
    and "watch root r i c F other (Listing pc)" and "no_faults W" and "sort_ok (sort_by_date M)"
  shows "watch root r i c F' other P'"
proof (cases "(M, root, W, F, pc)" rule: list_step.cases)
  case (1 M root W F)
  obtain recs where "os_ReadDir W F root = Inr recs" "(r, True) \<in> set recs"
    using settled_ReadDir [OF assms(2,3,5)] 1 by blast
  with assms(1) 1 have "P' = Listing (IScan (list_dirs recs) [] []) \<and> F' = F" by (auto simp: after_def)
  with in_locate_todo(2) [OF \<open>(r, True) \<in> set recs\<close>] 1 show ?thesis by simp blast
next
  case (2 M root W F dirs rec dir unread mid es msgs)
  with assms(1) have P': "F' = F" "P' = Listing (IScan dirs es
        (msgs @ [summary M W F (filepath_Join (filepath_Join root [rec]) [dir, mid]) mid rec unread]))"
    by auto
  from assms(4) 2 show ?thesis unfolding P' by auto
next
  case (3 M' root' W' F'' rec dir unread dirs msgs)
  then have pc: "pc = IScan ((rec, dir, unread) # dirs) [] msgs" by simp
  have step: "\<exists>es. P' = Listing (IScan dirs es msgs)" and F': "F' = F"
    using assms(1) by (auto simp: pc split: sum.splits)
  from assms(4) pc consider (already) "\<exists>m \<in> set msgs. ID m = i \<and> Recipient m = r"
    | (todo) xs ys where "(rec, dir, unread) # dirs = xs @ (r, ''cur'', False) # ys"
      "(r, ''new'', True) \<in> set xs \<or> is_read root r i F"
    by auto
  then show ?thesis
  proof cases
    case already
    with step show ?thesis by auto
  next
    case todo
    show ?thesis
    proof (cases "(rec, dir, unread) = (r, subdir (\<not> is_read root r i F), \<not> is_read root r i F)")
      case True
      obtain entries where "os_ReadDir W F (filepath_Join (filepath_Join root [rec]) [dir]) = Inr entries" "(i, False) \<in> set entries"
        using listed_dir [OF assms(2) settled_at [OF assms(3)] assms(5)] True by auto
      with assms(1) pc True have "\<exists>es. P' = Listing (IScan dirs es msgs) \<and> (r, dir, unread, i) \<in> set es" by force
      then show ?thesis by (elim exE conjE) (simp only: watch.simps, blast)
    next
      case False
      have d: "\<exists>xs' ys'. dirs = xs' @ (r, ''cur'', False) # ys' \<and> ((r, ''new'', True) \<in> set xs' \<or> is_read root r i F)"
        by (rule split_hd [OF todo]) (use False in \<open>auto simp: subdir_def split: if_splits\<close>)
      obtain es where P': "P' = Listing (IScan dirs es msgs)" using step by blast
      show ?thesis unfolding F' P' watch.simps using d by (intro disjI2)
    qed
  qed
next
  case (4 M' root' W' F'' msgs)
  then have "pc = IScan [] [] msgs" by simp
  with assms(1,4) have "P' = Finished (Listed (Inr (sort_by_date M msgs)))" "\<exists>m \<in> set msgs. ID m = i \<and> Recipient m = r"
    by auto
  moreover have "mset (sort_by_date M msgs) = mset msgs" using assms(6) by (simp add: sort_ok_def)
  then have "set (sort_by_date M msgs) = set msgs" by (rule mset_eq_setD)
  ultimately show ?thesis by simp
qed

definition opened_by_other :: "(nat \<Rightarrow> proc option) \<Rightarrow> nat \<Rightarrow> bytes \<Rightarrow> bytes \<Rightarrow> bool" where
  "opened_by_other ps n i c \<longleftrightarrow> (\<exists>m. m \<noteq> n \<and> ps m = Some (Finished (Opened i (Inr c))))"

lemma proc_step_watch:
  assumes "proc_step T M root W F P = (P', F')" and "store_ok root F" and "settled root r i c (F, ps)"
    and "proc_ok E T root F P" and "watch root r i c F other P"
    and "no_faults W" and "validID i" and "sort_ok (sort_by_date M)"
  shows "watch root r i c F' other P'"
proof (cases P)
  case (Delivering rcpt msg pc)
  with assms(1) show ?thesis
    by (cases "(T, root, W, F, rcpt, msg, pc)" rule: deliver_step.cases)
      (auto simp: after_def Let_def split: sum.splits option.splits if_splits)
next
  case (Lookup what j pc)
  with assms watch_lookup show ?thesis by simp
next
  case (Listing pc)
  with assms watch_list show ?thesis by simp
next
  case (Finished q)
  with assms(1,5) show ?thesis by (cases q) auto
qed

definition watched :: "path \<Rightarrow> bytes \<Rightarrow> bytes \<Rightarrow> bytes \<Rightarrow> conf \<Rightarrow> bool" where
  "watched root r i c cf \<longleftrightarrow>
     (\<forall>n P. snd cf n = Some P \<longrightarrow> watch root r i c (fst cf) (opened_by_other (snd cf) n i c) P)"

lemma new_call_watch: "new_call T P \<Longrightarrow> watch root r i c F other P"
  by (cases P) auto

lemma conc_step_watched:
  assumes "conc_step E T M root (F, ps) (F', ps')" and "conc_inv E T root (F, ps)"
    and "settled root r i c (F, ps)" and "settled root r i c (F', ps')" and "watched root r i c (F, ps)"
    and "\<forall>W \<in> E. no_faults W" and "validID i" and "sort_ok (sort_by_date M)"
  shows "watched root r i c (F', ps')"
  unfolding watched_def fst_conv snd_conv
proof (intro allI impI)
  fix n P
  assume P: "ps' n = Some P"
  have old: "watch root r i c F (opened_by_other ps n i c) Q" if "ps n = Some Q" for Q
    using assms(5) that unfolding watched_def fst_conv snd_conv by blast
  have mono: "opened_by_other ps n i c \<Longrightarrow> opened_by_other ps' n i c"
    using conc_step_finished [OF assms(1)] unfolding opened_by_other_def snd_conv by blast
  from assms(1) show "watch root r i c F' (opened_by_other ps' n i c) P"
  proof cases
    case (call m Q)
    show ?thesis
    proof (cases "n = m")
      case True
      with call P show ?thesis by (auto intro: new_call_watch)
    next
      case False
      with call P have "ps n = Some P" by simp
      from old [OF this] show ?thesis by (rule watch_frame) (use call mono in simp_all)
    qed
  next
    case (move m Q W Q')
    note inv = conc_invD [OF assms(2)]
    note read = settled_move [OF move(4) inv(1) inv(2) [OF move(2)] assms(3,4) move(2)]
    have W: "no_faults W" using assms(6) move(3) by blast
    have own: "watch root r i c F' (opened_by_other ps m i c) Q'"
      using proc_step_watch [OF move(4) inv(1) assms(3) inv(2) [OF move(2)] _ W assms(7,8)] assms(5) move(2)
      unfolding watched_def fst_conv snd_conv by blast
    show ?thesis
    proof (cases "n = m")
      case True
      with move P have "P = Q'" by simp
      with own True show ?thesis using mono by (auto intro: watch_frame)
    next
      case False
      with move P have n: "ps n = Some P" by simp
      have other: "is_read root r i F \<or> opened_by_other ps' n i c" if F': "is_read root r i F'"
      proof (cases "is_read root r i F")
        case unread: False
        with read(2) [OF F'] obtain raw where Q': "Q' = Finished (Opened i (Inr raw))" by blast
        with own have "raw = c" by simp
        with Q' False move(1) show ?thesis by (auto simp: opened_by_other_def)
      qed simp
      from old [OF n] read(1) other mono show ?thesis by (rule watch_frame)
    qed
  qed
qed

lemma settled_run:
  assumes "(settled_step E T M root r i c)\<^sup>*\<^sup>* (F0, Map.empty) cf" and "settled root r i c (F0, Map.empty)"
    and "store_ok root F0" and "\<forall>W \<in> E. no_faults W \<and> SLASH \<notin> set (hostname W)" and "validID i"
    and "sort_ok (sort_by_date M)"
  shows "conc_inv E T root cf \<and> settled root r i c cf \<and> watched root r i c cf"
  using assms(1)
proof (induction rule: rtranclp_induct)
  case base
  then show ?case using assms(2) conc_inv_start [OF assms(3)] by (simp add: watched_def)
next
  case (step cf cf')
  then have s: "conc_step E T M root cf cf'" "settled root r i c cf'" by (simp_all add: settled_step_def)
  have inv: "conc_inv E T root cf'" using step.IH s(1) assms(4) conc_step_inv by blast
  moreover have "watched root r i c cf'"
    using conc_step_watched [of E T M root "fst cf" "snd cf" "fst cf'" "snd cf'"] s step.IH assms(4-6)
    unfolding prod.collapse by blast
  ultimately show ?case using s(2) by blast
qed

section \<open>Sample runs\<close>

lemma alone_run:
  assumes "alone T M root W P F r G" and "W \<in> E"
  shows "ps n = Some P \<Longrightarrow> (conc_step E T M root)\<^sup>*\<^sup>* (F, ps) (G, ps(n \<mapsto> Finished r))"
  using assms(1)
proof (induction arbitrary: ps rule: alone.induct)
  case (ended r F)
  then have "ps(n \<mapsto> Finished r) = ps" by auto
  then show ?case by simp
next
  case (steps P F P' F' r G)
  have "conc_step E T M root (F, ps) (F', ps(n \<mapsto> P'))" using steps.prems assms(2) steps.hyps(2) by (rule conc_step.move [where n = n])
  moreover have "(conc_step E T M root)\<^sup>*\<^sup>* (F', ps(n \<mapsto> P')) (G, ps(n \<mapsto> P', n \<mapsto> Finished r))"
    by (rule steps.IH) simp
  ultimately show ?case unfolding fun_upd_upd by (rule converse_rtranclp_into_rtranclp)
qed

lemma call_run:
  assumes "new_call T P" and "alone T M root W P F r G" and "W \<in> E" and "ps n = None"
  shows "(conc_step E T M root)\<^sup>*\<^sup>* (F, ps) (G, ps(n \<mapsto> Finished r))"
proof -
  have "conc_step E T M root (F, ps) (F, ps(n \<mapsto> P))" using assms(4,1) by (rule conc_step.call [where n = n])
  moreover have "(conc_step E T M root)\<^sup>*\<^sup>* (F, ps(n \<mapsto> P)) (G, ps(n \<mapsto> P, n \<mapsto> Finished r))"
    by (rule alone_run [OF assms(2,3)]) simp
  ultimately show ?thesis unfolding fun_upd_upd by (rule converse_rtranclp_into_rtranclp)
qed

text \<open>A delivery into the empty store.\<close>

lemma sample_delivery:
  "\<exists>G. (conc_step {sample_os} ascii_utab sample_mail_env sample_root)\<^sup>*\<^sup>* ([], Map.empty)
      (G, [0 \<mapsto> Finished (Delivered ''A@b'' ''hi'' (Inr sample_id))])
    \<and> mails sample_root G (''a@b'', True, sample_id) = Some ''hi''"
proof -
  obtain G where G: "Deliver ascii_utab sample_os sample_root [] ''A@b'' ''hi'' = (Inr sample_id, G)"
    "mails sample_root G (''a@b'', True, sample_id) = Some ''hi''"
    using Deliver_succeeds [of sample_root "[]" sample_os ascii_utab "''A@b''" "''A''" "''hi''"]
    by (auto simp: sample_id_eq written_full)
  have "(conc_step {sample_os} ascii_utab sample_mail_env sample_root)\<^sup>*\<^sup>* ([], Map.empty)
      (G, [0 \<mapsto> Finished (Delivered ''A@b'' ''hi'' (Inr sample_id))])"
    by (rule call_run [OF _ alone_Deliver [OF G(1)]]) simp_all
  with G(2) show ?thesis by blast
qed

lemma mails_empty [simp]: "mails root [] k = None"
  by (cases k) (simp add: mails_def)

text \<open>A store with one message, unread or read.\<close>

definition sample_box :: "bool \<Rightarrow> fs" where
  "sample_box u =
     [((True, [''d'']), DirNode), ((True, [''d'', ''a@b'']), DirNode), ((True, [''d'', ''a@b'', ''new'']), DirNode),
      ((True, [''d'', ''a@b'', ''cur'']), DirNode), ((True, [''d'', ''a@b'', subdir u, ''7'']), FileNode ''hi'')]"

lemma sample_box_ok [simp]: "store_ok sample_root (sample_box u)"
  by (auto simp: store_ok_def sample_root_def sample_box_def cleaned_def fs_wf_def child_def under_def is_dir_def
      plain_def prefix_def subdir_def split: if_splits)

lemma sample_box_at:
  "fs_at (sample_box u) (mpath sample_root r (subdir v) ''7'')
     = (if r = ''a@b'' \<and> v = u then Some (FileNode ''hi'') else None)"
  by (simp add: sample_box_def mpath_def child_def sample_root_def)

lemma sample_settled:
  "(\<And>n rcpt msg pc. ps n \<noteq> Some (Delivering rcpt msg pc)) \<Longrightarrow> settled sample_root ''a@b'' ''7'' ''hi'' (sample_box u, ps)"
  unfolding settled_def fst_conv snd_conv sample_box_at by blast

abbreviation sample_step :: "conf \<Rightarrow> conf \<Rightarrow> bool" where
  "sample_step \<equiv> settled_step {sample_os} ascii_utab sample_mail_env sample_root ''a@b'' ''7'' ''hi''"

lemma sample_call:
  assumes "ps n = None" and "new_call ascii_utab P" and "\<And>rcpt msg pc. P \<noteq> Delivering rcpt msg pc"
    and "\<And>n rcpt msg pc. ps n \<noteq> Some (Delivering rcpt msg pc)"
  shows "sample_step (sample_box u, ps) (sample_box u, ps(n \<mapsto> P))"
  unfolding settled_step_def
  using conc_step.call [where ps = ps and n = n, OF assms(1,2)] sample_settled [of "ps(n \<mapsto> P)"] assms(3,4) by simp

lemma sample_move:
  assumes "ps n = Some P" and "proc_step ascii_utab sample_mail_env sample_root sample_os (sample_box u) P = (P', sample_box v)"
    and "\<And>rcpt msg pc. P' \<noteq> Delivering rcpt msg pc" and "\<And>n rcpt msg pc. ps n \<noteq> Some (Delivering rcpt msg pc)"
  shows "sample_step (sample_box u, ps) (sample_box v, ps(n \<mapsto> P'))"
  unfolding settled_step_def
  using conc_step.move [where ps = ps and n = n and E = "{sample_os}", OF assms(1) _ assms(2)] sample_settled [of "ps(n \<mapsto> P')"] assms(3,4) by simp

lemma sample_names:
  "dir_names (sample_box u) sample_root = [''a@b'']"
  "dir_names (sample_box u) (child (child sample_root ''a@b'') (subdir v)) = (if u = v then [''7''] else [])"
  by (auto simp: dir_names_def sample_box_def sample_root_def filepath_Dir_def child_def subdir_def)

lemma sample_dirs [simp]:
  "is_dir (sample_box u) sample_root" "is_dir (sample_box u) (child sample_root ''a@b'')"
  "is_dir (sample_box u) (child (child sample_root ''a@b'') ''new'')"
  "is_dir (sample_box u) (child (child sample_root ''a@b'') ''cur'')"
  by (simp_all add: is_dir_def sample_box_def sample_root_def child_def subdir_def)

lemma sample_validID [simp]: "validID ''7''" "plain ''7''"
  by (simp_all add: validID_def plain_def strings_ContainsAny_def)

abbreviation sample_path :: "bool \<Rightarrow> path" where
  "sample_path u \<equiv> mpath sample_root ''a@b'' (subdir u) ''7''"

lemma sample_join [simp]: "filepath_Join sample_root [''a@b'', s, ''7''] = mpath sample_root ''a@b'' s ''7''" if "plain s"
  using that store_okD(1) [OF sample_store_ok] by simp

lemma sample_lookup_steps:
  "lookup_step sample_root sample_os (sample_box u) Opening ''7'' LStart
     = (Lookup Opening ''7'' (LScan [(''a@b'', ''new''), (''a@b'', ''cur'')]), sample_box u)"
  "lookup_step sample_root sample_os (sample_box True) Opening ''7'' (LScan [(''a@b'', ''new''), (''a@b'', ''cur'')])
     = (Lookup Opening ''7'' (LRead (sample_path True) True), sample_box True)"
  "lookup_step sample_root sample_os (sample_box True) Opening ''7'' (LRead (sample_path True) True)
     = (Lookup Opening ''7'' (LMark (sample_path True) ''hi''), sample_box True)"
  "lookup_step sample_root sample_os (sample_box False) Opening ''7'' (LRead (sample_path True) True)
     = (Finished (Opened ''7'' (Inl ErrNotExist)), sample_box False)"
proof -
  have at: "fs_at (sample_box True) (mpath sample_root ''a@b'' ''new'' ''7'') = Some (FileNode ''hi'')"
    using sample_box_at [of True "''a@b''" True] by (simp add: subdir_def)
  have rd: "os_ReadDir sample_os (sample_box u) sample_root = Inr [(''a@b'', True)]"
    using sample_dirs(1) [of u] by (simp add: os_ReadDir_def sample_names is_dir_def [of _ sample_root])
  then show "lookup_step sample_root sample_os (sample_box u) Opening ''7'' LStart
     = (Lookup Opening ''7'' (LScan [(''a@b'', ''new''), (''a@b'', ''cur'')]), sample_box u)"
    by (simp add: after_def locate_todo_def)
  show "lookup_step sample_root sample_os (sample_box True) Opening ''7'' (LScan [(''a@b'', ''new''), (''a@b'', ''cur'')])
     = (Lookup Opening ''7'' (LRead (sample_path True) True), sample_box True)"
    using at by (simp add: Stat_no_fault subdir_def)
  show "lookup_step sample_root sample_os (sample_box True) Opening ''7'' (LRead (sample_path True) True)
     = (Lookup Opening ''7'' (LMark (sample_path True) ''hi''), sample_box True)"
    by (simp add: after_def os_ReadFile_at_def sample_box_at)
  show "lookup_step sample_root sample_os (sample_box False) Opening ''7'' (LRead (sample_path True) True)
     = (Finished (Opened ''7'' (Inl ErrNotExist)), sample_box False)"
    by (simp add: after_def os_ReadFile_at_def sample_box_at)
qed

lemma sample_mark:
  "lookup_step sample_root sample_os (sample_box True) Opening ''7'' (LMark (sample_path True) ''hi'')
     = (Finished (Opened ''7'' (Inr ''hi'')), sample_box False)"
  by (simp add: after_def os_Rename_def sample_box_at)
    (simp add: sample_box_def mpath_def child_def sample_root_def subdir_def filepath_Join_def filepath_Dir_def
      is_dir_def strings_Split_absent)

text \<open>
  Two openings of the unread message: both locate it under new, the first reads it and moves it to
  cur, the second then reads a path that is gone.
\<close>

abbreviation two_calls :: "bool \<Rightarrow> proc \<Rightarrow> proc \<Rightarrow> conf" where
  "two_calls u P Q \<equiv> (sample_box u, [0 \<mapsto> P, Suc 0 \<mapsto> Q])"

lemma two_calls_step:
  assumes "proc_step ascii_utab sample_mail_env sample_root sample_os (sample_box u) P = (P', sample_box v)"
    and "\<And>rcpt msg pc. P \<noteq> Delivering rcpt msg pc" and "\<And>rcpt msg pc. Q \<noteq> Delivering rcpt msg pc"
    and "\<And>rcpt msg pc. P' \<noteq> Delivering rcpt msg pc"
  shows "sample_step\<^sup>*\<^sup>* (two_calls u P Q) (two_calls v P' Q)" and "sample_step\<^sup>*\<^sup>* (two_calls u Q P) (two_calls v Q P')"
  using sample_move [of "[0 \<mapsto> P, Suc 0 \<mapsto> Q]" 0 P u P' v] sample_move [of "[0 \<mapsto> Q, Suc 0 \<mapsto> P]" "Suc 0" P u P' v] assms
  by (auto simp: fun_upd_twist intro: r_into_rtranclp split: if_splits)

lemma race_run:
  "sample_step\<^sup>*\<^sup>* (sample_box True, Map.empty)
     (sample_box False, [0 \<mapsto> Finished (Opened ''7'' (Inr ''hi'')), 1 \<mapsto> Finished (Opened ''7'' (Inl ErrNotExist))])"
proof -
  let ?scan = "Lookup Opening ''7'' (LScan [(''a@b'', ''new''), (''a@b'', ''cur'')])"
  let ?read = "Lookup Opening ''7'' (LRead (sample_path True) True)"
  let ?mark = "Lookup Opening ''7'' (LMark (sample_path True) ''hi'')"
  note eval = proc_step.simps sample_lookup_steps sample_mark proc.distinct not_False_eq_True
  have call0: "sample_step\<^sup>*\<^sup>* (sample_box True, Map.empty) (sample_box True, [0 \<mapsto> Lookup Opening ''7'' LStart])"
    by (rule r_into_rtranclp, rule sample_call) simp_all
  have call1: "sample_step\<^sup>*\<^sup>* (sample_box True, [0 \<mapsto> Lookup Opening ''7'' LStart])
      (two_calls True (Lookup Opening ''7'' LStart) (Lookup Opening ''7'' LStart))"
    by (rule r_into_rtranclp, rule sample_call) (auto split: if_splits)
  have s1: "sample_step\<^sup>*\<^sup>* (two_calls True (Lookup Opening ''7'' LStart) (Lookup Opening ''7'' LStart))
      (two_calls True ?scan (Lookup Opening ''7'' LStart))"
    by (rule two_calls_step(1)) (simp_all only: eval)
  have s2: "sample_step\<^sup>*\<^sup>* (two_calls True ?scan (Lookup Opening ''7'' LStart)) (two_calls True ?scan ?scan)"
    by (rule two_calls_step(2)) (simp_all only: eval)
  have s3: "sample_step\<^sup>*\<^sup>* (two_calls True ?scan ?scan) (two_calls True ?read ?scan)"
    by (rule two_calls_step(1)) (simp_all only: eval)
  have s4: "sample_step\<^sup>*\<^sup>* (two_calls True ?read ?scan) (two_calls True ?read ?read)"
    by (rule two_calls_step(2)) (simp_all only: eval)
  have s5: "sample_step\<^sup>*\<^sup>* (two_calls True ?read ?read) (two_calls True ?mark ?read)"
    by (rule two_calls_step(1)) (simp_all only: eval)
  have s6: "sample_step\<^sup>*\<^sup>* (two_calls True ?mark ?read) (two_calls False (Finished (Opened ''7'' (Inr ''hi''))) ?read)"
    by (rule two_calls_step(1)) (simp_all only: eval)
  have s7: "sample_step\<^sup>*\<^sup>* (two_calls False (Finished (Opened ''7'' (Inr ''hi''))) ?read)
      (two_calls False (Finished (Opened ''7'' (Inr ''hi''))) (Finished (Opened ''7'' (Inl ErrNotExist))))"
    by (rule two_calls_step(2)) (simp_all only: eval)
  note rtranclp_trans [OF call0 call1]
  note rtranclp_trans [OF this s1]
  note rtranclp_trans [OF this s2]
  note rtranclp_trans [OF this s3]
  note rtranclp_trans [OF this s4]
  note rtranclp_trans [OF this s5]
  note rtranclp_trans [OF this s6]
  note rtranclp_trans [OF this s7]
  then show ?thesis by simp
qed

text \<open>A listing of the store with the unread message.\<close>

lemma sample_ReadDir:
  "os_ReadDir sample_os (sample_box u) sample_root = Inr [(''a@b'', True)]"
  "os_ReadDir sample_os (sample_box True) (filepath_Join (filepath_Join sample_root [''a@b'']) [''new'']) = Inr [(''7'', False)]"
  "os_ReadDir sample_os (sample_box True) (filepath_Join (filepath_Join sample_root [''a@b'']) [''cur'']) = Inr []"
proof -
  have j: "filepath_Join (filepath_Join sample_root [''a@b'']) [subdir v] = child (child sample_root ''a@b'') (subdir v)" for v
    using store_okD(1) [OF sample_store_ok] by simp
  have d: "fs_at (sample_box True) (child (child sample_root ''a@b'') (subdir v)) = Some DirNode" for v
    using sample_dirs(3,4) [of True] by (cases v) (simp_all add: is_dir_def subdir_def)
  have f: "\<not> is_dir (sample_box True) (child (child (child sample_root ''a@b'') (subdir v)) ''7'')" for v
    using sample_box_at [of True "''a@b''" v] by (simp add: is_dir_def mpath_def)
  show "os_ReadDir sample_os (sample_box u) sample_root = Inr [(''a@b'', True)]"
    using sample_dirs(1) [of u] by (simp add: os_ReadDir_def sample_names is_dir_def [of _ sample_root])
  show "os_ReadDir sample_os (sample_box True) (filepath_Join (filepath_Join sample_root [''a@b'']) [''new'']) = Inr [(''7'', False)]"
    using j [of True] d [of True] f [of True] sample_names(2) [of True True] by (simp add: os_ReadDir_def subdir_def)
  show "os_ReadDir sample_os (sample_box True) (filepath_Join (filepath_Join sample_root [''a@b'']) [''cur'']) = Inr []"
    using j [of False] d [of False] sample_names(2) [of True False] by (simp add: os_ReadDir_def subdir_def)
qed

lemma list_run:
  "\<exists>ms. sample_step\<^sup>*\<^sup>* (sample_box True, Map.empty) (sample_box True, [0 \<mapsto> Finished (Listed (Inr ms))])"
proof -
  let ?cf = "\<lambda>pc. (sample_box True, [0 \<mapsto> Listing pc])"
  define m where "m = summary sample_mail_env sample_os (sample_box True)
      (filepath_Join (filepath_Join sample_root [''a@b'']) [''new'', ''7'']) ''7'' ''a@b'' True"
  have step: "sample_step\<^sup>*\<^sup>* (?cf pc) (sample_box True, [0 \<mapsto> Q])"
    if "list_step sample_mail_env sample_root sample_os (sample_box True) pc = (Q, sample_box True)"
      and "\<And>rcpt msg pc. Q \<noteq> Delivering rcpt msg pc" for pc Q
    using sample_move [of "[0 \<mapsto> Listing pc]" 0 "Listing pc" True Q True] that by (auto intro: r_into_rtranclp)
  have call0: "sample_step\<^sup>*\<^sup>* (sample_box True, Map.empty) (?cf IStart)" by (rule r_into_rtranclp, rule sample_call) simp_all
  have s1: "sample_step\<^sup>*\<^sup>* (?cf IStart) (?cf (IScan [(''a@b'', ''new'', True), (''a@b'', ''cur'', False)] [] []))"
    by (rule step) (simp_all add: after_def list_dirs_def sample_ReadDir)
  have s2: "sample_step\<^sup>*\<^sup>* (?cf (IScan [(''a@b'', ''new'', True), (''a@b'', ''cur'', False)] [] []))
      (?cf (IScan [(''a@b'', ''cur'', False)] [(''a@b'', ''new'', True, ''7'')] []))"
    by (rule step) (simp_all add: sample_ReadDir)
  have s3: "sample_step\<^sup>*\<^sup>* (?cf (IScan [(''a@b'', ''cur'', False)] [(''a@b'', ''new'', True, ''7'')] []))
      (?cf (IScan [(''a@b'', ''cur'', False)] [] [m]))"
    by (rule step) (simp_all add: m_def)
  have s4: "sample_step\<^sup>*\<^sup>* (?cf (IScan [(''a@b'', ''cur'', False)] [] [m])) (?cf (IScan [] [] [m]))"
    by (rule step) (simp_all add: sample_ReadDir)
  have s5: "sample_step\<^sup>*\<^sup>* (?cf (IScan [] [] [m])) (sample_box True, [0 \<mapsto> Finished (Listed (Inr (sort_by_date sample_mail_env [m])))])"
    by (rule step) simp_all
  note rtranclp_trans [OF call0 s1]
  note rtranclp_trans [OF this s2]
  note rtranclp_trans [OF this s3]
  note rtranclp_trans [OF this s4]
  note rtranclp_trans [OF this s5]
  then show ?thesis by blast
qed

section \<open>Properties\<close>

text \<open>
  C4. Whatever number of deliveries, opens, deletions and listings run at the same time, and in
  whatever order their calls of package os interleave and fail: every message the store shows
  was there before, or comes from a delivery to that recipient that has ended and returned its id,
  with exactly the bytes that delivery's own write put into its own temporary file. These are a
  prefix of its message, and the whole message unless that write stopped short. So no message is seen
  while it is being written, mixed with another or in a mailbox it was not delivered to.
\<close>
theorem concurrent_mail_origin:
  assumes "store_ok root F0" and "\<forall>W \<in> E. SLASH \<notin> set (hostname W)"
    and "(conc_step E T M root)\<^sup>*\<^sup>* (F0, Map.empty) (F, ps)" and "mails root F (r, u, i) = Some c"
  shows "(\<exists>u. mails root F0 (r, u, i) = Some c)
    \<or> (\<exists>n rcpt msg W. ps n = Some (Finished (Delivered rcpt msg (Inr i))) \<and> mailbox_name T rcpt = r
         \<and> W \<in> E \<and> c = written W (mpath root r ''tmp'' i) msg \<and> prefix c msg \<and> (full_writes W \<longrightarrow> c = msg))"
  using conc_run_origin [OF assms(3,1,2)] assms(4) written_prefix written_full
  unfolding mail_origin_def fst_conv snd_conv by blast

theorem concurrent_mail_origin_witness:
  "\<exists>G. mails sample_root G (''a@b'', True, sample_id) = Some ''hi''
    \<and> (\<exists>n rcpt. [0 :: nat \<mapsto> Finished (Delivered ''A@b'' ''hi'' (Inr sample_id))] n
            = Some (Finished (Delivered rcpt ''hi'' (Inr sample_id))) \<and> mailbox_name ascii_utab rcpt = ''a@b'')"
proof -
  obtain G where G: "(conc_step {sample_os} ascii_utab sample_mail_env sample_root)\<^sup>*\<^sup>* ([], Map.empty)
      (G, [0 \<mapsto> Finished (Delivered ''A@b'' ''hi'' (Inr sample_id))])"
    "mails sample_root G (''a@b'', True, sample_id) = Some ''hi''"
    using sample_delivery by blast
  have "\<forall>W \<in> {sample_os}. SLASH \<notin> set (hostname W)" by simp
  from concurrent_mail_origin [OF sample_store_ok this G] have
    "\<exists>n rcpt. [0 :: nat \<mapsto> Finished (Delivered ''A@b'' ''hi'' (Inr sample_id))] n
            = Some (Finished (Delivered rcpt ''hi'' (Inr sample_id))) \<and> mailbox_name ascii_utab rcpt = ''a@b''"
    by (auto simp: mails_def split: if_splits)
  with G(2) show ?thesis by blast
qed

text \<open>
  C6. When no write stops short and ids are distinct, a delivery that has returned an id is not
  undone by anything that runs beside or after it: as long as no deletion of that id has succeeded,
  the recipient's mailbox holds the message, whole, read or unread. (The id was not in the mailbox at
  the start and no other delivery returned it.)
\<close>
theorem concurrent_mail_stays:
  assumes "store_ok root F0" and "\<forall>W \<in> E. full_writes W \<and> SLASH \<notin> set (hostname W)"
    and "(conc_step E T M root)\<^sup>*\<^sup>* (F0, Map.empty) (F, ps)"
    and "ps n = Some (Finished (Delivered rcpt msg (Inr i)))"
    and "\<forall>m. ps m \<noteq> Some (Finished (Deleted i None))"
    and "\<forall>u. mails root F0 (mailbox_name T rcpt, u, i) = None"
    and "\<forall>m rcpt' msg'. ps m = Some (Finished (Delivered rcpt' msg' (Inr i))) \<longrightarrow> m = n"
  shows "\<exists>u. mails root F (mailbox_name T rcpt, u, i) = Some msg"
proof -
  have host: "\<forall>W \<in> E. SLASH \<notin> set (hostname W)" using assms(2) by blast
  have "\<exists>u. mails root (fst (F, ps)) (mailbox_name T rcpt, u, i) \<noteq> None"
    by (rule mail_keptD [OF conc_run_kept [OF assms(3,1) host]]) (use assms(4,5) in simp_all)
  then obtain u c where c: "mails root F (mailbox_name T rcpt, u, i) = Some c" by auto
  then have "mail_origin E T root F0 (F, ps) (mailbox_name T rcpt) i c"
    using conc_run_origin [OF assms(3,1) host] by simp
  then have "c = msg"
    unfolding mail_origin_def snd_conv using assms(2,4,6,7) written_full by (metis option.distinct(1) option.inject call_result.inject(1) proc.inject(4))
  with c show ?thesis by blast
qed

theorem concurrent_mail_stays_witness:
  "\<exists>G u. (conc_step {sample_os} ascii_utab sample_mail_env sample_root)\<^sup>*\<^sup>* ([], Map.empty)
       (G, [0 \<mapsto> Finished (Delivered ''A@b'' ''hi'' (Inr sample_id))])
     \<and> mails sample_root G (''a@b'', u, sample_id) = Some ''hi''"
proof -
  obtain G where G: "(conc_step {sample_os} ascii_utab sample_mail_env sample_root)\<^sup>*\<^sup>* ([], Map.empty)
      (G, [0 \<mapsto> Finished (Delivered ''A@b'' ''hi'' (Inr sample_id))])"
    using sample_delivery by blast
  have "\<exists>u. mails sample_root G (mailbox_name ascii_utab ''A@b'', u, sample_id) = Some ''hi''"
    by (rule concurrent_mail_stays [OF sample_store_ok _ G, of 0]) (simp_all split: if_splits)
  with G show ?thesis by auto
qed

text \<open>
  C10. Without failing system calls a listing misses nothing: while a message stays in the store,
  every listing that ends shows it, although other processes deliver other mail and open messages, moving them from new to cur,
  while the listing reads the directories one after the other.
\<close>
theorem concurrent_list_complete:
  assumes "store_ok root F0" and "\<forall>W \<in> E. no_faults W \<and> SLASH \<notin> set (hostname W)" and "validID i"
    and "sort_ok (sort_by_date M)" and "settled root r i c (F0, Map.empty)"
    and "(settled_step E T M root r i c)\<^sup>*\<^sup>* (F0, Map.empty) (F, ps)" and "ps n = Some (Finished (Listed res))"
  shows "\<exists>ms m. res = Inr ms \<and> m \<in> set ms \<and> ID m = i \<and> Recipient m = r"
  using settled_run [OF assms(6,5,1-4)] assms(7) unfolding watched_def fst_conv snd_conv by fastforce

theorem concurrent_list_complete_witness:
  "\<exists>ms m. sample_step\<^sup>*\<^sup>* (sample_box True, Map.empty) (sample_box True, [0 \<mapsto> Finished (Listed (Inr ms))])
     \<and> m \<in> set ms \<and> ID m = ''7'' \<and> Recipient m = ''a@b''"
proof -
  obtain ms where run: "sample_step\<^sup>*\<^sup>* (sample_box True, Map.empty) (sample_box True, [0 \<mapsto> Finished (Listed (Inr ms))])"
    using list_run by blast
  have "\<exists>ms' m. Inr ms = (Inr ms' :: io_error + message list) \<and> m \<in> set ms' \<and> ID m = ''7'' \<and> Recipient m = ''a@b''"
    by (rule concurrent_list_complete [OF sample_box_ok _ sample_validID(1) sample_sort_ok sample_settled run, of 0]) simp_all
  with run show ?thesis by auto
qed

text \<open>
  C13. Without failing system calls, while a message stays in the store, opening it or streaming it returns its bytes, or reports
  that it does not exist; the latter only when another call has opened the message meanwhile and
  got its bytes.
\<close>
theorem concurrent_open_outcome:
  assumes "store_ok root F0" and "\<forall>W \<in> E. no_faults W \<and> SLASH \<notin> set (hostname W)" and "validID i"
    and "sort_ok (sort_by_date M)" and "settled root r i c (F0, Map.empty)"
    and "(settled_step E T M root r i c)\<^sup>*\<^sup>* (F0, Map.empty) (F, ps)"
    and "ps n = Some (Finished (Opened i res)) \<or> ps n = Some (Finished (Streamed i res))"
  shows "res = Inr c
    \<or> res = Inl ErrNotExist \<and> (\<exists>m. m \<noteq> n \<and> ps m = Some (Finished (Opened i (Inr c))))"
  using settled_run [OF assms(6,5,1-4)] assms(7)
  unfolding watched_def fst_conv snd_conv opened_by_other_def [symmetric] by fastforce

theorem concurrent_open_outcome_witness:
  "\<exists>m :: nat. m \<noteq> 1 \<and> [0 \<mapsto> Finished (Opened ''7'' (Inr ''hi'')), 1 \<mapsto> Finished (Opened ''7'' (Inl ErrNotExist))] m
     = Some (Finished (Opened ''7'' (Inr ''hi'')))"
  using concurrent_open_outcome [OF sample_box_ok _ sample_validID(1) sample_sort_ok sample_settled race_run,
      of 1 "Inl ErrNotExist"] by auto

text \<open>
  C14. The failure does occur: two openings of one unread message, without any fault of the system,
  can interleave so that one of them reports that the message does not exist, although the
  message is in the store from beginning to end. \<^verbatim>\<open>Open\<close> reads the path it has located, which the
  other opening has renamed in between.
\<close>
theorem concurrent_open_misses:
  "\<exists>F ps. (settled_step {sample_os} ascii_utab sample_mail_env sample_root ''a@b'' ''7'' ''hi'')\<^sup>*\<^sup>*
       (sample_box True, Map.empty) (F, ps)
     \<and> settled sample_root ''a@b'' ''7'' ''hi'' (sample_box True, Map.empty) \<and> no_faults sample_os
     \<and> mails sample_root F (''a@b'', False, ''7'') = Some ''hi''
     \<and> ps 0 = Some (Finished (Opened ''7'' (Inr ''hi''))) \<and> ps 1 = Some (Finished (Opened ''7'' (Inl ErrNotExist)))"
proof -
  let ?ps = "[0 :: nat \<mapsto> Finished (Opened ''7'' (Inr ''hi'')), 1 \<mapsto> Finished (Opened ''7'' (Inl ErrNotExist))]"
  have "settled sample_root ''a@b'' ''7'' ''hi'' (sample_box True, Map.empty)" by (rule sample_settled) simp
  moreover have "mails sample_root (sample_box False) (''a@b'', False, ''7'') = Some ''hi''"
    by (simp add: mails_def sample_box_at)
  moreover have "?ps 0 = Some (Finished (Opened ''7'' (Inr ''hi'')))" "?ps 1 = Some (Finished (Opened ''7'' (Inl ErrNotExist)))"
    by simp_all
  ultimately show ?thesis using race_run sample_os_simps(1) by blast
qed

end
