(* ===== verification/Spec2Isabelle.thy ===== *)
theory Spec2Isabelle
  imports Runs StoreConcProps
begin

text \<open>
  \<^bold>\<open>airmx\<close>: a personal mail receiver with a web reader, in Go (under \<^verbatim>\<open>src/\<close>).

  \<^bold>\<open>The program.\<close> \<^verbatim>\<open>main.go\<close> loads a configuration (\<^verbatim>\<open>config.go\<close>) and starts two servers on one
  data directory. The SMTP receiver (\<^verbatim>\<open>internal/smtpserver\<close>) accepts mail for the recipients on an
  allowlist, checks SPF, DKIM and DMARC (\<^verbatim>\<open>internal/mailauth\<close>), writes the results in front of the
  message and files it in the store (\<^verbatim>\<open>internal/maildir\<close>); its TLS certificate is reloaded when the
  files change (\<^verbatim>\<open>tls.go\<close>). The web server (\<^verbatim>\<open>internal/web\<close>) lists, shows and deletes the stored
  messages for one user with a session cookie (\<^verbatim>\<open>auth.go\<close>), in two languages (\<^verbatim>\<open>i18n.go\<close>), and turns
  HTML bodies into text (\<^verbatim>\<open>textify.go\<close>). Each delivered message is announced to the browsers
  that have subscribed (\<^verbatim>\<open>internal/push\<close>). The store and the subscriptions are files; they are
  the only state that outlives the process, and the servers meet there.

  \<^bold>\<open>The theories.\<close>

  \<^item> \<open>Prelude\<close>: bytes, the functions of package strings on bytes, the collections of rules, and the
    interfaces \<open>codec\<close> (a round trip; interpreted by decimal integers and base64) and \<open>normaliser\<close>
    (idempotence; interpreted by TrimSpace and the text normaliser).
  \<^item> \<open>Utf8\<close>, \<open>GoStrings\<close>, \<open>Strconv\<close>, \<open>Base64\<close>, \<open>NetMail\<close>, \<open>Http\<close>, \<open>FileSystem\<close>: the parts of Go's
    library the program uses. Runes are decoded and encoded as package utf8 does, header blocks
    are read as net/textproto and net/mail do, and files live in a finite list of paths where every
    system call may fail as the record \<open>os_env\<close> says.
  \<^item> \<open>Mailauth\<close> (\<^verbatim>\<open>auth.go\<close>): \<open>Check\<close> and its three checks, \<open>Decide\<close>, the two header values. The
    theorems characterise the verdicts (DMARC looks at the first verifying signature only) and show that
    failing lookups do not penalise.
  \<^item> \<open>Config\<close> (\<^verbatim>\<open>config.go\<close>): \<open>LoadConfig\<close>, \<open>Validate\<close>, \<open>AcceptsRecipient\<close>; the interface
    \<open>recipient_filter\<close>. Validation accepts exactly what the example configuration asks for, spelled out
    field by field, and names what is wrong; its result is a normal form, a wildcard matches exactly its
    domain.
  \<^item> \<open>Maildir\<close> and \<open>MaildirProps\<close> (\<^verbatim>\<open>maildir.go\<close>): one function per operation; \<open>Deliver_run\<close> keeps the file system after each system
    call; \<open>mails\<close> is the abstract mailbox; the interface \<open>mail_store\<close> is what the receiver and the web
    server rely on. A delivery is atomic, confined to the recipient's directory, and, without
    faults, succeeds; listing, opening and deleting are exact; \<open>store_reach\<close> covers every sequence.
  \<^item> \<open>StoreConc\<close> and \<open>StoreConcProps\<close> (\<^verbatim>\<open>maildir.go\<close> again): the operations of the store as processes that
    make one call of package os per step (\<open>deliver_step\<close>, \<open>lookup_step\<close>, \<open>list_step\<close>) and run side
    by side on one file system (\<open>conc_step\<close>); they do not disturb each other because each owns its
    temporary file (the interface \<open>owned_resources\<close>). Each ends, and alone it computes what \<open>Maildir\<close> says;
    together they show only what finished deliveries have written, lose nothing of it, and list every
    message that stays; an opening can miss a message that another opening moves at the same time.
  \<^item> \<open>SmtpServer\<close> (\<^verbatim>\<open>server.go\<close>): the session and its callbacks, any number of connections as the step
    relation \<open>smtp_step\<close>. Only vetted mail is stored; a success means every recipient has it, if no write
    stopped short; what the listing reads of the spam mark is characterised for every message.
  \<^item> \<open>Tls\<close> (\<^verbatim>\<open>tls.go\<close>): the certificate reloader, with one view of the disk per moment.
  \<^item> \<open>Push\<close> (\<^verbatim>\<open>push.go\<close>): subscriptions in memory and in their file; saving is atomic, what is saved is
    what a later start loads, notifying removes exactly the subscriptions that are gone.
  \<^item> \<open>I18n\<close>, \<open>WebAuth\<close>, \<open>Textify\<close>: languages, session cookies, HTML to text.
  \<^item> \<open>WebUtil\<close>, \<open>WebMime\<close>, \<open>Web\<close> (\<^verbatim>\<open>web.go\<close>, and the login of \<^verbatim>\<open>auth.go\<close>): the helpers, the parts of a message,
    and every handler with the middleware and the routes (\<open>serve\<close>). A message is the walk of visits the
    MIME parser makes, in which reading the body of a multipart may use up its parts; \<open>fixed_walk\<close> says
    for which parts reading makes no difference. A page is the data its template gets. \<open>WebProps\<close> has what holds of the whole server: no session, no information and no
    effect; mail is lost only by deleting it; logging in, viewing, headers.
  \<^item> \<open>Program\<close> (\<^verbatim>\<open>main.go\<close>, \<^verbatim>\<open>ListenAndServe\<close>): how the parts are put together, and \<open>sys_act\<close> and \<open>sys_step\<close>,
    the running program as an interleaving of SMTP sessions, web requests and notifications.
  \<^item> \<open>Entry\<close> (\<^verbatim>\<open>main.go\<close>): \<open>main\<close> from the command line on, with the flag, the commands \<^verbatim>\<open>hashpw\<close> and
    \<^verbatim>\<open>genpushkey\<close>, and how the process ends. A failed start does no harm; a password hashed by the
    command logs in.
  \<^item> \<open>Runs\<close>: the started program over time; what is in the store stays until it is deleted. This
    theory adds the properties that span all parts: where mail comes from, that none is lost, and
    that what the receiver accepts can be read.

  \<^bold>\<open>Conventions.\<close> Strings and byte slices are lists of bytes. A struct is a record, an error a value of
  a sum or an option, a panic the value \<open>None\<close>. Integers are unbounded where the code stays in range
  for a stated reason; sizes and page numbers carry the 64-bit range (\<open>int64_ok\<close>, \<open>wrap64\<close>), the
  avatar hash is a 32-bit word, floating point sizes are rounded to 53 bits. Code outside the
  repository is a field of an environment record (\<open>auth_env\<close>, \<open>mail_env\<close>, \<open>mime_env\<close>, \<open>push_env\<close>,
  \<open>crypto_env\<close>, \<open>tls_env\<close>, \<open>web_env\<close> and others); what is assumed of it is a named predicate
  (\<open>crypto_ok\<close>, \<open>push_env_ok\<close>, \<open>sort_ok\<close>, \<open>utab_ok\<close>, \<open>fixed_walk\<close>), and each theorem that has such a
  hypothesis has a witness on concrete values. No definition needs fuel: every loop is a recursion
  with a termination proof. Concurrency is interleaving, at two levels: in \<open>sys_step\<close> a callback of the
  receiver, a web request or a notification is one step; in \<open>conc_step\<close> a system call of the store is
  one (where \<^verbatim>\<open>os.MkdirAll\<close>, \<^verbatim>\<open>os.ReadDir\<close> and reading a file count as one call each).

  \<^bold>\<open>Not modelled.\<close> Listening, the texts of the log and the delivery of signals (input and output of the
  process); the rendering of the templates and the static assets (data, not Go code); the SMTP,
  MIME, HTML, YAML, JSON and cryptographic libraries (parameters). Interleavings inside a
  web handler other than those of its store calls, and between the goroutines of one notification
  and other calls of the push service, are not considered.

  \<^bold>\<open>Planned.\<close> The order of concurrent operations of the push service and of the certificate reloader
  under their locks.
\<close>

section \<open>The program as a whole\<close>

text \<open>
  C1. Where mail comes from. Started on a data directory and run with any interleaving of SMTP clients,
  web requests and notifications, on shared files and with any failing system calls, the program
  keeps its store well formed, and every message in it, read or unread, was there at the start or
  was accepted by the receiver: its recipient is on the allowlist and its bytes are an original of at
  most 25 MiB that the policy did not reject, behind the two headers (or, when writes may stop short,
  a prefix of that). No web request and no
  notification ever adds or alters a message.
\<close>
theorem program_mail_origin:
  assumes "started EE E bd argv F0 R F" and "store_ok (data_dir R) F0"
    and "(sys_step whole E (run_config R) bd)\<^sup>*\<^sup>* (first_state R F) (ss, G, q, p)"
    and "has_mail (data_dir R) G rc i m"
  shows "store_ok (data_dir R) G
    \<and> (has_mail (data_dir R) F0 rc i m \<or> vetted whole E (run_config R) (rc, True, i) m)"
proof -
  note l = started_loaded [OF assms(1)]
  have "sys_inv whole E (run_config R) F0 (first_state R F)"
    using start_inv [OF _ l(3)] assms(2) by (simp add: data_dir_def first_state_def)
  note i = sys_run_inv [OF assms(3) this l(1,2)]
  show ?thesis using sys_invD(3,5) [OF i] assms(4) unfolding data_dir_def by blast
qed

theorem program_mail_origin_witness:
  "\<exists>ss G q i m. (sys_step True failing_env sample_conf sample_build)\<^sup>*\<^sup>* (\<lambda>_. None, [], [], None) (ss, G, q, None)
     \<and> has_mail (filepath_Clean (DataDir sample_conf)) G ''me@example.com'' i m
     \<and> vetted True failing_env sample_conf (''me@example.com'', True, i) m"
proof -
  let ?dir = "filepath_Clean (DataDir sample_conf)"
  obtain R where R: "started sample_entry failing_env sample_build [''airmx''] [] R []" "run_config R = sample_conf" "run_push R = None"
    using sample_started by blast
  obtain ss w i m where run: "rtranclp (smtp_step True failing_env (smtp_options ascii_utab sample_conf))
       (\<lambda>_. None, \<lparr>files = [], notified = []\<rparr>) (ss, w)"
    and m: "mails ?dir (files w) (''me@example.com'', True, i) = Some m"
    using sample_smtp_run by blast
  have r: "(sys_step True failing_env sample_conf sample_build)\<^sup>*\<^sup>* (\<lambda>_. None, [], [], None) (ss, files w, notified w, None)"
    using smtp_run_sys [of True failing_env sample_conf "\<lambda>_. None" "\<lparr>files = [], notified = []\<rparr>" ss w sample_build None] run by simp
  have h: "has_mail ?dir (files w) ''me@example.com'' i m" using m by (simp add: has_mail_def)
  have d: "data_dir R = ?dir" "first_state R [] = (\<lambda>_. None, [], [], None)" by (simp_all add: data_dir_def first_state_def R)
  have "\<not> has_mail ?dir [] ''me@example.com'' i m" by (simp add: has_mail_def mails_def)
  with program_mail_origin [OF R(1), of True ss "files w" "notified w" None "''me@example.com''" i m] sample_conf_store_ok r h
  show ?thesis unfolding d R(2) by auto
qed

text \<open>
  C3. The program loses no mail. In a run of the started program, a message that is in the store stays
  in it with the same bytes, through any deliveries, requests, notifications and failing calls,
  until an authenticated client deletes its id. The ids of deliveries are new in their mailbox.
\<close>
theorem program_mail_kept:
  assumes "started EE E bd argv F0 R F" and "mail_ok (data_dir R) F0"
    and "(fresh_step whole E (run_config R) bd)\<^sup>*\<^sup>* (first_state R F) a"
    and "has_mail (data_dir R) (sys_files a) rc i m"
    and "(keeping_step whole E (run_config R) bd i)\<^sup>*\<^sup>* a b"
  shows "has_mail (data_dir R) (sys_files b) rc i m"
proof -
  note l = started_loaded [OF assms(1)]
  note a = fresh_run_inv [OF assms(3) started_run_inv [OF assms(1,2)] l(1,2)]
  from keeping_run [OF assms(5) a l(1,2)] assms(4) show ?thesis by (simp add: data_dir_def)
qed

theorem program_mail_kept_witness:
  "\<exists>ss G q i m. (fresh_step True failing_env sample_conf sample_build)\<^sup>*\<^sup>* (\<lambda>_. None, [], [], None) (ss, G, q, None)
     \<and> has_mail (filepath_Clean (DataDir sample_conf)) (sys_files (ss(0 := None), G, q, None)) ''me@example.com'' i m"
proof -
  let ?dir = "filepath_Clean (DataDir sample_conf)" and ?os = "smtp_options ascii_utab sample_conf"
  obtain R where R: "started sample_entry failing_env sample_build [''airmx''] [] R []" "run_config R = sample_conf" "run_push R = None"
    using sample_started by blast
  then have d: "data_dir R = ?dir" "first_state R [] = (\<lambda>_. None, [], [], None)" by (simp_all add: data_dir_def first_state_def)
  obtain w :: smtp_world and i m where w: "fresh_step True failing_env sample_conf sample_build ([0 \<mapsto> sample_session], [], [], None)
      ([0 \<mapsto> sample_session], files w, notified w, None)" and m: "has_mail ?dir (files w) ''me@example.com'' i m"
    using sample_data_step by blast
  from sample_fresh_run w
  have run: "(fresh_step True failing_env sample_conf sample_build)\<^sup>*\<^sup>* (\<lambda>_. None, [], [], None)
      ([0 \<mapsto> sample_session], files w, notified w, None)" by (rule rtranclp.rtrancl_into_rtrancl)
  have "smtp_step True failing_env ?os ([0 \<mapsto> sample_session], w) ([0 \<mapsto> sample_session](0 := None), w)"
    using smtp_step.logout [of "[0 \<mapsto> sample_session]" 0 sample_session True failing_env ?os w] by simp
  then have "keeping_step True failing_env sample_conf sample_build i ([0 \<mapsto> sample_session], files w, notified w, None)
      ([0 \<mapsto> sample_session](0 := None), files w, notified w, None)"
    using sys_act_smtp [of True failing_env sample_conf _ w _ w sample_build None]
    by (auto simp: keeping_step_def fresh_ids_def sys_files_def)
  then have k: "(keeping_step True failing_env (run_config R) sample_build i)\<^sup>*\<^sup>* ([0 \<mapsto> sample_session], files w, notified w, None)
      ([0 \<mapsto> sample_session](0 := None), files w, notified w, None)"
    unfolding R(2) by (rule r_into_rtranclp)
  have ok: "mail_ok (data_dir R) []" using sample_conf_store_ok by (simp add: mail_ok_def mails_def d)
  have "has_mail (data_dir R) (sys_files ([0 \<mapsto> sample_session](0 := None), files w, notified w, None)) ''me@example.com'' i m"
    by (rule program_mail_kept [OF R(1) ok _ _ k]) (use run m in \<open>simp_all add: d R(2) sys_files_def\<close>)
  then have "has_mail ?dir (sys_files ([0 \<mapsto> sample_session](0 := None), files w, notified w, None)) ''me@example.com'' i m"
    unfolding d .
  with run show ?thesis by blast
qed

text \<open>
  C2. From the wire to the reader. When the receiver of the started program answers a transaction with
  success and none of its writes stopped short, each of its recipients has a message under some id,
  and from then on, through any further steps that are not a deletion of that id by an authenticated
  client, an authenticated client that follows the link of the message gets the page of exactly that
  message: the accepted bytes behind the two headers. The system calls of the view do not fail, no
  other mailbox has a message of the same id, the ids of deliveries are new in their mailbox, and the
  host name has no slash, backslash or percent sign. (When a write stops short, success may be answered
  with a truncated message: the receiver does not notice, see \<open>MaildirProps\<close>.)
\<close>
theorem accepted_mail_readable:
  assumes "started EE E bd argv F0 R F" and "mail_ok (data_dir R) F0"
    and "(fresh_step whole E (run_config R) bd)\<^sup>*\<^sup>* (first_state R F) (ss, G, q, p)"
    and "ss n = Some s" and "a \<in> set (rcpts s)"
    and "\<forall>k. full_writes (Ws k) \<and> set (hostname (Ws k)) \<inter> {SLASH, BACKSLASH, CHR ''%''} = {}"
    and "Data E Ws s rq \<lparr>files = G, notified = q\<rparr> = (None, w')" and "fresh_ids (data_dir R) G (files w')"
  shows "\<exists>i m. m = injectHeaders (env_utab E) (fst rq) (Domain (run_config R)) (Check E (clientIP s) (mailFrom s) (fst rq))
        (Decide (Policy (run_config R)) (Check E (clientIP s) (mailFrom s) (fst rq)))
    \<and> has_mail (data_dir R) (files w') (mailbox_name (env_utab E) a) i m
    \<and> (\<forall>ss' H q' p' WE r u. (keeping_step whole E (run_config R) bd i)\<^sup>*\<^sup>* (ss, files w', notified w', p) (ss', H, q', p') \<longrightarrow>
         no_faults (we_os WE) \<longrightarrow> only_copy (data_dir R) H (mailbox_name (env_utab E) a, u, i) \<longrightarrow>
         authenticated WE (main_web (run_config R) bd) r \<longrightarrow> req_Method r = ''GET'' \<longrightarrow> req_EscapedPath r = ''/mail/'' @ i \<longrightarrow>
         (\<exists>resp. fst (serve WE (main_web (run_config R) bd) r \<lparr>ww_files = H, ww_push = p'\<rparr>) = Some resp \<and> page_of WE i m resp))"
proof -
  let ?c = "run_config R" and ?rc = "mailbox_name (env_utab E) a"
  define m where "m = injectHeaders (env_utab E) (fst rq) (Domain ?c) (Check E (clientIP s) (mailFrom s) (fst rq))
        (Decide (Policy ?c) (Check E (clientIP s) (mailFrom s) (fst rq)))"
  note l = started_loaded [OF assms(1)]
  note inv = fresh_run_inv [OF assms(3) started_run_inv [OF assms(1,2)] l(1,2)]
  note srv = sys_invD(1) [OF conjunct1 [OF inv [unfolded run_inv_def]]]
  have fw: "\<forall>k. full_writes (Ws k) \<and> SLASH \<notin> set (hostname (Ws k))" using assms(6) by blast
  obtain i k rp where "mails (filepath_Clean (DataDir ?c)) (files w') (?rc, True, i) = Some m" and i: "i = message_id (Ws k) rp"
    using Data_files [OF srv l(1,2) assms(4,5,7) fw] unfolding m_def by blast
  then have h: "has_mail (data_dir R) (files w') ?rc i m" by (simp add: has_mail_def data_dir_def)
  have vi: "validID i" "CHR ''%'' \<notin> set i"
    using assms(6) message_id_valid [of "Ws k" rp] message_id_no_percent [of "Ws k" rp] unfolding i by blast+
  have "smtp_step whole E (smtp_options (env_utab E) ?c) (ss, \<lparr>files = G, notified = q\<rparr>) (ss, w')"
    by (rule smtp_step.data [where ss = ss and n = n, OF assms(4) _ _ assms(7)]) (use fw in simp_all)
  then have act: "sys_act whole E ?c bd SmtpAct (ss, G, q, p) (ss, files w', notified w', p)"
    using sys_act_smtp [of whole E ?c ss "\<lparr>files = G, notified = q\<rparr>" ss w' bd p] by simp
  have inv': "run_inv whole E ?c F0 (ss, files w', notified w', p)"
    using sys_act_keeps(1) [OF act inv l(1,2)] assms(8) by (simp add: sys_files_def data_dir_def)
  have view: "\<exists>resp. fst (serve WE (main_web ?c bd) r \<lparr>ww_files = H, ww_push = p'\<rparr>) = Some resp \<and> page_of WE i m resp"
    if k: "(keeping_step whole E ?c bd i)\<^sup>*\<^sup>* (ss, files w', notified w', p) (ss', H, q', p')"
      and v: "no_faults (we_os WE)" and o: "only_copy (data_dir R) H (?rc, u, i)"
      and r: "authenticated WE (main_web ?c bd) r" "req_Method r = ''GET''" "req_EscapedPath r = ''/mail/'' @ i"
    for ss' H q' p' WE r u
  proof -
    have root: "store_root (main_web ?c bd) = data_dir R" by (simp add: main_web_def web_New_def data_dir_def)
    have H: "run_inv whole E ?c F0 (ss', H, q', p')" "has_mail (data_dir R) H ?rc i m"
      using keeping_run [OF k inv' l(1,2)] h by (simp_all add: sys_files_def data_dir_def)
    then obtain u' where u': "mails (data_dir R) H (?rc, u', i) = Some m" by (auto simp: has_mail_ex)
    then have "u' = u" using o mails_SomeD [OF u'] by (auto simp: only_copy_def)
    moreover have "store_ok (data_dir R) H" using H(1) by (simp add: run_inv_def mail_ok_def sys_files_def data_dir_def)
    ultimately show ?thesis
      using view_page [of "main_web ?c bd" "\<lparr>ww_files = H, ww_push = p'\<rparr>" WE ?rc u i m r] u' v vi o r by (simp add: root)
  qed
  show ?thesis
    by (rule exI [of _ i], rule exI [of _ m], intro conjI allI impI, rule m_def, rule h) (rule view; assumption)
qed

theorem accepted_mail_readable_witness:
  "\<exists>w' i m resp. Data failing_env (\<lambda>_. sample_os) sample_session (''From: a@b'', None) sample_world = (None, w')
     \<and> has_mail (filepath_Clean (DataDir sample_conf)) (files w') ''me@example.com'' i m
     \<and> fst (serve sample_web_env (main_web sample_conf sample_build) (sample_view_of i) \<lparr>ww_files = files w', ww_push = None\<rparr>) = Some resp
     \<and> page_of sample_web_env i m resp"
proof -
  let ?dir = "filepath_Clean (DataDir sample_conf)" and ?me = "''me@example.com''"
  obtain R where R: "started sample_entry failing_env sample_build [''airmx''] [] R []" "run_config R = sample_conf" "run_push R = None"
    using sample_started by blast
  then have d: "data_dir R = ?dir" "first_state R [] = (\<lambda>_. None, [], [], None)" by (simp_all add: data_dir_def first_state_def)
  obtain w' m0 where w': "Data failing_env (\<lambda>_. sample_os) sample_session (''From: a@b'', None) sample_world = (None, w')"
    and ms: "mails ?dir (files w') = [(?me, True, message_id sample_os ''A'') \<mapsto> m0]"
    and oc: "only_copy ?dir (files w') (?me, True, message_id sample_os ''A'')" using sample_data_only by blast
  have ok: "mail_ok (data_dir R) []" using sample_conf_store_ok by (simp add: mail_ok_def mails_def d)
  have fr: "fresh_ids (data_dir R) [] (files w')" by (simp add: fresh_ids_def mails_def)
  have run: "(fresh_step True failing_env (run_config R) sample_build)\<^sup>*\<^sup>* (first_state R []) ([0 \<mapsto> sample_session], [], [], None)"
    using sample_fresh_run by (simp add: R(2) d)
  have rc: "?me \<in> set (rcpts sample_session)" by (simp add: sample_session_def)
  obtain i m where m: "has_mail ?dir (files w') ?me i m"
    and view: "\<And>WE r u. no_faults (we_os WE) \<Longrightarrow> only_copy ?dir (files w') (?me, u, i) \<Longrightarrow>
        authenticated WE (main_web sample_conf sample_build) r \<Longrightarrow> req_Method r = ''GET'' \<Longrightarrow> req_EscapedPath r = ''/mail/'' @ i \<Longrightarrow>
        \<exists>resp. fst (serve WE (main_web sample_conf sample_build) r \<lparr>ww_files = files w', ww_push = None\<rparr>) = Some resp \<and> page_of WE i m resp"
    using accepted_mail_readable [OF R(1) ok run _ rc _ w' [unfolded sample_world_def] fr, of 0]
    unfolding d R(2) failing_env_utab sample_mailbox_me by (auto, metis rtranclp.rtrancl_refl)
  have "i = message_id sample_os ''A''" using m ms by (auto simp: has_mail_def split: if_splits)
  then have "\<exists>resp. fst (serve sample_web_env (main_web sample_conf sample_build) (sample_view_of i) \<lparr>ww_files = files w', ww_push = None\<rparr>) = Some resp
      \<and> page_of sample_web_env i m resp"
    using oc by (intro view [OF _ _ sample_view_of_authenticated]) (simp_all add: sample_web_env_def sample_view_of_def sample_get_def)
  with w' m show ?thesis by blast
qed

end
